(* ===== verification/Prelude.thy ===== *)
theory Prelude
  imports Main "HOL-Library.Word"
begin

text \<open>
  Shared vocabulary of the development: names for the machine integers of the C sources, C
  conversions, abstract sequences (what the linked lists of \<^verbatim>\<open>os/lib/list.c\<close> promise to
  their clients) and the generic lemmas on words, lists and options that the component theories
  use. The collection \<open>c_arith\<close> gathers the rewrites that read word arithmetic as natural
  numbers.
\<close>

unbundle bit_operations_syntax

section \<open>Machine integers\<close>

type_synonym u8 = "8 word"
type_synonym u16 = "16 word"
type_synonym u32 = "32 word"
type_synonym u64 = "64 word"

text \<open>A link-layer address is the byte array of \<^verbatim>\<open>linkaddr_t\<close>.\<close>

type_synonym linkaddr = "u8 list"

named_theorems c_arith \<open>word arithmetic of the C sources read as arithmetic on nat\<close>

abbreviation int_of_bool :: "bool \<Rightarrow> int" where
  "int_of_bool b \<equiv> (if b then 1 else 0)"

lemma u8_less [simp]: "unat (x :: u8) < 256"
  using unsigned_less [of x] by simp

lemma u16_less [simp]: "unat (x :: u16) < 65536"
  using unsigned_less [of x] by simp

lemma u32_less [simp]: "unat (x :: u32) < 4294967296"
  using unsigned_less [of x] by simp

lemma unat_add_mod [c_arith]:
  "unat (x + y) = (unat x + unat y) mod 2 ^ LENGTH('a)" for x y :: "'a::len word"
  by (simp add: unat_word_ariths)

lemma unat_sub_mod [c_arith]:
  "unat (x - y) = (unat x + 2 ^ LENGTH('a) - unat y) mod 2 ^ LENGTH('a)"
  for x y :: "'a::len word"
proof -
  have le: "unat y \<le> 2 ^ LENGTH('a)"
    using unsigned_less [of y] by (rule less_imp_le)
  then have "int ((unat x + 2 ^ LENGTH('a) - unat y) mod 2 ^ LENGTH('a)) =
      (uint x + 2 ^ LENGTH('a) - uint y) mod 2 ^ LENGTH('a)"
    by (simp add: zmod_int of_nat_diff trans_le_add2)
  also have "\<dots> = (uint x - uint y) mod 2 ^ LENGTH('a)"
    using mod_add_self2 [of "uint x - uint y" "2 ^ LENGTH('a)"] by (simp add: algebra_simps)
  also have "\<dots> = int (unat (x - y))"
    by (simp add: uint_word_ariths)
  finally show ?thesis by (metis of_nat_eq_iff)
qed

lemma uint_eq_int_iff: "uint x = int i \<longleftrightarrow> unat x = i" for x :: "'a::len word"
  by (metis nat_int of_nat_unat unat_eq_nat_uint)

text \<open>Masking with a number of low bits is the remainder modulo a power of two.\<close>

lemma unat_and_mask [c_arith]:
  "k \<le> LENGTH('a) \<Longrightarrow> unat (x AND mask k) = unat x mod 2 ^ k" for x :: "'a::len word"
  by (simp add: take_bit_eq_mask [symmetric] unsigned_take_bit_eq)
    (simp add: take_bit_eq_mod)

lemma unat_mask_le [c_arith]:
  "k \<le> LENGTH('a) \<Longrightarrow> unat (mask k :: 'a::len word) = 2 ^ k - 1"
  using unat_and_mask [of k "- 1 :: 'a word"]
  by (simp add: unsigned_minus_1_eq_mask flip: take_bit_eq_mod)
    (simp add: mask_eq_exp_minus_1 min_def)

lemma mod_wrap: "(m :: nat) \<le> a \<Longrightarrow> a < 2 * m \<Longrightarrow> a mod m = a - m"
  by (simp add: le_mod_geq)

lemma unat_ucast_16_32 [c_arith]: "unat (ucast (x :: u16) :: u32) = unat x"
  using u16_less [of x] by (simp add: unsigned_ucast_eq take_bit_nat_eq_self del: u16_less)

lemma unat_ucast_16_64 [c_arith]: "unat (ucast (x :: u16) :: u64) = unat x"
  using u16_less [of x] by (simp add: unsigned_ucast_eq take_bit_nat_eq_self del: u16_less)

lemma unat_ucast_32_64 [c_arith]: "unat (ucast (x :: u32) :: u64) = unat x"
  using u32_less [of x] by (simp add: unsigned_ucast_eq take_bit_nat_eq_self del: u32_less)

lemma unat_ucast_32_16: "unat (x :: u32) < 65536 \<Longrightarrow> unat (ucast x :: u16) = unat x"
  by (simp add: unsigned_ucast_eq take_bit_nat_eq_self)

lemma unat_of_nat_u8: "k < 256 \<Longrightarrow> unat (of_nat k :: u8) = k"
  by (simp add: unsigned_of_nat take_bit_nat_eq_self)

lemma unat_of_nat_u16: "k < 65536 \<Longrightarrow> unat (of_nat k :: u16) = k"
  by (simp add: unsigned_of_nat take_bit_nat_eq_self)

lemma unat_word_of_int_u8: "0 \<le> x \<Longrightarrow> x < 256 \<Longrightarrow> unat (word_of_int x :: u8) = nat x"
  by (simp add: unsigned_of_int take_bit_int_eq_self)

section \<open>Abstract sequences\<close>

text \<open>
  What the operations of \<^verbatim>\<open>os/lib/list.c\<close> do to the sequence of elements: an element is
  in a list at most once, \<^verbatim>\<open>list_add\<close> moves it to the end, \<^verbatim>\<open>list_push\<close> to
  the front.
\<close>

definition seq_remove :: "'a \<Rightarrow> 'a list \<Rightarrow> 'a list" where
  "seq_remove x xs = filter (\<lambda>y. y \<noteq> x) xs"

definition seq_add :: "'a \<Rightarrow> 'a list \<Rightarrow> 'a list" where
  "seq_add x xs = seq_remove x xs @ [x]"

definition seq_push :: "'a \<Rightarrow> 'a list \<Rightarrow> 'a list" where
  "seq_push x xs = x # seq_remove x xs"

lemma seq_remove_simps [simp]:
  "seq_remove x [] = []"
  "seq_remove x (y # ys) = (if y = x then seq_remove x ys else y # seq_remove x ys)"
  "seq_remove x (ys @ zs) = seq_remove x ys @ seq_remove x zs"
  by (simp_all add: seq_remove_def)

lemma set_seq_remove [simp]: "set (seq_remove x xs) = set xs - {x}"
  by (auto simp: seq_remove_def)

lemma seq_remove_notin [simp]: "x \<notin> set xs \<Longrightarrow> seq_remove x xs = xs"
  by (induction xs) auto

lemma distinct_seq_remove [simp]: "distinct xs \<Longrightarrow> distinct (seq_remove x xs)"
  by (simp add: seq_remove_def)

lemma length_seq_remove:
  "distinct xs \<Longrightarrow> length (seq_remove x xs) = length xs - (if x \<in> set xs then 1 else 0)"
proof (induction xs)
  case (Cons y ys)
  then show ?case
    using length_pos_if_in_set [of x ys] by auto
qed simp

lemma set_seq_add [simp]: "set (seq_add x xs) = insert x (set xs)"
  by (auto simp: seq_add_def)

lemma distinct_seq_add [simp]: "distinct xs \<Longrightarrow> distinct (seq_add x xs)"
  by (simp add: seq_add_def)

lemma set_seq_push [simp]: "set (seq_push x xs) = insert x (set xs)"
  by (auto simp: seq_push_def)

lemma distinct_seq_push [simp]: "distinct xs \<Longrightarrow> distinct (seq_push x xs)"
  by (simp add: seq_push_def)

section \<open>Lists\<close>

lemma nth_upt_map: "i < n \<Longrightarrow> map f [0..<n] ! i = f i"
  by simp

lemma find_Some_set: "find P xs = Some x \<Longrightarrow> x \<in> set xs \<and> P x"
  by (induction xs) (auto split: if_splits)

lemma find_None_set: "find P xs = None \<longleftrightarrow> (\<forall>x \<in> set xs. \<not> P x)"
  by (induction xs) auto

lemma length_filter_mono:
  "(\<And>x. x \<in> set xs \<Longrightarrow> P x \<Longrightarrow> Q x) \<Longrightarrow> length (filter P xs) \<le> length (filter Q xs)"
  by (induction xs) auto

end
