(* ===== verification/Lib_List.thy ===== *)
theory Lib_List
  imports Prelude
begin

text \<open>
  The linked lists of \<^verbatim>\<open>os/lib/list.c\<close>. An element is identified by its address and
  its first word is the \<^verbatim>\<open>next\<close> pointer, so the state is the list variable (the head
  pointer) and the map from every address to the \<^verbatim>\<open>next\<close> word stored there. NULL is
  \<open>None\<close>. The operations are translated pointer by pointer; the traversals are
  \<open>partial_function (option)\<close>, so a traversal of a cyclic list, which never returns in C, is
  \<open>None\<close>, and so is a call that dereferences NULL.

  \<open>list_repr\<close> is the abstraction relation: the head pointer starts a NULL-terminated chain
  through exactly these elements. The lemmas \<open>list_*_repr\<close> show that every operation returns
  on such a list and what it does to the sequence. The locale \<open>linked_seq\<close> is the interface the
  clients of the lists rely on; its interpretation here discharges the contract for the code.
\<close>

type_synonym addr = nat

record list_state =
  lst_head :: "addr option"
  lst_next :: "addr \<Rightarrow> addr option"

section \<open>Operations\<close>

definition list_init :: "list_state \<Rightarrow> list_state" where
  "list_init s = s\<lparr>lst_head := None\<rparr>"

definition list_head :: "list_state \<Rightarrow> addr option" where
  "list_head s = lst_head s"

text \<open>Both list variables share the elements' \<^verbatim>\<open>next\<close> words: only the head is copied.\<close>

definition list_copy :: "list_state \<Rightarrow> list_state \<Rightarrow> list_state" where
  "list_copy dest src = dest\<lparr>lst_head := lst_head src\<rparr>"

text \<open>\<open>for(l = *list; l->next != NULL; l = l->next);\<close>\<close>

partial_function (option) list_tail_loop :: "(addr \<Rightarrow> addr option) \<Rightarrow> addr \<Rightarrow> addr option" where
  "list_tail_loop nx l = (case nx l of None \<Rightarrow> Some l | Some l' \<Rightarrow> list_tail_loop nx l')"

definition list_tail :: "list_state \<Rightarrow> addr option option" where
  "list_tail s =
     (case lst_head s of
        None \<Rightarrow> Some None
      | Some l \<Rightarrow> map_option Some (list_tail_loop (lst_next s) l))"

text \<open>
  The loop of \<^verbatim>\<open>list_remove\<close>: \<open>r\<close> is the element before \<open>l\<close>, or NULL at the head.
  The element found is unlinked first (\<open>list_unlink\<close>) and its own \<^verbatim>\<open>next\<close> is cleared after.
\<close>

definition list_unlink :: "list_state \<Rightarrow> addr option \<Rightarrow> addr \<Rightarrow> list_state" where
  "list_unlink s r l =
     (let s1 = (case r of
                  None \<Rightarrow> s\<lparr>lst_head := lst_next s l\<rparr>
                | Some p \<Rightarrow> s\<lparr>lst_next := (lst_next s)(p := lst_next s l)\<rparr>)
      in s1\<lparr>lst_next := (lst_next s1)(l := None)\<rparr>)"

partial_function (option) list_remove_loop ::
  "list_state \<Rightarrow> addr option \<Rightarrow> addr option \<Rightarrow> addr option \<Rightarrow> list_state option" where
  "list_remove_loop s item r lp =
     (if lp = None then Some s
      else if lp = item then Some (list_unlink s r (the lp))
      else list_remove_loop s item lp (lst_next s (the lp)))"

definition list_remove :: "list_state \<Rightarrow> addr option \<Rightarrow> list_state option" where
  "list_remove s item =
     (if lst_head s = None then Some s else list_remove_loop s item None (lst_head s))"

definition list_add :: "list_state \<Rightarrow> addr option \<Rightarrow> list_state option" where
  "list_add s item =
     (case list_remove s item of
        None \<Rightarrow> None
      | Some s1 \<Rightarrow>
         (case item of
            None \<Rightarrow> None
          | Some a \<Rightarrow>
              let s2 = s1\<lparr>lst_next := (lst_next s1)(a := None)\<rparr> in
              (case list_tail s2 of
                 None \<Rightarrow> None
               | Some None \<Rightarrow> Some (s2\<lparr>lst_head := Some a\<rparr>)
               | Some (Some l) \<Rightarrow> Some (s2\<lparr>lst_next := (lst_next s2)(l := Some a)\<rparr>))))"

definition list_push :: "list_state \<Rightarrow> addr option \<Rightarrow> list_state option" where
  "list_push s item =
     (case list_remove s item of
        None \<Rightarrow> None
      | Some s1 \<Rightarrow>
         (case item of
            None \<Rightarrow> None
          | Some a \<Rightarrow>
              Some (s1\<lparr>lst_next := (lst_next s1)(a := lst_head s1), lst_head := Some a\<rparr>)))"

text \<open>
  \<open>for(l = *list; l->next->next != NULL; l = l->next);\<close> starts at an element with a
  successor; the successor's pointer is read at every turn.
\<close>

partial_function (option) list_chop_loop :: "(addr \<Rightarrow> addr option) \<Rightarrow> addr \<Rightarrow> addr option" where
  "list_chop_loop nx l =
     (case nx l of
        None \<Rightarrow> None
      | Some l' \<Rightarrow> (case nx l' of None \<Rightarrow> Some l | Some _ \<Rightarrow> list_chop_loop nx l'))"

definition list_chop :: "list_state \<Rightarrow> (addr option \<times> list_state) option" where
  "list_chop s =
     (case lst_head s of
        None \<Rightarrow> Some (None, s)
      | Some h \<Rightarrow>
         (case lst_next s h of
            None \<Rightarrow> Some (Some h, s\<lparr>lst_head := None\<rparr>)
          | Some _ \<Rightarrow>
             (case list_chop_loop (lst_next s) h of
                None \<Rightarrow> None
              | Some l \<Rightarrow> Some (lst_next s l, s\<lparr>lst_next := (lst_next s)(l := None)\<rparr>))))"

definition list_pop :: "list_state \<Rightarrow> addr option \<times> list_state" where
  "list_pop s =
     (case lst_head s of
        None \<Rightarrow> (None, s)
      | Some l \<Rightarrow> (Some l, s\<lparr>lst_head := lst_next s l\<rparr>))"

partial_function (option) list_length_loop ::
  "(addr \<Rightarrow> addr option) \<Rightarrow> addr option \<Rightarrow> int \<Rightarrow> int option" where
  "list_length_loop nx lp n =
     (if lp = None then Some n else list_length_loop nx (nx (the lp)) (n + 1))"

definition list_length :: "list_state \<Rightarrow> int option" where
  "list_length s = list_length_loop (lst_next s) (lst_head s) 0"

definition list_insert ::
  "list_state \<Rightarrow> addr option \<Rightarrow> addr option \<Rightarrow> list_state option" where
  "list_insert s previtem newitem =
     (case previtem of
        None \<Rightarrow> list_push s newitem
      | Some p \<Rightarrow>
         (case list_remove s newitem of
            None \<Rightarrow> None
          | Some s1 \<Rightarrow>
             (case newitem of
                None \<Rightarrow> None
              | Some a \<Rightarrow>
                  let nx = (lst_next s1)(a := lst_next s1 p)
                  in Some (s1\<lparr>lst_next := nx(p := Some a)\<rparr>))))"

definition list_item_next :: "list_state \<Rightarrow> addr option \<Rightarrow> addr option" where
  "list_item_next s item = (case item of None \<Rightarrow> None | Some a \<Rightarrow> lst_next s a)"

partial_function (option) list_contains_loop ::
  "(addr \<Rightarrow> addr option) \<Rightarrow> addr option \<Rightarrow> addr option \<Rightarrow> bool option" where
  "list_contains_loop nx item lp =
     (if lp = None then Some False
      else if item = lp then Some True
      else list_contains_loop nx item (nx (the lp)))"

definition list_contains :: "list_state \<Rightarrow> addr option \<Rightarrow> bool option" where
  "list_contains s item = list_contains_loop (lst_next s) item (lst_head s)"

section \<open>The abstraction relation\<close>

fun chain :: "(addr \<Rightarrow> addr option) \<Rightarrow> addr option \<Rightarrow> addr list \<Rightarrow> bool" where
  "chain nx p [] = (p = None)"
| "chain nx p (a # as) = (p = Some a \<and> chain nx (nx a) as)"

definition list_repr :: "list_state \<Rightarrow> addr list \<Rightarrow> bool" where
  "list_repr s xs = chain (lst_next s) (lst_head s) xs"

text \<open>\<open>segm nx p xs q\<close>: a path from \<open>p\<close> through \<open>xs\<close> to the pointer \<open>q\<close>.\<close>

fun segm :: "(addr \<Rightarrow> addr option) \<Rightarrow> addr option \<Rightarrow> addr list \<Rightarrow> addr option \<Rightarrow> bool" where
  "segm nx p [] q = (p = q)"
| "segm nx p (a # as) q = (p = Some a \<and> segm nx (nx a) as q)"

lemma segm_append [simp]:
  "segm nx p (xs @ ys) q = (\<exists>m. segm nx p xs m \<and> segm nx m ys q)"
  by (induction xs arbitrary: p) auto

lemma chain_segm: "chain nx p xs = segm nx p xs None"
  by (induction xs arbitrary: p) auto

lemma segm_upd [simp]: "a \<notin> set xs \<Longrightarrow> segm (nx(a := v)) p xs q = segm nx p xs q"
  by (induction xs arbitrary: p) auto

lemma chain_upd [simp]: "a \<notin> set xs \<Longrightarrow> chain (nx(a := v)) p xs = chain nx p xs"
  by (simp add: chain_segm)

lemma chain_unique: "chain nx p xs \<Longrightarrow> chain nx p ys \<Longrightarrow> xs = ys"
proof (induction xs arbitrary: p ys)
  case Nil
  then show ?case by (cases ys) auto
next
  case (Cons x xs)
  then show ?case by (cases ys) auto
qed

lemma segm_to_Some: "segm nx p xs (Some y) \<Longrightarrow> \<exists>q. p = Some q"
  by (cases xs) auto

lemma chain_append:
  "chain nx p (xs @ ys) = (\<exists>m. segm nx p xs m \<and> chain nx m ys)"
  by (simp add: chain_segm)

text \<open>A terminated chain never visits an element twice: a repetition would be a cycle.\<close>

lemma chain_notin_tail: "chain nx (nx a) as \<Longrightarrow> a \<notin> set as"
proof
  assume c: "chain nx (nx a) as" and "a \<in> set as"
  then obtain us vs where as: "as = us @ a # vs" by (meson split_list)
  with c have "chain nx (nx a) vs" by (auto simp: chain_append)
  with c have "as = vs" by (rule chain_unique)
  with as show False by (simp add: append_eq_conv_conj)
qed

lemma chain_distinct: "chain nx p xs \<Longrightarrow> distinct xs"
  by (induction xs arbitrary: p) (auto dest: chain_notin_tail)

lemma list_repr_distinct: "list_repr s xs \<Longrightarrow> distinct xs"
  by (auto simp: list_repr_def dest: chain_distinct)

lemma list_repr_unique: "list_repr s xs \<Longrightarrow> list_repr s ys \<Longrightarrow> xs = ys"
  by (auto simp: list_repr_def dest: chain_unique)

section \<open>The traversals return on a represented list\<close>

lemma list_tail_loop_chain:
  "chain nx (Some l) xs \<Longrightarrow> list_tail_loop nx l = Some (last xs)"
proof (induction xs arbitrary: l)
  case (Cons x xs)
  then have c: "chain nx (nx l) xs" and l: "l = x" by auto
  show ?case
  proof (cases xs)
    case Nil
    with c l show ?thesis by (simp add: list_tail_loop.simps)
  next
    case (Cons y ys)
    with c have "nx l = Some y" by simp
    with c Cons.IH [of y] l Cons show ?thesis by (simp add: list_tail_loop.simps)
  qed
qed simp

lemma list_tail_repr:
  assumes "list_repr s xs"
  shows "list_tail s = Some (if xs = [] then None else Some (last xs))"
proof (cases "lst_head s")
  case (Some l)
  with assms have "chain (lst_next s) (Some l) xs" by (simp add: list_repr_def)
  moreover from this have "xs \<noteq> []" by (cases xs) auto
  ultimately show ?thesis using Some by (simp add: list_tail_def list_tail_loop_chain)
next
  case None
  with assms have "xs = []" by (cases xs) (auto simp: list_repr_def)
  with None show ?thesis by (simp add: list_tail_def)
qed

lemma list_length_loop_chain:
  "chain nx p xs \<Longrightarrow> list_length_loop nx p n = Some (n + int (length xs))"
  by (induction xs arbitrary: p n) (auto simp: list_length_loop.simps)

lemma list_contains_loop_chain:
  "chain nx p xs \<Longrightarrow> list_contains_loop nx item p = Some (\<exists>a \<in> set xs. item = Some a)"
  by (induction xs arbitrary: p) (auto simp: list_contains_loop.simps)

lemma list_length_repr: "list_repr s xs \<Longrightarrow> list_length s = Some (int (length xs))"
  by (simp add: list_repr_def list_length_def list_length_loop_chain)

lemma list_contains_repr:
  "list_repr s xs \<Longrightarrow> list_contains s item = Some (\<exists>a \<in> set xs. item = Some a)"
  by (simp add: list_repr_def list_contains_def list_contains_loop_chain)

lemma list_head_repr:
  "list_repr s xs \<Longrightarrow> list_head s = (case xs of [] \<Rightarrow> None | a # _ \<Rightarrow> Some a)"
  by (cases xs) (auto simp: list_repr_def list_head_def)

lemma list_item_next_repr:
  "list_repr s (us @ a # vs) \<Longrightarrow>
     list_item_next s (Some a) = (case vs of [] \<Rightarrow> None | b # _ \<Rightarrow> Some b)"
  by (cases vs) (auto simp: list_repr_def list_item_next_def chain_append)

section \<open>Functional behaviour of the updates\<close>

lemma list_unlink_repr:
  assumes "segm (lst_next s) (lst_head s) us (Some x)"
    and "chain (lst_next s) (lst_next s x) vs" and "distinct (us @ x # vs)"
  shows "list_repr (list_unlink s (if us = [] then None else Some (last us)) x) (us @ vs)"
proof (cases us rule: rev_cases)
  case Nil
  with assms show ?thesis by (simp add: list_unlink_def list_repr_def)
next
  case (snoc us' p)
  with assms show ?thesis
    by (auto simp: list_unlink_def list_repr_def chain_append Let_def fun_upd_twist)
qed

lemma list_remove_loop_repr:
  assumes "segm (lst_next s) (lst_head s) us lp" and "chain (lst_next s) lp vs"
    and "distinct (us @ vs)"
  shows "\<exists>s'. list_remove_loop s item (if us = [] then None else Some (last us)) lp = Some s'
     \<and> list_repr s' (us @ (case item of None \<Rightarrow> vs | Some a \<Rightarrow> seq_remove a vs))"
  using assms
proof (induction vs arbitrary: us lp)
  case Nil
  then show ?case
    by (auto simp: list_remove_loop.simps list_repr_def chain_segm split: option.splits)
next
  case (Cons x vs)
  then have lp: "lp = Some x" and c: "chain (lst_next s) (lst_next s x) vs" by auto
  show ?case
  proof (cases "item = Some x")
    case True
    have "x \<notin> set vs" using Cons.prems(3) by simp
    with True lp show ?thesis
      using list_unlink_repr [of s us x vs] Cons.prems c
      by (simp add: list_remove_loop.simps)
  next
    case False
    have "segm (lst_next s) (lst_head s) (us @ [x]) (lst_next s x)"
      using Cons.prems(1) lp by auto
    then have "\<exists>s'. list_remove_loop s item (Some x) (lst_next s x) = Some s' \<and>
        list_repr s' ((us @ [x]) @ (case item of None \<Rightarrow> vs | Some a \<Rightarrow> seq_remove a vs))"
      using Cons.IH [of "us @ [x]"] c Cons.prems(3) by auto
    with lp False show ?thesis
      by (auto simp: list_remove_loop.simps [of s item _ "Some x"] split: option.splits)
  qed
qed

lemma list_remove_repr:
  assumes "list_repr s xs"
  shows "\<exists>s'. list_remove s item = Some s' \<and>
     list_repr s' (case item of None \<Rightarrow> xs | Some a \<Rightarrow> seq_remove a xs)"
proof (cases "lst_head s")
  case None
  with assms have "xs = []" by (cases xs) (auto simp: list_repr_def)
  with None assms show ?thesis by (auto simp: list_remove_def split: option.splits)
next
  case (Some l)
  with assms show ?thesis
    using list_remove_loop_repr [of s "[]" "lst_head s" xs item] list_repr_distinct [OF assms]
    by (simp add: list_remove_def list_repr_def)
qed

lemma list_remove_Some_repr:
  "list_repr s xs \<Longrightarrow> \<exists>s'. list_remove s (Some a) = Some s' \<and> list_repr s' (seq_remove a xs)"
  using list_remove_repr [of s xs "Some a"] by simp

lemma list_add_repr:
  assumes "list_repr s xs"
  shows "\<exists>s'. list_add s (Some a) = Some s' \<and> list_repr s' (seq_add a xs)"
proof -
  let ?ys = "seq_remove a xs"
  obtain s1 where s1: "list_remove s (Some a) = Some s1" "list_repr s1 ?ys"
    using list_remove_Some_repr [OF assms] by blast
  let ?s2 = "s1\<lparr>lst_next := (lst_next s1)(a := None)\<rparr>"
  have r2: "list_repr ?s2 ?ys" using s1(2) by (simp add: list_repr_def)
  show ?thesis
  proof (cases ?ys rule: rev_cases)
    case Nil
    with s1 r2 list_tail_repr [OF r2] show ?thesis
      by (simp add: list_add_def seq_add_def list_repr_def)
  next
    case (snoc zs z)
    have "a \<notin> set ?ys" by simp
    then have "z \<noteq> a" "a \<notin> set zs" "z \<notin> set zs"
      using list_repr_distinct [OF s1(2)] unfolding snoc by auto
    with snoc s1 r2 list_tail_repr [OF r2] show ?thesis
      by (auto simp: list_add_def seq_add_def list_repr_def chain_append)
  qed
qed

lemma list_push_repr:
  assumes "list_repr s xs"
  shows "\<exists>s'. list_push s (Some a) = Some s' \<and> list_repr s' (seq_push a xs)"
  using list_remove_Some_repr [OF assms, of a]
  by (auto simp: list_push_def seq_push_def list_repr_def)

lemma list_pop_repr:
  "list_repr s xs \<Longrightarrow>
     list_repr (snd (list_pop s)) (tl xs) \<and>
     fst (list_pop s) = (if xs = [] then None else Some (hd xs))"
  by (cases xs) (auto simp: list_pop_def list_repr_def)

lemma list_chop_loop_chain:
  "chain nx (Some l) (xs @ [y, z]) \<Longrightarrow> list_chop_loop nx l = Some y"
proof (induction xs arbitrary: l)
  case Nil
  then show ?case by (simp add: list_chop_loop.simps)
next
  case (Cons x xs)
  then have c: "chain nx (nx l) (xs @ [y, z])" by simp
  then obtain l' where l': "nx l = Some l'" by (cases xs) auto
  with c have "nx l' \<noteq> None"
    by (cases xs) (auto simp: chain_append dest: segm_to_Some)
  with Cons.IH [of l'] c l' show ?case
    by (auto simp: list_chop_loop.simps [of nx l])
qed

lemma list_chop_repr:
  assumes "list_repr s xs"
  shows "\<exists>s'. list_chop s = Some (if xs = [] then None else Some (last xs), s') \<and>
     list_repr s' (butlast xs)"
proof (cases xs rule: rev_cases)
  case Nil
  with assms show ?thesis by (simp add: list_chop_def list_repr_def)
next
  case (snoc ys z)
  show ?thesis
  proof (cases ys rule: rev_cases)
    case Nil
    with assms snoc show ?thesis by (simp add: list_chop_def list_repr_def)
  next
    case (snoc zs y)
    with \<open>xs = ys @ [z]\<close> have xs: "xs = zs @ [y, z]" by simp
    obtain h where h: "lst_head s = Some h" using assms xs by (cases zs) (auto simp: list_repr_def)
    have "lst_next s h \<noteq> None" using assms xs h 
      by (cases zs) (auto simp: list_repr_def chain_append dest: segm_to_Some)
    moreover have "list_chop_loop (lst_next s) h = Some y"
      using assms xs h list_chop_loop_chain by (simp add: list_repr_def)
    moreover have "y \<notin> set zs" using list_repr_distinct [OF assms] xs by simp
    ultimately show ?thesis
      using assms xs h by (auto simp: list_chop_def list_repr_def chain_append butlast_append split: option.splits)
  qed
qed

lemma list_insert_repr:
  assumes "list_repr s (us @ p # vs)" and "a \<notin> set (us @ p # vs)"
  shows "\<exists>s'. list_insert s (Some p) (Some a) = Some s' \<and> list_repr s' (us @ p # a # vs)"
proof -
  obtain s1 where "list_remove s (Some a) = Some s1" "list_repr s1 (us @ p # vs)"
    using list_remove_Some_repr [OF assms(1), of a] assms(2) by auto
  moreover have "p \<notin> set us" "p \<notin> set vs" using list_repr_distinct [OF assms(1)] by auto
  ultimately show ?thesis using assms(2)
    by (auto simp: list_insert_def list_repr_def chain_append fun_upd_twist)
qed

lemma list_init_repr [simp]: "list_repr (list_init s) []"
  by (simp add: list_init_def list_repr_def)

section \<open>The interface of the lists\<close>

text \<open>
  What a client of the lists relies on. \<open>seq s xs\<close> says that the list variable and the
  memory in \<open>s\<close> represent the sequence \<open>xs\<close>; every operation returns and does to the
  sequence what its name says.
\<close>

datatype list_cmd = Cmd_add addr | Cmd_push addr | Cmd_remove addr | Cmd_pop | Cmd_chop

fun seq_exec :: "list_cmd \<Rightarrow> addr list \<Rightarrow> addr list" where
  "seq_exec (Cmd_add a) xs = seq_add a xs"
| "seq_exec (Cmd_push a) xs = seq_push a xs"
| "seq_exec (Cmd_remove a) xs = seq_remove a xs"
| "seq_exec Cmd_pop xs = tl xs"
| "seq_exec Cmd_chop xs = butlast xs"

text \<open>Any client program over a list, given the list operations: a sequence of commands.\<close>

fun run_cmds ::
  "('s \<Rightarrow> addr option \<Rightarrow> 's option) \<Rightarrow> ('s \<Rightarrow> addr option \<Rightarrow> 's option) \<Rightarrow>
   ('s \<Rightarrow> addr option \<Rightarrow> 's option) \<Rightarrow> ('s \<Rightarrow> addr option \<times> 's) \<Rightarrow>
   ('s \<Rightarrow> (addr option \<times> 's) option) \<Rightarrow> list_cmd list \<Rightarrow> 's \<Rightarrow> 's option" where
  "run_cmds add push remove pop chop [] s = Some s"
| "run_cmds add push remove pop chop (c # cs) s =
     Option.bind
       (case c of
          Cmd_add a \<Rightarrow> add s (Some a)
        | Cmd_push a \<Rightarrow> push s (Some a)
        | Cmd_remove a \<Rightarrow> remove s (Some a)
        | Cmd_pop \<Rightarrow> Some (snd (pop s))
        | Cmd_chop \<Rightarrow> map_option snd (chop s))
       (run_cmds add push remove pop chop cs)"

locale linked_seq =
  fixes repr :: "'s \<Rightarrow> addr list \<Rightarrow> bool"
    and add push remove :: "'s \<Rightarrow> addr option \<Rightarrow> 's option"
    and pop :: "'s \<Rightarrow> addr option \<times> 's"
    and chop :: "'s \<Rightarrow> (addr option \<times> 's) option"
  assumes repr_distinct: "repr s xs \<Longrightarrow> distinct xs"
    and repr_unique: "repr s xs \<Longrightarrow> repr s ys \<Longrightarrow> xs = ys"
    and add_repr: "repr s xs \<Longrightarrow> \<exists>s'. add s (Some a) = Some s' \<and> repr s' (seq_add a xs)"
    and push_repr: "repr s xs \<Longrightarrow> \<exists>s'. push s (Some a) = Some s' \<and> repr s' (seq_push a xs)"
    and remove_repr:
      "repr s xs \<Longrightarrow> \<exists>s'. remove s (Some a) = Some s' \<and> repr s' (seq_remove a xs)"
    and pop_repr: "repr s xs \<Longrightarrow> repr (snd (pop s)) (tl xs) \<and>
      fst (pop s) = (if xs = [] then None else Some (hd xs))"
    and chop_repr: "repr s xs \<Longrightarrow>
      \<exists>s'. chop s = Some (if xs = [] then None else Some (last xs), s') \<and> repr s' (butlast xs)"
begin

lemma step_repr:
  assumes r: "repr s xs"
  shows "\<exists>s1. (case c of
          Cmd_add a \<Rightarrow> add s (Some a)
        | Cmd_push a \<Rightarrow> push s (Some a)
        | Cmd_remove a \<Rightarrow> remove s (Some a)
        | Cmd_pop \<Rightarrow> Some (snd (pop s))
        | Cmd_chop \<Rightarrow> map_option snd (chop s)) = Some s1 \<and> repr s1 (seq_exec c xs)"
proof (cases c)
  case (Cmd_add a)
  then show ?thesis using add_repr [OF r, of a] by simp
next
  case (Cmd_push a)
  then show ?thesis using push_repr [OF r, of a] by simp
next
  case (Cmd_remove a)
  then show ?thesis using remove_repr [OF r, of a] by simp
next
  case Cmd_pop
  then show ?thesis using pop_repr [OF r] by simp
next
  case Cmd_chop
  then show ?thesis using chop_repr [OF r] by auto
qed

lemma run_repr:
  "repr s xs \<Longrightarrow>
     \<exists>s'. run_cmds add push remove pop chop cs s = Some s' \<and> repr s' (fold seq_exec cs xs)"
proof (induction cs arbitrary: s xs)
  case (Cons c cs)
  from step_repr [OF Cons.prems, of c] Cons.IH show ?case by force
qed simp

text \<open>A client that adds an element finds it last, whatever the list held before.\<close>

lemma add_then_chop:
  assumes "repr s xs"
  shows "\<exists>s1 s2. add s (Some a) = Some s1 \<and> chop s1 = Some (Some a, s2) \<and>
    repr s2 (seq_remove a xs)"
proof -
  obtain s1 where s1: "add s (Some a) = Some s1" "repr s1 (seq_add a xs)"
    using add_repr [OF assms] by blast
  with chop_repr [OF s1(2)] show ?thesis by (auto simp: seq_add_def)
qed

end

interpretation llist: linked_seq list_repr list_add list_push list_remove list_pop list_chop
  by unfold_locales
    (erule list_repr_distinct list_add_repr list_push_repr list_remove_Some_repr list_pop_repr
      list_chop_repr | erule (1) list_repr_unique)+

section \<open>Properties\<close>

text \<open>
  (C1) Every program over a list variable that starts with \<open>list_init\<close> returns: no traversal
  of \<^verbatim>\<open>os/lib/list.c\<close> runs into a cycle or a NULL dereference. It leaves a
  NULL-terminated chain without repetitions whose sequence is the one computed by the abstract
  sequence operations, and \<open>list_length\<close>, \<open>list_head\<close>, \<open>list_tail\<close> and \<open>list_contains\<close> read
  that sequence. \<open>list_tail\<close> returns its last element; the comment above it in \<^verbatim>\<open>list.c\<close> says the element
  after the first, which is not what the code does.
\<close>

theorem list_programs_correct:
  "\<exists>s'. run_cmds list_add list_push list_remove list_pop list_chop cs (list_init s) = Some s' \<and>
     list_repr s' (fold seq_exec cs []) \<and> distinct (fold seq_exec cs []) \<and>
     list_length s' = Some (int (length (fold seq_exec cs []))) \<and>
     list_head s' = (case fold seq_exec cs [] of [] \<Rightarrow> None | a # _ \<Rightarrow> Some a) \<and>
     list_tail s' = Some (if fold seq_exec cs [] = [] then None
                          else Some (last (fold seq_exec cs []))) \<and>
     (\<forall>a. list_contains s' (Some a) = Some (a \<in> set (fold seq_exec cs [])))"
proof -
  obtain s' where "run_cmds list_add list_push list_remove list_pop list_chop cs (list_init s) = Some s'"
    and r: "list_repr s' (fold seq_exec cs [])"
    using llist.run_repr [OF list_init_repr] by blast
  then show ?thesis
    using list_length_repr [OF r] list_head_repr [OF r] list_tail_repr [OF r]
      list_contains_repr [OF r] list_repr_distinct [OF r] by auto
qed

text \<open>
  (C2) \<open>list_insert\<close> puts a new element right behind the given predecessor, wherever that
  stands in the list, and returns.
\<close>

theorem list_insert_after:
  assumes "list_repr s (us @ p # vs)" and "a \<notin> set (us @ p # vs)"
  shows "\<exists>s'. list_insert s (Some p) (Some a) = Some s' \<and> list_repr s' (us @ p # a # vs)"
  using assms by (rule list_insert_repr)

theorem list_insert_after_witness:
  "\<exists>s'. list_insert \<lparr>lst_head = Some 3, lst_next = (\<lambda>_. None)(3 := Some 5)\<rparr> (Some 3) (Some 4) = Some s'
     \<and> list_repr s' [3, 4, 5]"
  using list_insert_after [of "\<lparr>lst_head = Some 3, lst_next = (\<lambda>_. None)(3 := Some 5)\<rparr>" "[]" 3 "[5]" 4]
  by (simp add: list_repr_def)

end
