(* ===== verification/Lib_Ringbuf.thy ===== *)
theory Lib_Ringbuf
  imports Prelude
begin

text \<open>
  The ring buffers of \<^verbatim>\<open>os/lib/ringbufindex.c\<close> (indices only, the array belongs to the
  client) and \<^verbatim>\<open>os/lib/ringbuf.c\<close> (bytes). The pointers are \<^verbatim>\<open>uint8_t\<close>; C computes
  \<^verbatim>\<open>(put_ptr - get_ptr) & mask\<close> in \<^verbatim>\<open>int\<close>, and since the mask keeps at most the low
  eight bits the model computes it on bytes. Results of type \<^verbatim>\<open>int\<close> are \<open>int\<close>, with
  \<open>-1\<close> for failure.

  \<open>rb_idx\<close> is the abstraction: the array positions in use, oldest first. The locale
  \<open>index_fifo\<close> is what the queues built on an index ring rely on, among them the neighbour
  queues of \<^verbatim>\<open>tsch-queue.c\<close>.
\<close>

section \<open>ringbufindex.c\<close>

record ringbufindex =
  rb_mask :: u8
  rb_put :: u8
  rb_get :: u8

definition ringbufindex_shift_get_ptr :: "ringbufindex \<Rightarrow> int \<Rightarrow> int \<times> ringbufindex" where
  "ringbufindex_shift_get_ptr r shift =
     (let g = (rb_get r + word_of_int shift) AND rb_mask r
      in (uint g, r\<lparr>rb_get := g\<rparr>))"

definition ringbufindex_init :: "ringbufindex \<Rightarrow> u8 \<Rightarrow> ringbufindex" where
  "ringbufindex_init r sz = r\<lparr>rb_mask := sz - 1, rb_put := 0, rb_get := 0\<rparr>"

definition ringbufindex_put :: "ringbufindex \<Rightarrow> int \<times> ringbufindex" where
  "ringbufindex_put r =
     (if (rb_put r - rb_get r) AND rb_mask r = rb_mask r then (0, r)
      else (1, r\<lparr>rb_put := (rb_put r + 1) AND rb_mask r\<rparr>))"

definition ringbufindex_peek_put :: "ringbufindex \<Rightarrow> int" where
  "ringbufindex_peek_put r =
     (if (rb_put r - rb_get r) AND rb_mask r = rb_mask r then -1 else uint (rb_put r))"

definition ringbufindex_get :: "ringbufindex \<Rightarrow> int \<times> ringbufindex" where
  "ringbufindex_get r =
     (if (rb_put r - rb_get r) AND rb_mask r > 0
      then (uint (rb_get r), r\<lparr>rb_get := (rb_get r + 1) AND rb_mask r\<rparr>)
      else (-1, r))"

definition ringbufindex_peek_get :: "ringbufindex \<Rightarrow> int" where
  "ringbufindex_peek_get r =
     (if (rb_put r - rb_get r) AND rb_mask r > 0 then uint (rb_get r) else -1)"

definition ringbufindex_size :: "ringbufindex \<Rightarrow> int" where
  "ringbufindex_size r = uint (rb_mask r) + 1"

definition ringbufindex_elements :: "ringbufindex \<Rightarrow> int" where
  "ringbufindex_elements r = uint ((rb_put r - rb_get r) AND rb_mask r)"

definition ringbufindex_full :: "ringbufindex \<Rightarrow> int" where
  "ringbufindex_full r = int_of_bool ((rb_put r - rb_get r) AND rb_mask r = rb_mask r)"

definition ringbufindex_empty :: "ringbufindex \<Rightarrow> int" where
  "ringbufindex_empty r = int_of_bool (ringbufindex_elements r = 0)"

section \<open>Well-formed rings and their contents\<close>

text \<open>The size is a power of two (the mask has all its low bits set), both pointers are in range.\<close>

definition rb_wf :: "ringbufindex \<Rightarrow> bool" where
  "rb_wf r \<longleftrightarrow> (\<exists>k \<le> 8. rb_mask r = mask k) \<and>
     unat (rb_put r) \<le> unat (rb_mask r) \<and> unat (rb_get r) \<le> unat (rb_mask r)"

definition rb_cap :: "ringbufindex \<Rightarrow> nat" where
  "rb_cap r = unat (rb_mask r)"

definition rb_count :: "ringbufindex \<Rightarrow> nat" where
  "rb_count r = (unat (rb_put r) + Suc (rb_cap r) - unat (rb_get r)) mod Suc (rb_cap r)"

definition rb_idx :: "ringbufindex \<Rightarrow> nat list" where
  "rb_idx r = map (\<lambda>i. (unat (rb_get r) + i) mod Suc (rb_cap r)) [0..<rb_count r]"

lemma rb_cap_upd [simp]:
  "rb_cap (r\<lparr>rb_put := x\<rparr>) = rb_cap r" "rb_cap (r\<lparr>rb_get := x\<rparr>) = rb_cap r"
  by (simp_all add: rb_cap_def)

lemma rb_wf_cases:
  assumes "rb_wf r"
  obtains k where "k \<le> 8" "rb_mask r = mask k" "Suc (rb_cap r) = 2 ^ k"
    "unat (rb_put r) < 2 ^ k" "unat (rb_get r) < 2 ^ k" "2 ^ k dvd (256 :: nat)"
proof -
  from assms obtain k where k: "k \<le> 8" "rb_mask r = mask k" by (auto simp: rb_wf_def)
  have "unat (mask k :: u8) = 2 ^ k - 1" using k(1) by (simp add: unat_mask_le)
  then have "unat (rb_mask r) = 2 ^ k - 1" using k(2) by simp
  moreover have "unat (rb_put r) \<le> unat (rb_mask r)" "unat (rb_get r) \<le> unat (rb_mask r)"
    using assms by (simp_all add: rb_wf_def)
  moreover have "0 < (2 :: nat) ^ k" by simp
  ultimately have "Suc (rb_cap r) = 2 ^ k" "unat (rb_put r) < 2 ^ k" "unat (rb_get r) < 2 ^ k"
    unfolding rb_cap_def by linarith+
  moreover have "2 ^ k dvd (256 :: nat)" using le_imp_power_dvd [OF k(1), of "2 :: nat"] by simp
  ultimately show thesis using k that by blast
qed

lemma unat_and_rb_mask:
  assumes "rb_wf r"
  shows "unat (x AND rb_mask r) = unat x mod Suc (rb_cap r)"
proof -
  obtain k where "k \<le> 8" "rb_mask r = mask k" "Suc (rb_cap r) = 2 ^ k"
    using assms by (rule rb_wf_cases)
  then show ?thesis by (simp add: unat_and_mask)
qed

lemma mod_cap_256:
  assumes "rb_wf r"
  shows "n mod 256 mod Suc (rb_cap r) = n mod Suc (rb_cap r)"
proof -
  obtain k where "Suc (rb_cap r) = 2 ^ k" "2 ^ k dvd (256 :: nat)"
    using assms by (rule rb_wf_cases)
  then show ?thesis by (simp add: mod_mod_cancel)
qed

lemma unat_rb_diff:
  assumes "rb_wf r"
  shows "unat ((rb_put r - rb_get r) AND rb_mask r) = rb_count r"
proof -
  obtain k where k: "Suc (rb_cap r) = 2 ^ k" "unat (rb_get r) < 2 ^ k" "2 ^ k dvd (256 :: nat)"
    using assms by (rule rb_wf_cases)
  let ?p = "unat (rb_put r)" and ?g = "unat (rb_get r)"
  from k(3) obtain q where q: "(256 :: nat) = 2 ^ k * q" by (rule dvdE)
  then have "q \<noteq> 0" by (metis mult_0_right zero_neq_numeral)
  then have "?p + 256 - ?g = (?p + 2 ^ k - ?g) + 2 ^ k * (q - 1)"
    using k(2) q by (cases q) auto
  then have "(?p + 256 - ?g) mod 2 ^ k = (?p + 2 ^ k - ?g) mod 2 ^ k" by simp
  then show ?thesis
    using unat_and_rb_mask [OF assms] mod_cap_256 [OF assms] k(1)
    by (simp add: c_arith rb_count_def)
qed

lemma unat_rb_incr:
  assumes "rb_wf r"
  shows "unat ((x + 1) AND rb_mask r) = Suc (unat x) mod Suc (rb_cap r)"
  using unat_and_rb_mask [OF assms] mod_cap_256 [OF assms]
  by (simp add: unat_add_mod)

lemma rb_count_le: "rb_count r \<le> rb_cap r"
  using mod_less_divisor [of "Suc (rb_cap r)"] by (simp add: rb_count_def less_Suc_eq_le)

lemma length_rb_idx [simp]: "length (rb_idx r) = rb_count r"
  by (simp add: rb_idx_def)

lemma rb_idx_less: "i \<in> set (rb_idx r) \<Longrightarrow> i \<le> rb_cap r"
  using mod_less_divisor [of "Suc (rb_cap r)"] by (auto simp: rb_idx_def less_Suc_eq_le)

lemma mod_add_inj:
  fixes m :: nat
  assumes "x < m" "y < m" "(g + x) mod m = (g + y) mod m"
  shows "x = y"
proof -
  have aux: "a = b" if "a \<le> b" "b < m" "(g + a) mod m = (g + b) mod m" for a b
  proof -
    have "m dvd (g + b) - (g + a)"
      using that by (subst mod_eq_dvd_iff_nat [symmetric]) simp_all
    with that show ?thesis by (auto dest!: dvd_imp_le)
  qed
  show ?thesis using aux [of x y] aux [of y x] assms by (cases "x \<le> y") auto
qed

lemma distinct_rb_idx: "distinct (rb_idx r)"
proof -
  have "inj_on (\<lambda>i. (unat (rb_get r) + i) mod Suc (rb_cap r)) {0..<rb_count r}"
    using rb_count_le [of r] by (auto intro!: inj_onI elim: mod_add_inj [rotated 2])
  then show ?thesis by (simp add: rb_idx_def distinct_map)
qed

lemma rb_full_iff:
  "rb_wf r \<Longrightarrow> ((rb_put r - rb_get r) AND rb_mask r = rb_mask r) = (rb_count r = rb_cap r)"
  by (simp add: word_unat_eq_iff unat_rb_diff rb_cap_def)

lemma rb_nonempty_iff:
  "rb_wf r \<Longrightarrow> ((rb_put r - rb_get r) AND rb_mask r > 0) = (rb_count r > 0)"
  by (simp add: word_less_nat_alt unat_rb_diff)

lemma mod_pred_cases:
  "(p :: nat) < m \<Longrightarrow> g < m \<Longrightarrow> (p + m - g) mod m = (if g \<le> p then p - g else p + m - g)"
  by (auto simp: mod_if)

lemma Suc_mod_cases: "(p :: nat) < m \<Longrightarrow> Suc p mod m = (if Suc p = m then 0 else Suc p)"
  by (simp add: Suc_lessI)

lemma count_put_nat:
  fixes p g m :: nat
  assumes "p < m" "g < m" "(p + m - g) mod m < m - 1"
  shows "(Suc p mod m + m - g) mod m = Suc ((p + m - g) mod m)"
proof -
  have "Suc p mod m < m" using assms(1) by simp
  then show ?thesis
    unfolding mod_pred_cases [OF \<open>Suc p mod m < m\<close> assms(2)]
    using assms(3) unfolding mod_pred_cases [OF assms(1,2)] Suc_mod_cases [OF assms(1)]
    using assms(1,2) by (auto split: if_splits)
qed

lemma count_get_nat:
  fixes p g m :: nat
  assumes "p < m" "g < m" "0 < (p + m - g) mod m"
  shows "(p + m - g) mod m = Suc ((p + m - Suc g mod m) mod m)"
proof -
  have "Suc g mod m < m" using assms(2) by simp
  then show ?thesis
    unfolding mod_pred_cases [OF assms(1) \<open>Suc g mod m < m\<close>]
    using assms(3) unfolding mod_pred_cases [OF assms(1,2)] Suc_mod_cases [OF assms(2)]
    using assms(1,2) by (auto split: if_splits)
qed

lemma add_count_nat:
  fixes p g m :: nat
  assumes "p < m" "g < m"
  shows "(g + (p + m - g) mod m) mod m = p"
proof -
  have "(g + (p + m - g) mod m) mod m = (g + (p + m - g)) mod m" by (simp add: mod_add_right_eq)
  also have "\<dots> = p" using assms by simp
  finally show ?thesis .
qed

lemma rb_put_step:
  assumes wf: "rb_wf r" and room: "rb_count r < rb_cap r"
  defines "r' \<equiv> r\<lparr>rb_put := (rb_put r + 1) AND rb_mask r\<rparr>"
  shows "rb_wf r'" and "rb_cap r' = rb_cap r" and "rb_idx r' = rb_idx r @ [unat (rb_put r)]"
proof -
  obtain k where k: "k \<le> 8" "rb_mask r = mask k" "Suc (rb_cap r) = 2 ^ k"
    "unat (rb_put r) < 2 ^ k" "unat (rb_get r) < 2 ^ k"
    using wf by (rule rb_wf_cases)
  let ?m = "Suc (rb_cap r)" and ?p = "unat (rb_put r)" and ?g = "unat (rb_get r)"
  have p': "unat ((rb_put r + 1) AND rb_mask r) = Suc ?p mod ?m"
    using wf by (rule unat_rb_incr)
  show cap: "rb_cap r' = rb_cap r" by (simp add: r'_def)
  show "rb_wf r'"
    using wf p' mod_less_divisor [of ?m "Suc ?p"]
    by (auto simp: rb_wf_def r'_def rb_cap_def less_Suc_eq_le)
  have lt: "?p < ?m" "?g < ?m" using k by simp_all
  have count: "rb_count r' = Suc (rb_count r)"
    using count_put_nat [OF lt] room p' by (simp add: rb_count_def r'_def)
  have "(?g + rb_count r) mod ?m = ?p"
    using add_count_nat [OF lt] by (simp add: rb_count_def)
  then show "rb_idx r' = rb_idx r @ [?p]"
    by (simp add: rb_idx_def count cap) (simp add: r'_def)
qed

lemma rb_get_step:
  assumes wf: "rb_wf r" and some: "rb_count r > 0"
  defines "r' \<equiv> r\<lparr>rb_get := (rb_get r + 1) AND rb_mask r\<rparr>"
  shows "rb_wf r'" and "rb_cap r' = rb_cap r" and "rb_idx r = unat (rb_get r) # rb_idx r'"
proof -
  obtain k where k: "Suc (rb_cap r) = 2 ^ k" "unat (rb_put r) < 2 ^ k" "unat (rb_get r) < 2 ^ k"
    using wf by (rule rb_wf_cases)
  let ?m = "Suc (rb_cap r)" and ?p = "unat (rb_put r)" and ?g = "unat (rb_get r)"
  have g': "unat ((rb_get r + 1) AND rb_mask r) = Suc ?g mod ?m"
    using wf by (rule unat_rb_incr)
  show cap: "rb_cap r' = rb_cap r" by (simp add: r'_def)
  show "rb_wf r'"
    using wf g' mod_less_divisor [of ?m "Suc ?g"]
    by (auto simp: rb_wf_def r'_def rb_cap_def less_Suc_eq_le)
  have lt: "?p < ?m" "?g < ?m" using k by simp_all
  have count: "rb_count r = Suc (rb_count r')"
    using count_get_nat [OF lt] some g' by (simp add: rb_count_def r'_def)
  have "(?g + Suc i) mod ?m = (Suc ?g mod ?m + i) mod ?m" for i
    by (simp add: mod_add_left_eq)
  then show "rb_idx r = ?g # rb_idx r'"
    using lt by (simp add: rb_idx_def count cap upt_conv_Cons map_Suc_upt [symmetric] del: upt_Suc)
      (simp add: r'_def g' comp_def)
qed

text \<open>Shifting the get pointer discards that many of the oldest positions.\<close>

lemma rb_shift_word:
  assumes "rb_wf r"
  shows "(rb_get r + word_of_int (int (Suc n))) AND rb_mask r =
    (((rb_get r + 1) AND rb_mask r) + word_of_int (int n)) AND rb_mask r"
proof -
  let ?m = "Suc (rb_cap r)" and ?g = "unat (rb_get r)"
  have n: "unat (word_of_int (int k) :: u8) = k mod 256" for k by (simp add: unat_of_nat)
  have "unat ((rb_get r + word_of_int (int (Suc n))) AND rb_mask r) = (?g + Suc n mod 256) mod ?m"
    using unat_and_rb_mask [OF assms] mod_cap_256 [OF assms] n by (simp add: unat_add_mod del: of_nat_Suc)
  also have "\<dots> = (?g + Suc n) mod ?m"
    by (metis mod_add_right_eq mod_cap_256 [OF assms])
  also have "\<dots> = ((Suc ?g) mod ?m + n) mod ?m" by (simp add: mod_add_left_eq)
  also have "\<dots> = (Suc ?g mod ?m + n mod 256) mod ?m"
    by (metis mod_add_right_eq mod_cap_256 [OF assms])
  also have "\<dots> = unat ((((rb_get r + 1) AND rb_mask r) + word_of_int (int n)) AND rb_mask r)"
    using unat_and_rb_mask [OF assms] mod_cap_256 [OF assms] n unat_rb_incr [OF assms]
    by (simp add: unat_add_mod)
  finally show ?thesis by (simp only: word_unat_eq_iff)
qed

lemma rb_shift_step:
  assumes "rb_wf r" and "n \<le> rb_count r"
  shows "rb_wf (snd (ringbufindex_shift_get_ptr r (int n))) \<and>
    rb_cap (snd (ringbufindex_shift_get_ptr r (int n))) = rb_cap r \<and>
    rb_idx (snd (ringbufindex_shift_get_ptr r (int n))) = drop n (rb_idx r) \<and>
    snd (ringbufindex_shift_get_ptr r (int n)) = ((\<lambda>q. snd (ringbufindex_get q)) ^^ n) r"
  using assms
proof (induction n arbitrary: r)
  case 0
  obtain k where "Suc (rb_cap r) = 2 ^ k" "unat (rb_get r) < 2 ^ k"
    using 0(1) by (rule rb_wf_cases)
  then have "unat (rb_get r AND rb_mask r) = unat (rb_get r)"
    by (simp add: unat_and_rb_mask [OF 0(1)])
  then have "rb_get r AND rb_mask r = rb_get r" by (simp only: word_unat_eq_iff)
  then show ?case using 0 by (simp add: ringbufindex_shift_get_ptr_def)
next
  case (Suc n)
  let ?r1 = "r\<lparr>rb_get := (rb_get r + 1) AND rb_mask r\<rparr>"
  have r1: "rb_wf ?r1" "rb_idx r = unat (rb_get r) # rb_idx ?r1"
    using rb_get_step [OF Suc.prems(1)] Suc.prems(2) by auto
  have le: "n \<le> rb_count ?r1"
    using Suc.prems(2) arg_cong [OF r1(2), of length] by simp
  have shift: "snd (ringbufindex_shift_get_ptr r (int (Suc n))) =
      snd (ringbufindex_shift_get_ptr ?r1 (int n))"
    unfolding ringbufindex_shift_get_ptr_def Let_def snd_conv rb_shift_word [OF Suc.prems(1)]
    by simp
  have "snd (ringbufindex_get r) = ?r1"
    using Suc.prems by (simp add: ringbufindex_get_def rb_nonempty_iff)
  then have iter: "((\<lambda>q. snd (ringbufindex_get q)) ^^ Suc n) r =
      ((\<lambda>q. snd (ringbufindex_get q)) ^^ n) ?r1"
    by (simp only: funpow_Suc_right comp_apply)
  show ?case
    unfolding shift iter r1(2) drop_Suc_Cons
    using Suc.IH [OF r1(1) le] unfolding rb_cap_upd by blast
qed

text \<open>\<^verbatim>\<open>ringbufindex_init\<close> with a power of two up to 256 (which is 0 as a byte).\<close>

lemma ringbufindex_init_wf:
  assumes "k \<le> 8"
  shows "rb_wf (ringbufindex_init r (of_nat (2 ^ k)))"
    and "rb_cap (ringbufindex_init r (of_nat (2 ^ k))) = 2 ^ k - 1"
    and "rb_idx (ringbufindex_init r (of_nat (2 ^ k))) = []"
proof -
  have m: "of_nat (2 ^ k) - 1 = (mask k :: u8)" by (simp add: mask_eq_exp_minus_1)
  show "rb_wf (ringbufindex_init r (of_nat (2 ^ k)))"
    using assms m by (auto simp: rb_wf_def ringbufindex_init_def)
  show cap: "rb_cap (ringbufindex_init r (of_nat (2 ^ k))) = 2 ^ k - 1"
    using assms m by (simp add: rb_cap_def ringbufindex_init_def unat_mask_le)
  show "rb_idx (ringbufindex_init r (of_nat (2 ^ k))) = []"
    by (simp add: rb_idx_def rb_count_def) (simp add: ringbufindex_init_def)
qed

section \<open>The interface of an index ring\<close>

locale index_fifo =
  fixes inv :: "'r \<Rightarrow> bool"
    and cap :: "'r \<Rightarrow> nat"
    and idx :: "'r \<Rightarrow> nat list"
    and put get :: "'r \<Rightarrow> int \<times> 'r"
    and peek_put peek_get elements :: "'r \<Rightarrow> int"
  assumes idx_bound: "inv r \<Longrightarrow> i \<in> set (idx r) \<Longrightarrow> i \<le> cap r"
    and idx_distinct: "inv r \<Longrightarrow> distinct (idx r)"
    and idx_length: "inv r \<Longrightarrow> length (idx r) \<le> cap r"
    and elements_idx: "inv r \<Longrightarrow> elements r = int (length (idx r))"
    and put_full: "inv r \<Longrightarrow> length (idx r) = cap r \<Longrightarrow> put r = (0, r) \<and> peek_put r = -1"
    and put_room: "inv r \<Longrightarrow> length (idx r) < cap r \<Longrightarrow>
      \<exists>i r'. put r = (1, r') \<and> peek_put r = int i \<and> inv r' \<and> cap r' = cap r \<and> idx r' = idx r @ [i]"
    and get_none: "inv r \<Longrightarrow> idx r = [] \<Longrightarrow> get r = (-1, r) \<and> peek_get r = -1"
    and get_some: "inv r \<Longrightarrow> idx r = i # is \<Longrightarrow>
      \<exists>r'. get r = (int i, r') \<and> peek_get r = int i \<and> inv r' \<and> cap r' = cap r \<and> idx r' = is"
begin

text \<open>
  A client keeps an array beside the ring: it stores at \<open>peek_put\<close> before it calls \<open>put\<close>, and
  reads at the index \<open>get\<close> returns. The array read along \<open>idx\<close> is then a bounded queue.
\<close>

lemma enqueue:
  assumes "inv r" "length (idx r) < cap r" "cap r < length arr"
  shows "\<exists>i r'. put r = (1, r') \<and> peek_put r = int i \<and> inv r' \<and> cap r' = cap r \<and> idx r' = idx r @ [i] \<and>
    map ((!) (arr[i := x])) (idx r') = map ((!) arr) (idx r) @ [x]"
proof -
  from put_room [OF assms(1,2)] obtain i r' where
    r': "put r = (1, r')" "peek_put r = int i" "inv r'" "cap r' = cap r" "idx r' = idx r @ [i]"
    by blast
  have "i \<notin> set (idx r)" using idx_distinct [OF r'(3)] r'(5) by simp
  moreover have "i < length arr" using idx_bound [OF r'(3), of i] r'(4,5) assms(3) by simp
  ultimately have "map ((!) (arr[i := x])) (idx r') = map ((!) arr) (idx r) @ [x]"
    using r'(5) by auto (metis nth_list_update_neq)
  with r' show ?thesis by blast
qed

lemma dequeue:
  assumes "inv r" "map ((!) arr) (idx r) = x # xs"
  shows "\<exists>i r'. get r = (int i, r') \<and> peek_get r = int i \<and> arr ! i = x \<and> inv r' \<and> cap r' = cap r \<and>
    idx r = i # idx r' \<and> map ((!) arr) (idx r') = xs"
proof -
  obtain i "is" where "idx r = i # is" using assms(2) by (cases "idx r") auto
  with get_some [OF assms(1) this] assms(2) show ?thesis by auto
qed

lemma peek_get_none_iff: "inv r \<Longrightarrow> peek_get r = -1 \<longleftrightarrow> idx r = []"
  using get_none get_some by (cases "idx r") fastforce+

lemma peek_put_none_iff: "inv r \<Longrightarrow> peek_put r = -1 \<longleftrightarrow> length (idx r) = cap r"
  using put_full put_room idx_length by (cases "length (idx r) = cap r") (fastforce simp: le_less)+

end

interpretation rb: index_fifo rb_wf rb_cap rb_idx ringbufindex_put ringbufindex_get
  ringbufindex_peek_put ringbufindex_peek_get ringbufindex_elements
proof unfold_locales
  show "rb_wf r \<Longrightarrow> i \<in> set (rb_idx r) \<Longrightarrow> i \<le> rb_cap r" for r i by (rule rb_idx_less)
  show "distinct (rb_idx r)" for r by (rule distinct_rb_idx)
  show "length (rb_idx r) \<le> rb_cap r" for r by (simp add: rb_count_le)
  show "rb_wf r \<Longrightarrow> ringbufindex_elements r = int (length (rb_idx r))" for r
    by (simp add: ringbufindex_elements_def unat_rb_diff [symmetric])
  show "rb_wf r \<Longrightarrow> length (rb_idx r) = rb_cap r \<Longrightarrow>
      ringbufindex_put r = (0, r) \<and> ringbufindex_peek_put r = -1" for r
    by (simp add: ringbufindex_put_def ringbufindex_peek_put_def rb_full_iff)
  show "rb_wf r \<Longrightarrow> length (rb_idx r) < rb_cap r \<Longrightarrow>
      \<exists>i r'. ringbufindex_put r = (1, r') \<and> ringbufindex_peek_put r = int i \<and> rb_wf r' \<and>
        rb_cap r' = rb_cap r \<and> rb_idx r' = rb_idx r @ [i]" for r
    using rb_put_step [of r]
    by (auto simp: ringbufindex_put_def ringbufindex_peek_put_def rb_full_iff)
  show "rb_wf r \<Longrightarrow> rb_idx r = [] \<Longrightarrow>
      ringbufindex_get r = (-1, r) \<and> ringbufindex_peek_get r = -1" for r
    using length_rb_idx [of r]
    by (simp add: ringbufindex_get_def ringbufindex_peek_get_def rb_nonempty_iff)
  show "rb_wf r \<Longrightarrow> rb_idx r = i # is \<Longrightarrow>
      \<exists>r'. ringbufindex_get r = (int i, r') \<and> ringbufindex_peek_get r = int i \<and> rb_wf r' \<and>
        rb_cap r' = rb_cap r \<and> rb_idx r' = is" for r i "is"
    using rb_get_step [of r] length_rb_idx [of r]
    by (auto simp: ringbufindex_get_def ringbufindex_peek_get_def rb_nonempty_iff)
qed

section \<open>ringbuf.c\<close>

text \<open>
  The byte ring owns its data pointer; \<open>rbuf_data\<close> is the memory it points to. Storing a byte
  and moving the put pointer are two writes in that order.
\<close>

record ringbuf =
  rbuf_data :: "u8 list"
  rbuf_mask :: u8
  rbuf_put_ptr :: u8
  rbuf_get_ptr :: u8

definition ringbuf_init :: "ringbuf \<Rightarrow> u8 list \<Rightarrow> u8 \<Rightarrow> ringbuf" where
  "ringbuf_init r dataptr sz =
     r\<lparr>rbuf_data := dataptr, rbuf_mask := sz - 1, rbuf_put_ptr := 0, rbuf_get_ptr := 0\<rparr>"

definition ringbuf_put :: "ringbuf \<Rightarrow> u8 \<Rightarrow> int \<times> ringbuf" where
  "ringbuf_put r c =
     (if (rbuf_put_ptr r - rbuf_get_ptr r) AND rbuf_mask r = rbuf_mask r then (0, r)
      else
        (let r1 = r\<lparr>rbuf_data := (rbuf_data r)[unat (rbuf_put_ptr r) := c]\<rparr>
         in (1, r1\<lparr>rbuf_put_ptr := (rbuf_put_ptr r1 + 1) AND rbuf_mask r1\<rparr>)))"

definition ringbuf_get :: "ringbuf \<Rightarrow> int \<times> ringbuf" where
  "ringbuf_get r =
     (if (rbuf_put_ptr r - rbuf_get_ptr r) AND rbuf_mask r > 0
      then (uint (rbuf_data r ! unat (rbuf_get_ptr r)),
            r\<lparr>rbuf_get_ptr := (rbuf_get_ptr r + 1) AND rbuf_mask r\<rparr>)
      else (-1, r))"

definition ringbuf_size :: "ringbuf \<Rightarrow> int" where
  "ringbuf_size r = uint (rbuf_mask r) + 1"

definition ringbuf_elements :: "ringbuf \<Rightarrow> int" where
  "ringbuf_elements r = uint ((rbuf_put_ptr r - rbuf_get_ptr r) AND rbuf_mask r)"

text \<open>The index part of a byte ring behaves as an index ring.\<close>

definition rbuf_index :: "ringbuf \<Rightarrow> ringbufindex" where
  "rbuf_index r = \<lparr>rb_mask = rbuf_mask r, rb_put = rbuf_put_ptr r, rb_get = rbuf_get_ptr r\<rparr>"

definition rbuf_wf :: "ringbuf \<Rightarrow> bool" where
  "rbuf_wf r \<longleftrightarrow> rb_wf (rbuf_index r) \<and> rb_cap (rbuf_index r) < length (rbuf_data r)"

definition rbuf_cap :: "ringbuf \<Rightarrow> nat" where
  "rbuf_cap r = rb_cap (rbuf_index r)"

definition rbuf_bytes :: "ringbuf \<Rightarrow> u8 list" where
  "rbuf_bytes r = map ((!) (rbuf_data r)) (rb_idx (rbuf_index r))"

text \<open>The bounded queue of bytes that the ring implements.\<close>

definition bq_put :: "nat \<Rightarrow> u8 \<Rightarrow> u8 list \<Rightarrow> int \<times> u8 list" where
  "bq_put n c q = (if length q = n then (0, q) else (1, q @ [c]))"

definition bq_get :: "u8 list \<Rightarrow> int \<times> u8 list" where
  "bq_get q = (case q of [] \<Rightarrow> (-1, []) | c # q' \<Rightarrow> (uint c, q'))"

lemma ringbuf_put_index:
  "ringbuf_put r c =
     (case ringbufindex_put (rbuf_index r) of
        (ret, ri) \<Rightarrow>
          (ret, if ret = 0 then r
                else r\<lparr>rbuf_data := (rbuf_data r)[unat (rbuf_put_ptr r) := c],
                       rbuf_put_ptr := rb_put ri\<rparr>))"
  by (simp add: ringbuf_put_def ringbufindex_put_def rbuf_index_def)

lemma uint_u8_not_m1 [simp]: "uint (x :: u8) \<noteq> -1"
  using uint_ge_0 [of x] by linarith

lemma ringbuf_get_index:
  "ringbuf_get r =
     (case ringbufindex_get (rbuf_index r) of
        (ret, ri) \<Rightarrow>
          (if ret = -1 then -1 else uint (rbuf_data r ! nat ret), r\<lparr>rbuf_get_ptr := rb_get ri\<rparr>))"
proof (cases "(rbuf_put_ptr r - rbuf_get_ptr r) AND rbuf_mask r > 0")
  case True
  then show ?thesis
    unfolding ringbuf_get_def ringbufindex_get_def rbuf_index_def by simp
next
  case False
  then show ?thesis
    unfolding ringbuf_get_def ringbufindex_get_def rbuf_index_def by simp
qed

lemma rb_put_result:
  "ringbufindex_put r = (1, r') \<Longrightarrow> ringbufindex_peek_put r = int i \<Longrightarrow>
     i = unat (rb_put r) \<and> rb_get r' = rb_get r \<and> rb_mask r' = rb_mask r"
  by (auto simp: ringbufindex_put_def ringbufindex_peek_put_def uint_eq_int_iff split: if_splits)

lemma rb_get_result:
  "snd (ringbufindex_get r) = r' \<Longrightarrow> rb_put r' = rb_put r \<and> rb_mask r' = rb_mask r"
  by (auto simp: ringbufindex_get_def)

lemma ringbuf_put_queue:
  assumes "rbuf_wf r"
  shows "\<exists>r'. ringbuf_put r c = (fst (bq_put (rbuf_cap r) c (rbuf_bytes r)), r') \<and> rbuf_wf r' \<and>
    rbuf_cap r' = rbuf_cap r \<and> rbuf_bytes r' = snd (bq_put (rbuf_cap r) c (rbuf_bytes r))"
proof (cases "length (rb_idx (rbuf_index r)) = rb_cap (rbuf_index r)")
  case True
  with assms rb.put_full show ?thesis
    by (auto simp: rbuf_wf_def ringbuf_put_index bq_put_def rbuf_bytes_def rbuf_cap_def)
next
  case False
  then have lt: "length (rb_idx (rbuf_index r)) < rb_cap (rbuf_index r)"
    using rb_count_le [of "rbuf_index r"] by simp
  obtain i ri where ri: "ringbufindex_put (rbuf_index r) = (1, ri)"
      "ringbufindex_peek_put (rbuf_index r) = int i" "rb_wf ri" "rb_cap ri = rb_cap (rbuf_index r)"
      "map ((!) ((rbuf_data r)[i := c])) (rb_idx ri) = rbuf_bytes r @ [c]"
    using rb.enqueue [OF _ lt, of "rbuf_data r" c] assms by (auto simp: rbuf_wf_def rbuf_bytes_def)
  let ?r' = "r\<lparr>rbuf_data := (rbuf_data r)[i := c], rbuf_put_ptr := rb_put ri\<rparr>"
  have "rbuf_index ?r' = ri" and "i = unat (rbuf_put_ptr r)"
    using rb_put_result [OF ri(1,2)] by (simp_all add: rbuf_index_def)
  then show ?thesis
    using False assms ri
    by (auto simp: ringbuf_put_index bq_put_def rbuf_wf_def rbuf_bytes_def rbuf_cap_def)
qed

lemma ringbuf_get_queue:
  assumes "rbuf_wf r"
  shows "\<exists>r'. ringbuf_get r = (fst (bq_get (rbuf_bytes r)), r') \<and> rbuf_wf r' \<and>
    rbuf_cap r' = rbuf_cap r \<and> rbuf_bytes r' = snd (bq_get (rbuf_bytes r))"
proof (cases "rbuf_bytes r")
  case Nil
  then have "ringbufindex_get (rbuf_index r) = (-1, rbuf_index r)"
    using assms rb.get_none by (simp add: rbuf_wf_def rbuf_bytes_def)
  with Nil assms show ?thesis
    by (simp add: ringbuf_get_index bq_get_def rbuf_index_def)
next
  case (Cons c q)
  obtain i ri where ri: "ringbufindex_get (rbuf_index r) = (int i, ri)" "rbuf_data r ! i = c"
      "rb_wf ri" "rb_cap ri = rb_cap (rbuf_index r)" "map ((!) (rbuf_data r)) (rb_idx ri) = q"
    using rb.dequeue [of "rbuf_index r" "rbuf_data r" c q] assms Cons
    by (auto simp: rbuf_wf_def rbuf_bytes_def)
  have "rbuf_index (r\<lparr>rbuf_get_ptr := rb_get ri\<rparr>) = ri"
    using rb_get_result [of "rbuf_index r" ri] ri(1) by (simp add: rbuf_index_def)
  then show ?thesis
    using Cons assms ri
    by (simp add: ringbuf_get_index bq_get_def rbuf_wf_def rbuf_bytes_def rbuf_cap_def)
qed

datatype ringbuf_op = Op_put u8 | Op_get

fun ringbuf_run :: "ringbuf_op list \<Rightarrow> ringbuf \<Rightarrow> int list \<times> ringbuf" where
  "ringbuf_run [] r = ([], r)"
| "ringbuf_run (x # xs) r =
     (let (ret, r1) = (case x of Op_put c \<Rightarrow> ringbuf_put r c | Op_get \<Rightarrow> ringbuf_get r);
          (rets, r2) = ringbuf_run xs r1
      in (ret # rets, r2))"

fun bq_run :: "nat \<Rightarrow> ringbuf_op list \<Rightarrow> u8 list \<Rightarrow> int list \<times> u8 list" where
  "bq_run n [] q = ([], q)"
| "bq_run n (x # xs) q =
     (let (ret, q1) = (case x of Op_put c \<Rightarrow> bq_put n c q | Op_get \<Rightarrow> bq_get q);
          (rets, q2) = bq_run n xs q1
      in (ret # rets, q2))"

lemma ringbuf_run_queue:
  "rbuf_wf r \<Longrightarrow> \<exists>r'. ringbuf_run xs r = (fst (bq_run (rbuf_cap r) xs (rbuf_bytes r)), r') \<and>
     rbuf_wf r' \<and> rbuf_bytes r' = snd (bq_run (rbuf_cap r) xs (rbuf_bytes r))"
proof (induction xs arbitrary: r)
  case (Cons x xs)
  have "\<exists>r'. (case x of Op_put c \<Rightarrow> ringbuf_put r c | Op_get \<Rightarrow> ringbuf_get r) =
      (fst (case x of Op_put c \<Rightarrow> bq_put (rbuf_cap r) c (rbuf_bytes r) | Op_get \<Rightarrow> bq_get (rbuf_bytes r)), r') \<and>
      rbuf_wf r' \<and> rbuf_cap r' = rbuf_cap r \<and> rbuf_bytes r' =
      snd (case x of Op_put c \<Rightarrow> bq_put (rbuf_cap r) c (rbuf_bytes r) | Op_get \<Rightarrow> bq_get (rbuf_bytes r))"
    using ringbuf_put_queue [OF Cons.prems] ringbuf_get_queue [OF Cons.prems] by (cases x) auto
  with Cons.IH show ?case by (fastforce simp: Let_def split: prod.splits)
qed simp

section \<open>Properties\<close>

text \<open>
  (C3) A byte ring of \<^verbatim>\<open>2 ^ k\<close> bytes is a bounded FIFO queue of \<^verbatim>\<open>2 ^ k - 1\<close> bytes: whatever
  bytes are put and got in whatever order after \<open>ringbuf_init\<close>, every return value is the one
  the queue gives (0 when a put finds it full, -1 when a get finds it empty, else the oldest
  byte), across all wrap-arounds of the pointers.
\<close>

theorem ringbuf_is_bounded_fifo:
  assumes "k \<le> 8" and "length mem = 2 ^ k"
  shows "fst (ringbuf_run xs (ringbuf_init r mem (of_nat (2 ^ k)))) = fst (bq_run (2 ^ k - 1) xs [])"
proof -
  let ?r = "ringbuf_init r mem (of_nat (2 ^ k))"
  have i: "rbuf_index ?r = ringbufindex_init \<lparr>rb_mask = 0, rb_put = 0, rb_get = 0\<rparr> (of_nat (2 ^ k))"
    by (simp add: rbuf_index_def ringbuf_init_def ringbufindex_init_def)
  have "rbuf_wf ?r" "rbuf_cap ?r = 2 ^ k - 1" "rbuf_bytes ?r = []"
    using ringbufindex_init_wf [OF assms(1)] assms(2)
    unfolding rbuf_wf_def rbuf_cap_def rbuf_bytes_def i by (simp_all add: ringbuf_init_def)
  then show ?thesis using ringbuf_run_queue [of ?r xs] by auto
qed

theorem ringbuf_is_bounded_fifo_witness:
  "fst (ringbuf_run [Op_put 7, Op_put 8, Op_get, Op_get, Op_get]
         (ringbuf_init \<lparr>rbuf_data = [], rbuf_mask = 0, rbuf_put_ptr = 0, rbuf_get_ptr = 0\<rparr> [0, 0] (of_nat (2 ^ 1))))
   = [1, 0, 7, -1, -1]"
  using ringbuf_is_bounded_fifo [of 1 "[0, 0]" "[Op_put 7, Op_put 8, Op_get, Op_get, Op_get]"]
  by (simp add: bq_put_def bq_get_def)

text \<open>
  (C4) \<open>ringbufindex_shift_get_ptr\<close>, which the batch transmission of the aggregation scheme uses
  to consume several packets at once, is the same as that many calls of \<open>ringbufindex_get\<close>: it
  discards exactly the oldest positions and keeps the ring well formed.
\<close>

theorem ringbufindex_shift_drops_oldest:
  assumes "rb_wf r" and "n \<le> rb_count r"
  shows "rb_wf (snd (ringbufindex_shift_get_ptr r (int n))) \<and>
    rb_idx (snd (ringbufindex_shift_get_ptr r (int n))) = drop n (rb_idx r) \<and>
    snd (ringbufindex_shift_get_ptr r (int n)) = ((\<lambda>q. snd (ringbufindex_get q)) ^^ n) r"
  using rb_shift_step [OF assms] by blast

theorem ringbufindex_shift_drops_oldest_witness:
  "rb_idx (snd (ringbufindex_shift_get_ptr \<lparr>rb_mask = 3, rb_put = 1, rb_get = 2\<rparr> 2)) = [0]"
proof -
  let ?r = "\<lparr>rb_mask = 3, rb_put = 1, rb_get = 2\<rparr> :: ringbufindex"
  have "mask 2 = (3 :: u8)" by (simp add: mask_eq_exp_minus_1)
  then have wf: "rb_wf ?r" by (auto simp: rb_wf_def intro!: exI [of _ "2 :: nat"])
  have count: "rb_count ?r = 3" by (simp add: rb_count_def rb_cap_def)
  have idx: "rb_idx ?r = [2, 3, 0]"
    by (simp add: rb_idx_def count rb_cap_def upt_conv_Cons)
  have "rb_idx (snd (ringbufindex_shift_get_ptr ?r (int 2))) = drop 2 (rb_idx ?r)"
    by (rule ringbufindex_shift_drops_oldest [OF wf, THEN conjunct2, THEN conjunct1]) (simp add: count)
  then show ?thesis by (simp add: idx)
qed

end
