(* ===== verification/Lib_Memb.thy ===== *)
theory Lib_Memb
  imports Prelude
begin

text \<open>
  The fixed-size block pools of \<^verbatim>\<open>os/lib/memb.c\<close>. A pool has the address of its first
  block, the block size, the number of blocks, one flag per block and the memory itself. A block
  pointer is an address (\<open>int\<close>). Freeing a block does not clear its memory, so a block
  allocated again still holds what its last owner wrote.

  The locale \<open>block_pool\<close> is what the clients of a pool rely on (packets, links and slotframes
  of the TSCH layer); its interpretation discharges it for the code.
\<close>

record memb =
  memb_size :: nat
  memb_num :: nat
  memb_used :: "bool list"
  memb_mem :: int
  memb_data :: "u8 list"

section \<open>Operations\<close>

definition memb_init :: "memb \<Rightarrow> memb" where
  "memb_init m =
     m\<lparr>memb_used := replicate (memb_num m) False,
       memb_data := replicate (memb_size m * memb_num m) 0\<rparr>"

text \<open>\<open>for(i = 0; i < m->num; ++i) if(m->used[i] == false)\<close>\<close>

fun memb_scan :: "bool list \<Rightarrow> nat \<Rightarrow> nat option" where
  "memb_scan [] i = None"
| "memb_scan (u # us) i = (if u = False then Some i else memb_scan us (Suc i))"

definition memb_alloc :: "memb \<Rightarrow> int option \<times> memb" where
  "memb_alloc m =
     (case memb_scan (take (memb_num m) (memb_used m)) 0 of
        Some i \<Rightarrow> (Some (memb_mem m + int (i * memb_size m)), m\<lparr>memb_used := (memb_used m)[i := True]\<rparr>)
      | None \<Rightarrow> (None, m))"

function memb_free_loop :: "memb \<Rightarrow> int \<Rightarrow> nat \<Rightarrow> int \<Rightarrow> int \<times> memb" where
  "memb_free_loop m ptr i ptr2 =
     (if i < memb_num m then
        if ptr2 = ptr then
          (if memb_used m ! i = False then (-1, m)
           else (0, m\<lparr>memb_used := (memb_used m)[i := False]\<rparr>))
        else memb_free_loop m ptr (Suc i) (ptr2 + int (memb_size m))
      else (-1, m))"
  by pat_completeness auto
termination
  by (relation "measure (\<lambda>(m, ptr, i, ptr2). memb_num m - i)") auto

declare memb_free_loop.simps [simp del]

definition memb_free :: "memb \<Rightarrow> int \<Rightarrow> int \<times> memb" where
  "memb_free m ptr = memb_free_loop m ptr 0 (memb_mem m)"

definition memb_inmemb :: "memb \<Rightarrow> int \<Rightarrow> bool" where
  "memb_inmemb m ptr \<longleftrightarrow>
     ptr \<ge> memb_mem m \<and> ptr < memb_mem m + int (memb_num m * memb_size m)"

definition memb_numfree :: "memb \<Rightarrow> int" where
  "memb_numfree m = int (length (filter (\<lambda>u. u = False) (take (memb_num m) (memb_used m))))"

section \<open>Well-formed pools and live blocks\<close>

definition memb_wf :: "memb \<Rightarrow> bool" where
  "memb_wf m \<longleftrightarrow> length (memb_used m) = memb_num m \<and> memb_size m > 0"

definition memb_addr :: "memb \<Rightarrow> nat \<Rightarrow> int" where
  "memb_addr m i = memb_mem m + int (i * memb_size m)"

definition memb_live :: "memb \<Rightarrow> int set" where
  "memb_live m = memb_addr m ` {i. i < memb_num m \<and> memb_used m ! i}"

lemma memb_addr_eq [simp]: "memb_wf m \<Longrightarrow> memb_addr m i = memb_addr m j \<longleftrightarrow> i = j"
  by (auto simp: memb_addr_def memb_wf_def)

lemma inj_memb_addr: "memb_wf m \<Longrightarrow> inj_on (memb_addr m) S"
  by (auto intro: inj_onI)

lemma memb_addr_live [simp]:
  "memb_wf m \<Longrightarrow> memb_addr m i \<in> memb_live m \<longleftrightarrow> i < memb_num m \<and> memb_used m ! i"
  by (auto simp: memb_live_def)

lemma memb_scan_Some:
  "memb_scan us k = Some i \<Longrightarrow> k \<le> i \<and> i - k < length us \<and> \<not> us ! (i - k)"
proof (induction us k rule: memb_scan.induct)
  case (2 u us i')
  then show ?case by (auto split: if_splits simp: Suc_le_eq nth_Cons' less_diff_conv)
qed simp

lemma memb_scan_None: "memb_scan us k = None \<longleftrightarrow> (\<forall>u \<in> set us. u)"
  by (induction us k rule: memb_scan.induct) auto

lemma memb_live_update:
  assumes "memb_wf m" "i < memb_num m"
  shows "memb_live (m\<lparr>memb_used := (memb_used m)[i := b]\<rparr>) =
    (if b then insert (memb_addr m i) (memb_live m) else memb_live m - {memb_addr m i})"
proof -
  have a: "memb_addr (m\<lparr>memb_used := x\<rparr>) = memb_addr m" for x by (simp add: memb_addr_def fun_eq_iff)
  have "{j. j < memb_num m \<and> (memb_used m)[i := b] ! j} =
      (if b then insert i {j. j < memb_num m \<and> memb_used m ! j}
       else {j. j < memb_num m \<and> memb_used m ! j} - {i})"
    using assms by (auto simp: memb_wf_def nth_list_update)
  then have "memb_live (m\<lparr>memb_used := (memb_used m)[i := b]\<rparr>) =
      memb_addr m ` (if b then insert i {j. j < memb_num m \<and> memb_used m ! j}
       else {j. j < memb_num m \<and> memb_used m ! j} - {i})"
    by (simp add: memb_live_def a)
  also have "\<dots> = (if b then insert (memb_addr m i) (memb_live m) else memb_live m - {memb_addr m i})"
    using inj_on_image_set_diff [OF inj_memb_addr [OF assms(1), of UNIV]] by (simp add: memb_live_def)
  finally show ?thesis .
qed

lemma card_memb_live:
  assumes "memb_wf m"
  shows "card (memb_live m) = length (filter id (memb_used m))"
proof -
  have "card (memb_live m) = card {i. i < length (memb_used m) \<and> id (memb_used m ! i)}"
    using assms by (simp add: memb_live_def card_image inj_memb_addr) (simp add: memb_wf_def)
  then show ?thesis by (simp add: length_filter_conv_card)
qed

lemma finite_memb_live [simp]: "finite (memb_live m)"
  by (simp add: memb_live_def)

lemma memb_numfree_live:
  assumes "memb_wf m"
  shows "memb_numfree m = int (memb_num m) - int (card (memb_live m))"
proof -
  have "length (filter id (memb_used m)) + length (filter (\<lambda>u. u = False) (memb_used m)) = memb_num m"
    using assms sum_length_filter_compl [of id "memb_used m"] by (simp add: memb_wf_def)
  then show ?thesis
    using assms card_memb_live [OF assms] by (simp add: memb_numfree_def memb_wf_def)
qed

lemma memb_free_loop_addr:
  assumes "memb_wf m"
  shows "memb_free_loop m ptr i (memb_addr m i) =
    (if \<exists>j. i \<le> j \<and> j < memb_num m \<and> ptr = memb_addr m j \<and> memb_used m ! j
     then (0, m\<lparr>memb_used := (memb_used m)[(THE j. ptr = memb_addr m j) := False]\<rparr>) else (-1, m))"
proof (induction "memb_num m - i" arbitrary: i)
  case 0
  then show ?case by (subst memb_free_loop.simps) auto
next
  case (Suc n)
  have next_addr: "memb_addr m i + int (memb_size m) = memb_addr m (Suc i)"
    by (simp add: memb_addr_def algebra_simps)
  have i: "i < memb_num m" using Suc.hyps(2) by simp
  show ?case
  proof (cases "memb_addr m i = ptr")
    case True
    then have ptr: "ptr = memb_addr m i" by simp
    show ?thesis unfolding ptr using i assms by (subst memb_free_loop.simps) auto
  next
    case False
    have "memb_free_loop m ptr i (memb_addr m i) = memb_free_loop m ptr (Suc i) (memb_addr m (Suc i))"
      using False i by (subst memb_free_loop.simps) (simp add: next_addr)
    also have "\<dots> = (if \<exists>j. Suc i \<le> j \<and> j < memb_num m \<and> ptr = memb_addr m j \<and> memb_used m ! j
       then (0, m\<lparr>memb_used := (memb_used m)[(THE j. ptr = memb_addr m j) := False]\<rparr>) else (-1, m))"
      using Suc by simp
    finally show ?thesis using False by (auto simp: Suc_le_eq le_less)
  qed
qed

lemma memb_free_addr:
  assumes "memb_wf m" "j < memb_num m"
  shows "memb_free m (memb_addr m j) =
    (if memb_used m ! j then (0, m\<lparr>memb_used := (memb_used m)[j := False]\<rparr>) else (-1, m))"
  using memb_free_loop_addr [OF assms(1), of "memb_addr m j" 0] assms
  by (auto simp: memb_free_def memb_addr_def [of m 0])

lemma memb_free_other:
  assumes "memb_wf m" "ptr \<notin> memb_live m"
  shows "memb_free m ptr = (-1, m)"
  using memb_free_loop_addr [OF assms(1), of ptr 0] assms
  by (auto simp: memb_free_def memb_addr_def [of m 0])

lemma memb_init_wf: "memb_size m > 0 \<Longrightarrow> memb_wf (memb_init m) \<and> memb_live (memb_init m) = {}"
  by (auto simp: memb_init_def memb_wf_def memb_live_def)

section \<open>The interface of a block pool\<close>

locale block_pool =
  fixes inv :: "'m \<Rightarrow> bool"
    and cap :: "'m \<Rightarrow> nat"
    and live :: "'m \<Rightarrow> int set"
    and alloc :: "'m \<Rightarrow> int option \<times> 'm"
    and free :: "'m \<Rightarrow> int \<Rightarrow> int \<times> 'm"
  assumes live_finite: "finite (live m)"
    and live_cap: "inv m \<Longrightarrow> card (live m) \<le> cap m"
    and alloc_full: "inv m \<Longrightarrow> card (live m) = cap m \<Longrightarrow> alloc m = (None, m)"
    and alloc_fresh: "inv m \<Longrightarrow> card (live m) < cap m \<Longrightarrow>
      \<exists>p m'. alloc m = (Some p, m') \<and> p \<notin> live m \<and> live m' = insert p (live m) \<and> inv m' \<and> cap m' = cap m"
    and free_live: "inv m \<Longrightarrow> p \<in> live m \<Longrightarrow>
      \<exists>m'. free m p = (0, m') \<and> live m' = live m - {p} \<and> inv m' \<and> cap m' = cap m"
    and free_dead: "inv m \<Longrightarrow> p \<notin> live m \<Longrightarrow> free m p = (-1, m)"
begin

lemma alloc_cases:
  assumes "inv m"
  obtains (full) "alloc m = (None, m)" "card (live m) = cap m"
  | (fresh) p m' where "alloc m = (Some p, m')" "p \<notin> live m" "live m' = insert p (live m)"
      "inv m'" "cap m' = cap m" "card (live m) < cap m"
proof (cases "card (live m) = cap m")
  case True
  with alloc_full [OF assms] show thesis by (auto intro: that(1))
next
  case False
  then have lt: "card (live m) < cap m" using live_cap [OF assms] by simp
  with alloc_fresh [OF assms lt] show thesis by (blast intro: that(2))
qed

lemma free_inv: "inv m \<Longrightarrow> inv (snd (free m p)) \<and> cap (snd (free m p)) = cap m \<and>
    live (snd (free m p)) = live m - {p}"
proof (cases "p \<in> live m")
  case True
  assume "inv m"
  with True obtain m' where "free m p = (0, m')" "live m' = live m - {p}" "inv m'" "cap m' = cap m"
    using free_live by blast
  then show ?thesis by simp
next
  case False
  assume "inv m"
  with False free_dead [of m p] show ?thesis by simp
qed

lemma alloc_free_roundtrip:
  assumes "inv m" "alloc m = (Some p, m')"
  shows "fst (free m' p) = 0 \<and> live (snd (free m' p)) = live m"
  using assms(1)
proof (cases rule: alloc_cases)
  case full
  with assms show ?thesis by simp
next
  case (fresh q m'')
  with assms have "q = p" "m'' = m'" by simp_all
  with free_live [of m' p] fresh show ?thesis by auto
qed

end

interpretation pool: block_pool memb_wf memb_num memb_live memb_alloc memb_free
proof unfold_locales
  show "finite (memb_live m)" for m by simp
  have le: "card (memb_live m) = memb_num m \<longleftrightarrow> (\<forall>u \<in> set (memb_used m). u)"
    and le': "card (memb_live m) \<le> memb_num m" if "memb_wf m" for m
  proof -
    have "length (filter id (memb_used m)) = length (memb_used m) \<longleftrightarrow> (\<forall>u \<in> set (memb_used m). u)"
      using length_filter_less [of _ "memb_used m" id] by (fastforce simp: filter_id_conv)
    with that show "card (memb_live m) = memb_num m \<longleftrightarrow> (\<forall>u \<in> set (memb_used m). u)"
      by (simp add: card_memb_live memb_wf_def)
    show "card (memb_live m) \<le> memb_num m"
      using that length_filter_le [of id "memb_used m"] by (simp add: card_memb_live memb_wf_def)
  qed
  show "memb_wf m \<Longrightarrow> card (memb_live m) \<le> memb_num m" for m by (rule le')
  show "memb_wf m \<Longrightarrow> card (memb_live m) = memb_num m \<Longrightarrow> memb_alloc m = (None, m)" for m
    using le [of m] memb_scan_None [of "memb_used m" 0, THEN iffD2]
    by (simp add: memb_alloc_def memb_wf_def)
  show "\<exists>p m'. memb_alloc m = (Some p, m') \<and> p \<notin> memb_live m \<and>
      memb_live m' = insert p (memb_live m) \<and> memb_wf m' \<and> memb_num m' = memb_num m"
    if "memb_wf m" "card (memb_live m) < memb_num m" for m
  proof -
    from that le [of m] have "memb_scan (memb_used m) 0 \<noteq> None" by (auto simp: memb_scan_None)
    then obtain i where scan: "memb_scan (memb_used m) 0 = Some i" by blast
    from memb_scan_Some [OF this] that(1) have i: "i < memb_num m" "\<not> memb_used m ! i"
      by (auto simp: memb_wf_def)
    have "memb_alloc m = (Some (memb_addr m i), m\<lparr>memb_used := (memb_used m)[i := True]\<rparr>)"
      using scan that(1) by (simp add: memb_alloc_def memb_wf_def memb_addr_def)
    with i that(1) memb_live_update [OF that(1) i(1), of True] show ?thesis
      by (auto simp: memb_wf_def)
  qed
  show "\<exists>m'. memb_free m p = (0, m') \<and> memb_live m' = memb_live m - {p} \<and> memb_wf m' \<and>
      memb_num m' = memb_num m" if "memb_wf m" "p \<in> memb_live m" for m p
  proof -
    from that(2) obtain i where i: "p = memb_addr m i" "i < memb_num m" "memb_used m ! i"
      by (auto simp: memb_live_def)
    with that(1) memb_live_update [OF that(1) i(2), of False] show ?thesis
      by (simp add: memb_free_addr) (simp add: memb_wf_def)
  qed
  show "memb_wf m \<Longrightarrow> p \<notin> memb_live m \<Longrightarrow> memb_free m p = (-1, m)" for m p
    by (rule memb_free_other)
qed

section \<open>Properties\<close>

datatype memb_op = Op_alloc | Op_free int

text \<open>
  A client of a pool keeps the set of blocks it was given and has not freed. \<open>memb_run\<close> is
  \<open>None\<close> as soon as the pool hands out a block the client holds already, refuses to free a block
  it holds, or accepts to free one it does not hold.
\<close>

fun memb_run :: "memb_op list \<Rightarrow> memb \<Rightarrow> int set \<Rightarrow> (memb \<times> int set) option" where
  "memb_run [] m held = Some (m, held)"
| "memb_run (Op_alloc # xs) m held =
     (case memb_alloc m of
        (None, m') \<Rightarrow> memb_run xs m' held
      | (Some p, m') \<Rightarrow> if p \<in> held then None else memb_run xs m' (insert p held))"
| "memb_run (Op_free p # xs) m held =
     (case memb_free m p of
        (ret, m') \<Rightarrow> if (ret = 0) = (p \<in> held) then memb_run xs m' (held - {p}) else None)"

lemma memb_run_live:
  assumes "memb_wf m"
  shows "\<exists>m'. memb_run xs m (memb_live m) = Some (m', memb_live m') \<and> memb_wf m' \<and>
    memb_num m' = memb_num m"
  using assms
proof (induction xs arbitrary: m)
  case (Cons x xs)
  show ?case
  proof (cases x)
    case Op_alloc
    from Cons.prems show ?thesis
    proof (cases rule: pool.alloc_cases)
      case full
      with Cons Op_alloc show ?thesis by simp
    next
      case (fresh p m')
      with Cons.IH [of m'] Op_alloc show ?thesis by auto
    qed
  next
    case (Op_free p)
    with pool.free_live [OF Cons.prems, of p] pool.free_dead [OF Cons.prems, of p] Cons.IH
    show ?thesis by (cases "p \<in> memb_live m") (force, simp add: Cons.prems)
  qed
qed simp

text \<open>
  (C5) A pool of \<^verbatim>\<open>memb.c\<close> never hands out a block that its client still holds, frees exactly
  the blocks held (any other pointer, a double free included, is refused with -1), and
  \<open>memb_numfree\<close> is the number of blocks minus the blocks held, after any sequence of
  allocations and frees.
\<close>

theorem memb_blocks_exclusive:
  assumes "memb_size m > 0"
  shows "\<exists>m' held. memb_run xs (memb_init m) {} = Some (m', held) \<and> finite held \<and>
    memb_numfree m' = int (memb_num m) - int (card held) \<and> held = memb_live m'"
proof -
  have wf: "memb_wf (memb_init m)" and "memb_live (memb_init m) = {}"
    using memb_init_wf [OF assms] by auto
  with memb_run_live [OF wf, of xs] obtain m' where
    "memb_run xs (memb_init m) {} = Some (m', memb_live m')" "memb_wf m'" "memb_num m' = memb_num m"
    by (auto simp: memb_init_def)
  then show ?thesis by (auto simp: memb_numfree_live)
qed

theorem memb_blocks_exclusive_witness:
  "memb_numfree \<lparr>memb_size = 4, memb_num = 2, memb_used = [True, False], memb_mem = 100, memb_data = replicate 8 0\<rparr> = 1
   \<and> memb_run [Op_alloc, Op_alloc, Op_alloc, Op_free 104, Op_free 104]
       (memb_init \<lparr>memb_size = 4, memb_num = 2, memb_used = [], memb_mem = 100, memb_data = []\<rparr>) {} \<noteq> None"
  using memb_blocks_exclusive [of
      "\<lparr>memb_size = 4, memb_num = 2, memb_used = [], memb_mem = 100, memb_data = []\<rparr>"
      "[Op_alloc, Op_alloc, Op_alloc, Op_free 104, Op_free 104]"]
  by (auto simp: memb_numfree_def)

end
