(* ===== verification/Tsch_Asn.thy ===== *)
theory Tsch_Asn
  imports Prelude
begin

text \<open>
  The absolute slot number of \<^verbatim>\<open>os/net/mac/tsch/tsch-asn.h\<close>: five bytes, kept as a 32-bit
  word and a byte, with macros that add, subtract, compare, and take the remainder by a divisor
  whose helper value is computed once. \<open>asn_val\<close> reads the 40-bit number; the lemmas say that the
  macros compute on that number modulo \<open>2 ^ 40\<close>.
\<close>

record tsch_asn =
  asn_ls4b :: u32
  asn_ms1b :: u8

record asn_divisor =
  div_val :: u16
  div_rem :: u16

section \<open>The macros\<close>

definition tsch_asn_init :: "u8 \<Rightarrow> u32 \<Rightarrow> tsch_asn" where
  "tsch_asn_init ms ls = \<lparr>asn_ls4b = ls, asn_ms1b = ms\<rparr>"

definition tsch_asn_inc :: "tsch_asn \<Rightarrow> u32 \<Rightarrow> tsch_asn" where
  "tsch_asn_inc a inc =
     (let new_ls4b = asn_ls4b a + inc;
          a1 = (if new_ls4b < asn_ls4b a then a\<lparr>asn_ms1b := asn_ms1b a + 1\<rparr> else a)
      in a1\<lparr>asn_ls4b := new_ls4b\<rparr>)"

definition tsch_asn_dec :: "tsch_asn \<Rightarrow> u32 \<Rightarrow> tsch_asn" where
  "tsch_asn_dec a dec =
     (let new_ls4b = asn_ls4b a - dec;
          a1 = (if new_ls4b > asn_ls4b a then a\<lparr>asn_ms1b := asn_ms1b a - 1\<rparr> else a)
      in a1\<lparr>asn_ls4b := new_ls4b\<rparr>)"

definition tsch_asn_diff :: "tsch_asn \<Rightarrow> tsch_asn \<Rightarrow> u32" where
  "tsch_asn_diff a b = asn_ls4b a - asn_ls4b b"

definition tsch_asn_divisor_init :: "u16 \<Rightarrow> asn_divisor" where
  "tsch_asn_divisor_init v =
     \<lparr>div_val = v, div_rem = ucast ((((0xffffffff :: u32) mod ucast v) + 1) mod ucast v)\<rparr>"

text \<open>The two 16-bit remainders are added as \<^verbatim>\<open>int\<close>, so the sum does not wrap.\<close>

definition tsch_asn_mod :: "tsch_asn \<Rightarrow> asn_divisor \<Rightarrow> nat" where
  "tsch_asn_mod a d =
     (unat (ucast (asn_ls4b a mod ucast (div_val d)) :: u16) +
      unat (of_nat (unat (asn_ms1b a) * unat (div_rem d) mod unat (div_val d)) :: u16))
     mod unat (div_val d)"

definition tsch_asn_copy :: "tsch_asn \<Rightarrow> tsch_asn" where
  "tsch_asn_copy b = \<lparr>asn_ls4b = asn_ls4b b, asn_ms1b = asn_ms1b b\<rparr>"

text \<open>Only the low four bytes are divided.\<close>

definition tsch_asn_division :: "tsch_asn \<Rightarrow> asn_divisor \<Rightarrow> u64" where
  "tsch_asn_division a d = ucast (asn_ls4b a) div ucast (div_val d)"

section \<open>The 40-bit number\<close>

definition asn_val :: "tsch_asn \<Rightarrow> nat" where
  "asn_val a = unat (asn_ms1b a) * 2 ^ 32 + unat (asn_ls4b a)"

lemma asn_val_less: "asn_val a < 2 ^ 40"
proof -
  have "unat (asn_ms1b a) \<le> 255" "unat (asn_ls4b a) < 2 ^ 32"
    using u8_less [of "asn_ms1b a"] by (linarith, simp)
  then have "unat (asn_ms1b a) * 2 ^ 32 + unat (asn_ls4b a) < 255 * 2 ^ 32 + 2 ^ 32"
    by (intro add_le_less_mono) simp_all
  then show ?thesis by (simp add: asn_val_def)
qed

lemma asn_val_inject: "asn_val a = asn_val b \<longleftrightarrow> a = (b :: tsch_asn)"
proof
  assume eq: "asn_val a = asn_val b"
  have "unat (asn_ls4b a) = unat (asn_ls4b b)"
    using arg_cong [OF eq, of "\<lambda>n. n mod 2 ^ 32"] u32_less [of "asn_ls4b a"] u32_less [of "asn_ls4b b"]
    by (simp add: asn_val_def)
  moreover from this eq have "unat (asn_ms1b a) = unat (asn_ms1b b)" by (simp add: asn_val_def)
  ultimately have "asn_ls4b a = asn_ls4b b" "asn_ms1b a = asn_ms1b b"
    by (simp_all add: word_unat_eq_iff)
  then show "a = b" by simp
qed simp

lemma asn_val_init [simp]: "asn_val (tsch_asn_init ms ls) = unat ms * 2 ^ 32 + unat ls"
  by (simp add: asn_val_def tsch_asn_init_def)

lemma asn_copy_id [simp]: "tsch_asn_copy a = (a :: tsch_asn)"
  by (simp add: tsch_asn_copy_def)

lemma asn_val_inc: "asn_val (tsch_asn_inc a n) = (asn_val a + unat n) mod 2 ^ 40"
proof -
  let ?l = "unat (asn_ls4b a)" and ?h = "unat (asn_ms1b a)"
  have lt: "?l < 4294967296" "unat n < 4294967296" "?h < 256" by (fact u32_less u8_less)+
  show ?thesis
  proof (cases "?l + unat n < 4294967296")
    case True
    then have "unat (asn_ls4b a + n) = ?l + unat n" by (simp add: unat_add_mod)
    then have "asn_val (tsch_asn_inc a n) = asn_val a + unat n"
      by (simp add: tsch_asn_inc_def asn_val_def word_less_nat_alt)
    then show ?thesis using asn_val_less [of "tsch_asn_inc a n"] by simp
  next
    case False
    then have "4294967296 \<le> ?l + unat n" "?l + unat n < 2 * 4294967296"
      using lt by linarith+
    then have "(?l + unat n) mod 4294967296 = ?l + unat n - 4294967296" by (rule mod_wrap)
    moreover have "unat (asn_ls4b a + n) = (?l + unat n) mod 4294967296"
      by (simp add: unat_add_mod)
    ultimately have u: "unat (asn_ls4b a + n) = ?l + unat n - 4294967296" by metis
    with False lt have "asn_ls4b a + n < asn_ls4b a" unfolding word_less_nat_alt by linarith
    then have v: "asn_val (tsch_asn_inc a n) = (?h + 1) mod 256 * 2 ^ 32 + (?l + unat n - 4294967296)"
      using unat_add_mod [of "asn_ms1b a" 1] by (simp add: tsch_asn_inc_def asn_val_def u)
    show ?thesis
    proof (cases "?h = 255")
      case True
      define r where "r = ?l + unat n - 4294967296"
      have "asn_val a + unat n = 1099511627776 + r"
        using True False by (simp add: asn_val_def r_def)
      moreover have "r < 1099511627776" unfolding r_def using lt by linarith
      ultimately show ?thesis using v True unfolding r_def [symmetric] by simp
    next
      case h: False
      with lt False have "asn_val a + unat n = (?h + 1) * 4294967296 + (?l + unat n - 4294967296)"
        by (simp add: asn_val_def)
      moreover have "(?h + 1) * 4294967296 + (?l + unat n - 4294967296) < 1099511627776"
      proof -
        have "?h + 1 \<le> 255" using h lt by linarith
        from mult_le_mono1 [OF this, of 4294967296] lt False show ?thesis by linarith
      qed
      moreover have "(?h + 1) mod 256 = ?h + 1" using h lt by (intro mod_less) linarith
      ultimately show ?thesis using v by simp
    qed
  qed
qed

lemma asn_inc_dec: "tsch_asn_dec (tsch_asn_inc a n) n = a"
proof -
  have "(asn_ls4b a < asn_ls4b a + n) = (\<not> asn_ls4b a + n < asn_ls4b a \<and> n \<noteq> 0)"
    by (metis add_cancel_right_right linorder_less_linear order_less_asym)
  then show ?thesis by (simp add: tsch_asn_inc_def tsch_asn_dec_def Let_def)
qed

lemma asn_dec_inc: "tsch_asn_inc (tsch_asn_dec a n) n = a"
proof -
  have "(asn_ls4b a < asn_ls4b a - n) = (\<not> asn_ls4b a - n < asn_ls4b a \<and> n \<noteq> 0)"
    by (metis diff_add_cancel add_cancel_right_right diff_0_right linorder_less_linear order_less_asym)
  then show ?thesis by (simp add: tsch_asn_inc_def tsch_asn_dec_def Let_def)
qed

lemma asn_val_dec:
  assumes "unat n \<le> asn_val a"
  shows "asn_val (tsch_asn_dec a n) = asn_val a - unat n"
proof -
  let ?b = "tsch_asn_dec a n"
  have "(asn_val ?b + unat n) mod 2 ^ 40 = asn_val a"
    using asn_val_inc [of ?b n] by (simp add: asn_dec_inc)
  moreover have "asn_val ?b < 2 ^ 40" "unat n < 2 ^ 32" by (simp_all add: asn_val_less [simplified])
  ultimately show ?thesis using assms asn_val_less [of a]
    by (cases "asn_val ?b + unat n < 2 ^ 40") (auto simp: mod_wrap)
qed

lemma divisor_rem:
  assumes "v \<noteq> 0"
  shows "unat (div_rem (tsch_asn_divisor_init v)) = 2 ^ 32 mod unat v"
proof -
  let ?v = "unat v"
  have v: "0 < ?v" "?v < 65536" using assms by (simp_all add: unat_gt_0)
  let ?w = "((0xffffffff :: u32) mod ucast v) + 1"
  have "unat ((0xffffffff :: u32) mod ucast v) = 4294967295 mod ?v"
    by (simp add: unat_mod unat_ucast_16_32)
  moreover have "4294967295 mod ?v < 65536" using v mod_less_divisor [of ?v 4294967295] by linarith
  ultimately have "unat ?w = 4294967295 mod ?v + 1" by (simp add: unat_add_mod)
  then have w: "unat (?w mod ucast v) = (4294967295 mod ?v + 1) mod ?v"
    by (simp add: unat_mod unat_ucast_16_32)
  moreover have "(4294967295 mod ?v + 1) mod ?v < 65536"
    using v mod_less_divisor [of ?v "4294967295 mod ?v + 1"] by linarith
  ultimately have "unat (ucast (?w mod ucast v) :: u16) = (4294967295 mod ?v + 1) mod ?v"
    by (simp add: unat_ucast_32_16)
  also have "\<dots> = 2 ^ 32 mod ?v" by (simp add: mod_Suc_eq)
  finally show ?thesis by (simp add: tsch_asn_divisor_init_def)
qed

lemma asn_mod_val:
  assumes "v \<noteq> 0"
  shows "tsch_asn_mod a (tsch_asn_divisor_init v) = asn_val a mod unat v"
proof -
  let ?v = "unat v" and ?d = "tsch_asn_divisor_init v"
  have v: "0 < ?v" "?v < 65536" using assms by (simp_all add: unat_gt_0)
  have small: "x mod ?v < 65536" for x using v mod_less_divisor [of ?v x] by linarith
  have dv: "div_val ?d = v" by (simp add: tsch_asn_divisor_init_def)
  have "unat (asn_ls4b a mod ucast v) = unat (asn_ls4b a) mod ?v"
    by (simp add: unat_mod unat_ucast_16_32)
  then have "unat (ucast (asn_ls4b a mod ucast v) :: u16) = unat (asn_ls4b a) mod ?v"
    using small by (simp add: unat_ucast_32_16)
  moreover have "unat (of_nat (unat (asn_ms1b a) * unat (div_rem ?d) mod ?v) :: u16) =
      unat (asn_ms1b a) * 2 ^ 32 mod ?v"
    using small [of "unat (asn_ms1b a) * unat (div_rem ?d)"]
    by (simp add: unat_of_nat divisor_rem [OF assms] mod_mult_right_eq)
  ultimately have "tsch_asn_mod a ?d =
      (unat (asn_ls4b a) mod ?v + unat (asn_ms1b a) * 2 ^ 32 mod ?v) mod ?v"
    unfolding tsch_asn_mod_def dv by simp
  then show ?thesis by (simp add: asn_val_def mod_add_eq add.commute)
qed

section \<open>Differences and quotients\<close>

lemma asn_diff_val: "unat (tsch_asn_diff a b) = (asn_val a + 2 ^ 40 - asn_val b) mod 2 ^ 32"
proof -
  have "(asn_val a + 2 ^ 40 - asn_val b) mod 2 ^ 32 = (unat (asn_ls4b a) + 2 ^ 32 - unat (asn_ls4b b)) mod 2 ^ 32"
  proof -
    have b: "unat (asn_ms1b b) \<le> 255" "unat (asn_ls4b b) \<le> 4294967296"
      using u8_less [of "asn_ms1b b"] u32_less [of "asn_ls4b b"] by linarith+
    have "asn_val a + 2 ^ 40 - asn_val b =
        (unat (asn_ls4b a) + 2 ^ 32 - unat (asn_ls4b b)) +
        (unat (asn_ms1b a) + 255 - unat (asn_ms1b b)) * 2 ^ 32"
      using b by (simp add: asn_val_def)
    then show ?thesis by simp
  qed
  then show ?thesis by (simp add: tsch_asn_diff_def unat_sub_mod)
qed

lemma of_nat_asn_val: "(of_nat (asn_val a) :: u32) = asn_ls4b a"
proof -
  have "(of_nat (2 ^ 32) :: u32) = 0"
    using word_exp_length_eq_0 [where 'a = 32] by (simp only: of_nat_power of_nat_numeral) simp
  then show ?thesis
    by (simp only: asn_val_def of_nat_add of_nat_mult mult_zero_right add_0 of_nat_unat ucast_id)
qed

text \<open>Read as a signed number, the difference is exact within \<open>2 ^ 31\<close> slots.\<close>

lemma asn_diff_sint:
  assumes "- (2 ^ 31) \<le> int (asn_val a) - int (asn_val b)" "int (asn_val a) - int (asn_val b) < 2 ^ 31"
  shows "sint (tsch_asn_diff a b) = int (asn_val a) - int (asn_val b)"
proof -
  have "tsch_asn_diff a b = word_of_int (int (asn_val a) - int (asn_val b))"
    by (simp add: tsch_asn_diff_def of_nat_asn_val [symmetric])
  then have "sint (tsch_asn_diff a b) = signed_take_bit 31 (int (asn_val a) - int (asn_val b))"
    by (simp only: signed_of_int) simp
  then show ?thesis using assms by (simp add: signed_take_bit_int_eq_self)
qed

lemma asn_val_inc_less: "asn_val a + unat n < 2 ^ 40 \<Longrightarrow> asn_val (tsch_asn_inc a n) = asn_val a + unat n"
  by (simp add: asn_val_inc)

lemma asn_division_val:
  assumes "v \<noteq> 0"
  shows "unat (tsch_asn_division a (tsch_asn_divisor_init v)) = asn_val a mod 2 ^ 32 div unat v"
proof -
  have "asn_val a mod 2 ^ 32 = unat (asn_ls4b a)"
    using u32_less [of "asn_ls4b a"] by (simp add: asn_val_def del: u32_less)
  then show ?thesis
    by (simp add: tsch_asn_division_def tsch_asn_divisor_init_def unat_div unat_ucast_16_64
        unat_ucast_32_64)
qed

lemma asn_val_dec_mod: "asn_val (tsch_asn_dec a n) = (asn_val a + 2 ^ 40 - unat n) mod 2 ^ 40"
proof -
  let ?x = "asn_val (tsch_asn_dec a n)"
  have lt: "?x < 1099511627776" "unat n < 4294967296"
    using asn_val_less [of "tsch_asn_dec a n"] by simp_all
  have "(?x + unat n) mod 1099511627776 = asn_val a"
    using asn_val_inc [of "tsch_asn_dec a n" n] by (simp add: asn_dec_inc)
  then have "(asn_val a + (1099511627776 - unat n)) mod 1099511627776 =
      (?x + unat n + (1099511627776 - unat n)) mod 1099511627776"
    by (metis mod_add_left_eq)
  also have "?x + unat n + (1099511627776 - unat n) = ?x + 1099511627776" using lt by linarith
  also have "\<dots> mod 1099511627776 = ?x" using lt by simp
  finally show ?thesis using lt by simp
qed

text \<open>
  (C6) The ASN macros compute on the 40-bit number: \<^verbatim>\<open>TSCH_ASN_INC\<close> and
  \<^verbatim>\<open>TSCH_ASN_DEC\<close> add and subtract modulo \<open>2 ^ 40\<close> (the carry into and the borrow from the
  fifth byte are right for every 32-bit amount), each undoes the other, and
  \<^verbatim>\<open>TSCH_ASN_DIFF\<close> is the difference modulo \<open>2 ^ 32\<close>.
\<close>

theorem asn_arithmetic_40_bit:
  "asn_val (tsch_asn_inc a n) = (asn_val a + unat n) mod 2 ^ 40 \<and>
   asn_val (tsch_asn_dec a n) = (asn_val a + 2 ^ 40 - unat n) mod 2 ^ 40 \<and>
   tsch_asn_dec (tsch_asn_inc a n) n = a \<and>
   tsch_asn_inc (tsch_asn_dec a n) n = a \<and>
   unat (tsch_asn_diff a b) = (asn_val a + 2 ^ 40 - asn_val b) mod 2 ^ 32"
  by (intro conjI asn_val_inc asn_val_dec_mod asn_inc_dec asn_dec_inc asn_diff_val)

text \<open>
  (C7) With the helper value of \<^verbatim>\<open>TSCH_ASN_DIVISOR_INIT\<close>, \<^verbatim>\<open>TSCH_ASN_MOD\<close> is the remainder of the
  whole 40-bit ASN, whatever the 16-bit divisor: the slotframe arithmetic of the scheduler rests on it.
\<close>

theorem asn_mod_is_remainder:
  assumes "v \<noteq> 0"
  shows "tsch_asn_mod a (tsch_asn_divisor_init v) = asn_val a mod unat v"
  using assms by (rule asn_mod_val)

theorem asn_mod_is_remainder_witness:
  "(397 :: u16) \<noteq> 0 \<and>
   tsch_asn_mod (tsch_asn_init 200 4294967295) (tsch_asn_divisor_init 397) = 863288426495 mod 397"
  using asn_mod_is_remainder [of 397 "tsch_asn_init 200 4294967295"] by simp

text \<open>
  (C8) \<^verbatim>\<open>TSCH_ASN_DIVISION\<close>, from which ALICE takes its absolute slotframe number, divides only
  the four low bytes: it is the quotient of the ASN exactly as long as the fifth byte is zero.
\<close>

theorem asn_division_exact_iff:
  assumes "v \<noteq> 0"
  shows "unat (tsch_asn_division a (tsch_asn_divisor_init v)) = asn_val a div unat v \<longleftrightarrow>
    asn_ms1b a = 0"
proof -
  let ?v = "unat v" and ?l = "unat (asn_ls4b a)" and ?h = "unat (asn_ms1b a)"
  have v: "0 < ?v" "?v < 65536" using assms by (simp_all add: unat_gt_0)
  have div: "unat (tsch_asn_division a (tsch_asn_divisor_init v)) = ?l div ?v"
    using asn_division_val [OF assms, of a] u32_less [of "asn_ls4b a"]
    by (simp add: asn_val_def del: u32_less)
  have "?l div ?v < asn_val a div ?v" if "?h \<noteq> 0"
  proof -
    have "?l + ?v \<le> asn_val a" proof -
      from that have "1 * 4294967296 \<le> ?h * 4294967296" by (intro mult_le_mono1) simp
      then have "?v \<le> ?h * 4294967296" using v(2) by linarith
      then show ?thesis by (simp add: asn_val_def)
    qed
    then have "(?l + ?v) div ?v \<le> asn_val a div ?v" by (rule div_le_mono)
    then show ?thesis using div_add_self2 [of ?v ?l] v by linarith
  qed
  moreover have "asn_val a = ?l" if "asn_ms1b a = 0" using that by (simp add: asn_val_def)
  moreover have "?h \<noteq> 0 \<longleftrightarrow> asn_ms1b a \<noteq> 0" by (simp add: unat_eq_zero)
  ultimately show ?thesis unfolding div by (metis less_irrefl)
qed

theorem asn_division_exact_iff_witness:
  "(7 :: u16) \<noteq> 0 \<and>
   unat (tsch_asn_division (tsch_asn_init 1 0) (tsch_asn_divisor_init 7)) \<noteq>
   asn_val (tsch_asn_init 1 0) div 7"
  using asn_division_exact_iff [of 7 "tsch_asn_init 1 0"] by (simp add: tsch_asn_init_def)

end
