(* ===== verification/Asap_Sla.thy ===== *)
theory Asap_Sla
  imports Tsch_Asn
begin

text \<open>
  The adaptive timeslot length (SLA) of \<^verbatim>\<open>os/net/mac/tsch/tsch.c\<close>: the coordinator records
  the quantised lengths of the frames and acknowledgements it sees, takes a percentile of them as
  the reference lengths, derives the next timeslot length and the ASN at which the whole network
  switches to it, and announces both in beacons; every node switches in the slot loop of
  \<^verbatim>\<open>tsch-slot-operation.c\<close>, after a guard time in which it stays silent.

  The static variables of the two files are the record \<open>sla\<close>. An access outside an observation
  array, undefined in C, is \<open>None\<close>. What the code asks of other modules (the routing state, the
  beacon queue, the tick conversion of the platform) is an argument.
\<close>

section \<open>Configuration and timing\<close>

text \<open>The switches of \<^verbatim>\<open>examples/ASAP/project-conf.h\<close> that the timing depends on.\<close>

record sla_conf =
  with_upa :: bool
  with_ost :: bool
  triple_cca :: bool
  cca_enabled :: bool
  rx_wait :: u16
  hck_slot_len :: u16

datatype ts_elem = Ts_cca_offset | Ts_cca | Ts_tx_offset | Ts_rx_offset | Ts_rx_ack_delay
  | Ts_tx_ack_delay | Ts_rx_wait | Ts_ack_wait | Ts_rx_tx | Ts_max_ack | Ts_max_tx
  | Ts_timeslot_length

definition SLA_SHIFT_BITS :: nat where "SLA_SHIFT_BITS = 3"
definition SLA_K_TH_PERCENTILE :: nat where "SLA_K_TH_PERCENTILE = 90"
definition SLA_OBSERVATION_WINDOWS :: nat where "SLA_OBSERVATION_WINDOWS = 1"
definition SLA_MAX_FRAME_LEN :: nat where "SLA_MAX_FRAME_LEN = 128"
definition RADIO_PHY_OVERHEAD :: int where "RADIO_PHY_OVERHEAD = 3"
definition ORCHESTRA_CONF_EBSF_PERIOD :: nat where "ORCHESTRA_CONF_EBSF_PERIOD = 397"
definition SLA_INITIAL_HOP_DISTANCE :: u16 where "SLA_INITIAL_HOP_DISTANCE = 10"

definition SLA_MAX_ACK_LEN :: "sla_conf \<Rightarrow> nat" where
  "SLA_MAX_ACK_LEN c = (if with_upa c then if triple_cca c then 34 else 60 else 70)"

definition SLA_GUARD_TIME_TIMESLOTS :: "sla_conf \<Rightarrow> u32" where
  "SLA_GUARD_TIME_TIMESLOTS c = (if with_upa c then 6 else 2)"

definition SLA_FRAME_LEN_QUANTIZED_LEVELS :: nat where
  "SLA_FRAME_LEN_QUANTIZED_LEVELS = drop_bit SLA_SHIFT_BITS (SLA_MAX_FRAME_LEN - 1) + 1 + 1"

definition SLA_ACK_LEN_QUANTIZED_LEVELS :: "sla_conf \<Rightarrow> nat" where
  "SLA_ACK_LEN_QUANTIZED_LEVELS c = drop_bit SLA_SHIFT_BITS (SLA_MAX_ACK_LEN c - 1) + 1 + 1"

definition SLA_CALCULATE_DURATION :: "nat \<Rightarrow> nat" where
  "SLA_CALCULATE_DURATION len = 32 * (5 + len)"

definition HCK_TSCH_MAX_ACK :: "sla_conf \<Rightarrow> nat" where
  "HCK_TSCH_MAX_ACK c = SLA_CALCULATE_DURATION (SLA_MAX_ACK_LEN c)"

fun tsch_timeslot_timing_us_10000 :: "sla_conf \<Rightarrow> ts_elem \<Rightarrow> u16" where
  "tsch_timeslot_timing_us_10000 c Ts_cca_offset =
     (if cca_enabled c then if triple_cca c then 910 else 1600 else 1800)"
| "tsch_timeslot_timing_us_10000 c Ts_cca = (if cca_enabled c then 150 else 128)"
| "tsch_timeslot_timing_us_10000 c Ts_tx_offset =
     (if cca_enabled c \<and> triple_cca c then 2950 else 2120)"
| "tsch_timeslot_timing_us_10000 c Ts_rx_offset =
     (if cca_enabled c \<and> triple_cca c then 2950 - rx_wait c div 2 else 2120 - rx_wait c div 2)"
| "tsch_timeslot_timing_us_10000 c Ts_rx_ack_delay =
     (if with_upa c then 1100 else if with_ost c then 1000 else 800)"
| "tsch_timeslot_timing_us_10000 c Ts_tx_ack_delay =
     (if with_upa c then 1300 else if with_ost c then 1200 else 1000)"
| "tsch_timeslot_timing_us_10000 c Ts_rx_wait = rx_wait c"
| "tsch_timeslot_timing_us_10000 c Ts_ack_wait = 400"
| "tsch_timeslot_timing_us_10000 c Ts_rx_tx = 192"
| "tsch_timeslot_timing_us_10000 c Ts_max_ack = of_nat (HCK_TSCH_MAX_ACK c)"
| "tsch_timeslot_timing_us_10000 c Ts_max_tx = 4256"
| "tsch_timeslot_timing_us_10000 c Ts_timeslot_length = hck_slot_len c"

section \<open>State\<close>

record sla =
  tsch_timing_us :: "ts_elem \<Rightarrow> u16"
  tsch_timing :: "ts_elem \<Rightarrow> u32"
  sla_in_rapid_eb_broadcasting :: bool
  sla_eb_send_timer :: bool
  sla_timer :: bool
  sla_current_window_index :: nat
  sla_observed_bc_frame_length :: "u16 list list"
  sla_observed_uc_frame_length :: "u16 list list"
  sla_observed_ack_length :: "u16 list list"
  sla_observed_bc_frame_count :: "u16 list"
  sla_observed_uc_frame_count :: "u16 list"
  sla_observed_ack_count :: "u16 list"
  sla_max_hop_distance :: "u16 list"
  sla_curr_ref_hop_distance :: u16
  sla_triggering_asn :: tsch_asn
  sla_next_timeslot_length :: u16
  sla_curr_ref_bc_frame_len :: u8
  sla_curr_ref_uc_frame_len :: u8
  sla_curr_ref_ack_len :: u8
  sla_next_ref_bc_frame_len :: u8
  sla_next_ref_uc_frame_len :: u8
  sla_next_ref_ack_len :: u8
  sla_eb_packet_qloss_count :: u16
  sla_eb_packet_enqueue_count :: u16
  sla_in_guard_time :: bool

text \<open>The static initial values.\<close>

definition sla_boot :: "sla_conf \<Rightarrow> sla" where
  "sla_boot c =
     \<lparr>tsch_timing_us = (\<lambda>_. 0), tsch_timing = (\<lambda>_. 0),
      sla_in_rapid_eb_broadcasting = False, sla_eb_send_timer = False, sla_timer = False,
      sla_current_window_index = 0,
      sla_observed_bc_frame_length =
        replicate SLA_OBSERVATION_WINDOWS (replicate SLA_FRAME_LEN_QUANTIZED_LEVELS 0),
      sla_observed_uc_frame_length =
        replicate SLA_OBSERVATION_WINDOWS (replicate SLA_FRAME_LEN_QUANTIZED_LEVELS 0),
      sla_observed_ack_length =
        replicate SLA_OBSERVATION_WINDOWS (replicate (SLA_ACK_LEN_QUANTIZED_LEVELS c) 0),
      sla_observed_bc_frame_count = replicate SLA_OBSERVATION_WINDOWS 0,
      sla_observed_uc_frame_count = replicate SLA_OBSERVATION_WINDOWS 0,
      sla_observed_ack_count = replicate SLA_OBSERVATION_WINDOWS 0,
      sla_max_hop_distance = replicate SLA_OBSERVATION_WINDOWS 0,
      sla_curr_ref_hop_distance = SLA_INITIAL_HOP_DISTANCE,
      sla_triggering_asn = tsch_asn_init 0 0, sla_next_timeslot_length = 0,
      sla_curr_ref_bc_frame_len = of_nat SLA_MAX_FRAME_LEN,
      sla_curr_ref_uc_frame_len = of_nat SLA_MAX_FRAME_LEN,
      sla_curr_ref_ack_len = of_nat (SLA_MAX_ACK_LEN c),
      sla_next_ref_bc_frame_len = of_nat SLA_MAX_FRAME_LEN,
      sla_next_ref_uc_frame_len = of_nat SLA_MAX_FRAME_LEN,
      sla_next_ref_ack_len = of_nat (SLA_MAX_ACK_LEN c),
      sla_eb_packet_qloss_count = 0, sla_eb_packet_enqueue_count = 0,
      sla_in_guard_time = False\<rparr>"

text \<open>What \<^verbatim>\<open>sla_rapid_eb_broadcast\<close> asks of the rest of the stack.\<close>

record eb_env =
  env_is_associated :: bool
  env_eb_period :: u32
  env_dodag_joined :: bool
  env_leaf_mode :: bool
  env_eb_queue_count :: int
  env_create_eb :: int
  env_add_packet :: bool
  env_current_asn :: tsch_asn

section \<open>Recording lengths\<close>

definition sla_record_max_hop_distance :: "sla \<Rightarrow> u8 \<Rightarrow> sla" where
  "sla_record_max_hop_distance s hops =
     (let w = sla_current_window_index s in
      if ucast hops > sla_max_hop_distance s ! w
      then s\<lparr>sla_max_hop_distance := (sla_max_hop_distance s)[w := ucast hops]\<rparr>
      else s)"

definition sla_quantize_frame_len :: "int \<Rightarrow> u8" where
  "sla_quantize_frame_len len = word_of_int (drop_bit SLA_SHIFT_BITS (len - 1) + 1)"

text \<open>\<^verbatim>\<open>array[window][index] += 1; count[window] += 1\<close>\<close>

definition sla_bump :: "nat \<Rightarrow> nat \<Rightarrow> u16 list list \<Rightarrow> u16 list list option" where
  "sla_bump w q xss =
     (if w < length xss \<and> q < length (xss ! w)
      then Some (xss[w := (xss ! w)[q := xss ! w ! q + 1]]) else None)"

definition sla_record_bc_frame_len :: "sla \<Rightarrow> int \<Rightarrow> sla option" where
  "sla_record_bc_frame_len s frame_len =
     (let q = unat (sla_quantize_frame_len (frame_len + RADIO_PHY_OVERHEAD));
          w = sla_current_window_index s
      in case sla_bump w q (sla_observed_bc_frame_length s) of
           None \<Rightarrow> None
         | Some xss \<Rightarrow> Some (s\<lparr>sla_observed_bc_frame_length := xss,
             sla_observed_bc_frame_count :=
               (sla_observed_bc_frame_count s)[w := sla_observed_bc_frame_count s ! w + 1]\<rparr>))"

definition sla_record_uc_frame_len :: "sla \<Rightarrow> int \<Rightarrow> sla option" where
  "sla_record_uc_frame_len s frame_len =
     (let q = unat (sla_quantize_frame_len (frame_len + RADIO_PHY_OVERHEAD));
          w = sla_current_window_index s
      in case sla_bump w q (sla_observed_uc_frame_length s) of
           None \<Rightarrow> None
         | Some xss \<Rightarrow> Some (s\<lparr>sla_observed_uc_frame_length := xss,
             sla_observed_uc_frame_count :=
               (sla_observed_uc_frame_count s)[w := sla_observed_uc_frame_count s ! w + 1]\<rparr>))"

definition sla_record_ack_len :: "sla \<Rightarrow> int \<Rightarrow> sla option" where
  "sla_record_ack_len s ack_len =
     (let q = unat (sla_quantize_frame_len (ack_len + RADIO_PHY_OVERHEAD));
          w = sla_current_window_index s
      in case sla_bump w q (sla_observed_ack_length s) of
           None \<Rightarrow> None
         | Some xss \<Rightarrow> Some (s\<lparr>sla_observed_ack_length := xss,
             sla_observed_ack_count :=
               (sla_observed_ack_count s)[w := sla_observed_ack_count s ! w + 1]\<rparr>))"

section \<open>Reference lengths\<close>

definition sla_get_frame_len :: "u8 \<Rightarrow> u8" where
  "sla_get_frame_len q = push_bit SLA_SHIFT_BITS q"

text \<open>
  The loop that the three \<^verbatim>\<open>sla_calculate_next_ref\<close> functions share: \<open>sla_ref_scan xs ref i
  acc\<close> has the levels below \<open>i\<close> left and returns the target index and the accumulated count.
\<close>

fun sla_ref_scan :: "u16 list \<Rightarrow> u16 \<Rightarrow> nat \<Rightarrow> u16 \<Rightarrow> nat \<times> u16" where
  "sla_ref_scan xs ref_count 0 acc = (0, acc)"
| "sla_ref_scan xs ref_count (Suc i) acc =
     (let acc' = acc + xs ! i in
      if acc' \<noteq> 0 \<and> acc' > ref_count then (i, acc') else sla_ref_scan xs ref_count i acc')"

definition sla_ref_len :: "u16 list \<Rightarrow> u16 \<Rightarrow> nat \<Rightarrow> u8 \<Rightarrow> u8" where
  "sla_ref_len xs cnt levels cur =
     (let ref_count = of_nat (unat cnt * (100 - SLA_K_TH_PERCENTILE) div 100);
          (target_index, accum) = sla_ref_scan xs ref_count levels 0
      in if accum > 0 then sla_get_frame_len (of_nat target_index) else cur)"

definition sla_calculate_next_ref_bc_frame_len :: "sla \<Rightarrow> u8" where
  "sla_calculate_next_ref_bc_frame_len s =
     (let w = sla_current_window_index s in
      sla_ref_len (sla_observed_bc_frame_length s ! w) (sla_observed_bc_frame_count s ! w)
        SLA_FRAME_LEN_QUANTIZED_LEVELS (sla_curr_ref_bc_frame_len s))"

definition sla_calculate_next_ref_uc_frame_len :: "sla \<Rightarrow> u8" where
  "sla_calculate_next_ref_uc_frame_len s =
     (let w = sla_current_window_index s in
      sla_ref_len (sla_observed_uc_frame_length s ! w) (sla_observed_uc_frame_count s ! w)
        SLA_FRAME_LEN_QUANTIZED_LEVELS (sla_curr_ref_uc_frame_len s))"

definition sla_calculate_next_ref_ack_len :: "sla_conf \<Rightarrow> sla \<Rightarrow> u8" where
  "sla_calculate_next_ref_ack_len c s =
     (let w = sla_current_window_index s in
      sla_ref_len (sla_observed_ack_length s ! w) (sla_observed_ack_count s ! w)
        (SLA_ACK_LEN_QUANTIZED_LEVELS c) (sla_curr_ref_ack_len s))"

section \<open>The next timeslot length and the triggering ASN\<close>

definition sla_calculate_timeslot_length :: "sla_conf \<Rightarrow> sla \<Rightarrow> u16" where
  "sla_calculate_timeslot_length c s =
     (let dur = (\<lambda>len. of_nat (SLA_CALCULATE_DURATION (unat len)) :: u16);
          t = tsch_timing_us s;
          ref_bc_frame_duration = min (dur (sla_next_ref_bc_frame_len s)) (t Ts_max_tx);
          ref_uc_frame_duration = min (dur (sla_next_ref_uc_frame_len s)) (t Ts_max_tx);
          ref_ack_duration = min (dur (sla_next_ref_ack_len s)) (t Ts_max_ack);
          ref_bc_tx_duration = ref_bc_frame_duration;
          ref_uc_tx_duration = ref_uc_frame_duration + t Ts_tx_ack_delay + ref_ack_duration;
          longer_ref_tx_duration = max ref_bc_tx_duration ref_uc_tx_duration;
          max_tx_duration = t Ts_max_tx + t Ts_tx_ack_delay + t Ts_max_ack;
          tx_duration_diff = max_tx_duration - longer_ref_tx_duration
      in tsch_timeslot_timing_us_10000 c Ts_timeslot_length - tx_duration_diff)"

text \<open>
  \<^verbatim>\<open>tsch_calculate_current_asn\<close> reads the ASN from the clock: \<open>start\<close> is the start of the slot
  \<open>valid\<close>, and the tick difference is rounded up to whole timeslots.
\<close>

definition tsch_calculate_current_asn :: "sla \<Rightarrow> tsch_asn \<Rightarrow> u32 \<Rightarrow> u32 \<Rightarrow> u64" where
  "tsch_calculate_current_asn s valid start now =
     (let last_valid_asn = ucast (asn_ls4b valid) + push_bit 32 (ucast (asn_ms1b valid)) :: u64;
          len = tsch_timing s Ts_timeslot_length;
          passed_timeslots = (ucast ((now - start + len - 1) div len) :: u16)
      in last_valid_asn + ucast passed_timeslots - 1)"

definition sla_calculate_triggering_asn ::
  "sla \<Rightarrow> u64 \<Rightarrow> u16 \<Rightarrow> asn_divisor \<Rightarrow> sla" where
  "sla_calculate_triggering_asn s current_asn dao_max_hop_distance cs_size =
     (let trig0 = tsch_asn_init (ucast (drop_bit 32 current_asn)) (ucast (current_asn AND 0xFFFFFFFF));
          from_ttl = sla_max_hop_distance s ! sla_current_window_index s;
          between = max from_ttl dao_max_hop_distance;
          curr_max = (if between \<noteq> 0 then between else 1);
          ref_hop = (if sla_curr_ref_hop_distance s \<le> curr_max then curr_max
                     else max (sla_curr_ref_hop_distance s - 1) curr_max);
          expected = (of_nat ((unat ref_hop + 1) * ORCHESTRA_CONF_EBSF_PERIOD * 1) :: u16);
          trig1 = tsch_asn_inc trig0 (ucast expected);
          ts_remainder = (of_nat (tsch_asn_mod trig1 cs_size) :: u16);
          trig2 = tsch_asn_inc trig1 (ucast (div_val cs_size) - ucast ts_remainder)
      in s\<lparr>sla_curr_ref_hop_distance := ref_hop, sla_triggering_asn := trig2\<rparr>)"

section \<open>Rapid beacons\<close>

definition sla_finish_rapid_eb_broadcasting :: "sla \<Rightarrow> sla" where
  "sla_finish_rapid_eb_broadcasting s =
     (if sla_in_rapid_eb_broadcasting s
      then s\<lparr>sla_in_rapid_eb_broadcasting := False, sla_eb_send_timer := False\<rparr>
      else s)"

definition sla_rapid_eb_broadcast :: "eb_env \<Rightarrow> sla \<Rightarrow> sla" where
  "sla_rapid_eb_broadcast e s0 =
     (let s = s0\<lparr>sla_in_rapid_eb_broadcasting := True\<rparr> in
      if env_is_associated e \<and> env_eb_period e > 0 \<and> env_dodag_joined e \<and> \<not> env_leaf_mode e
      then
        let s1 = (if env_eb_queue_count e = 0 \<and> env_create_eb e > 0
                  then if \<not> env_add_packet e
                       then s\<lparr>sla_eb_packet_qloss_count := sla_eb_packet_qloss_count s + 1\<rparr>
                       else s\<lparr>sla_eb_packet_enqueue_count := sla_eb_packet_enqueue_count s + 1\<rparr>
                  else s);
            sla_asn_diff = sint (tsch_asn_diff (env_current_asn e) (sla_triggering_asn s1))
        in if sla_asn_diff \<ge> 0 then sla_finish_rapid_eb_broadcasting s1
           else s1\<lparr>sla_eb_send_timer := True\<rparr>
      else s)"

section \<open>The periodic decision of the coordinator\<close>

definition sla_reset_window :: "sla_conf \<Rightarrow> nat \<Rightarrow> sla \<Rightarrow> sla" where
  "sla_reset_window c w s =
     s\<lparr>sla_observed_bc_frame_length :=
         (sla_observed_bc_frame_length s)[w := replicate SLA_FRAME_LEN_QUANTIZED_LEVELS 0],
       sla_observed_uc_frame_length :=
         (sla_observed_uc_frame_length s)[w := replicate SLA_FRAME_LEN_QUANTIZED_LEVELS 0],
       sla_observed_ack_length :=
         (sla_observed_ack_length s)[w := replicate (SLA_ACK_LEN_QUANTIZED_LEVELS c) 0],
       sla_observed_bc_frame_count := (sla_observed_bc_frame_count s)[w := 0],
       sla_observed_uc_frame_count := (sla_observed_uc_frame_count s)[w := 0],
       sla_observed_ack_count := (sla_observed_ack_count s)[w := 0],
       sla_max_hop_distance := (sla_max_hop_distance s)[w := 0]\<rparr>"

definition sla_determine ::
  "sla_conf \<Rightarrow> eb_env \<Rightarrow> u64 \<Rightarrow> u16 \<Rightarrow> asn_divisor \<Rightarrow> sla \<Rightarrow> sla" where
  "sla_determine c e current_asn dao_hops cs_size s =
     (let s1 = s\<lparr>sla_curr_ref_bc_frame_len := sla_next_ref_bc_frame_len s,
                 sla_curr_ref_uc_frame_len := sla_next_ref_uc_frame_len s,
                 sla_curr_ref_ack_len := sla_next_ref_ack_len s\<rparr>;
          s2 = s1\<lparr>sla_next_ref_bc_frame_len := sla_calculate_next_ref_bc_frame_len s1,
                  sla_next_ref_uc_frame_len := sla_calculate_next_ref_uc_frame_len s1,
                  sla_next_ref_ack_len := sla_calculate_next_ref_ack_len c s1\<rparr>;
          s3 = s2\<lparr>sla_next_timeslot_length := sla_calculate_timeslot_length c s2\<rparr>;
          s4 = sla_calculate_triggering_asn s3 current_asn dao_hops cs_size;
          s5 = (if tsch_timing_us s4 Ts_timeslot_length \<noteq> sla_next_timeslot_length s4 \<and>
                   \<not> sla_in_rapid_eb_broadcasting s4
                then sla_rapid_eb_broadcast e s4 else s4);
          w = (sla_current_window_index s5 + 1) mod SLA_OBSERVATION_WINDOWS;
          s6 = sla_reset_window c w (s5\<lparr>sla_current_window_index := w\<rparr>)
      in s6\<lparr>sla_timer := True\<rparr>)"

section \<open>Applying the announced length\<close>

definition sla_apply_next_timeslot_length :: "(u16 \<Rightarrow> u32) \<Rightarrow> sla \<Rightarrow> sla" where
  "sla_apply_next_timeslot_length to_ticks s =
     (let us = (tsch_timing_us s)(Ts_timeslot_length := sla_next_timeslot_length s) in
      s\<lparr>tsch_timing_us := us,
        tsch_timing := (tsch_timing s)(Ts_timeslot_length := to_ticks (us Ts_timeslot_length))\<rparr>)"

text \<open>The head of the slot loop of \<^verbatim>\<open>tsch_slot_operation\<close>.\<close>

definition sla_slot_start :: "sla_conf \<Rightarrow> (u16 \<Rightarrow> u32) \<Rightarrow> tsch_asn \<Rightarrow> sla \<Rightarrow> sla" where
  "sla_slot_start c to_ticks asn s =
     (let trig = sla_triggering_asn s;
          pending = (tsch_timing_us s Ts_timeslot_length \<noteq> sla_next_timeslot_length s)
      in if asn_ls4b asn = asn_ls4b trig \<and> asn_ms1b asn = asn_ms1b trig
         then (sla_finish_rapid_eb_broadcasting
                 (if pending then sla_apply_next_timeslot_length to_ticks s else s))
              \<lparr>sla_in_guard_time := False\<rparr>
         else if sint (tsch_asn_diff trig asn) > 0
         then s\<lparr>sla_in_guard_time := (tsch_asn_diff trig asn \<le> SLA_GUARD_TIME_TIMESLOTS c \<and> pending)\<rparr>
         else s\<lparr>sla_in_guard_time := False\<rparr>)"

text \<open>The SLA content of a beacon, its processing in \<^verbatim>\<open>eb_input\<close> and at association.\<close>

record sla_ies =
  ie_sla_triggering_asn :: tsch_asn
  ie_sla_curr_timeslot_len :: u16
  ie_sla_next_timeslot_len :: u16

definition sla_eb_ies :: "sla \<Rightarrow> sla_ies" where
  "sla_eb_ies s = \<lparr>ie_sla_triggering_asn = sla_triggering_asn s,
     ie_sla_curr_timeslot_len = tsch_timing_us s Ts_timeslot_length,
     ie_sla_next_timeslot_len = sla_next_timeslot_length s\<rparr>"

text \<open>\<open>True\<close>: the node disassociates.\<close>

definition sla_eb_input :: "eb_env \<Rightarrow> sla_ies \<Rightarrow> sla \<Rightarrow> bool \<times> sla" where
  "sla_eb_input e ies s =
     (if tsch_timing_us s Ts_timeslot_length \<noteq> ie_sla_curr_timeslot_len ies then (True, s)
      else
        let s1 = s\<lparr>sla_triggering_asn := ie_sla_triggering_asn ies,
                   sla_next_timeslot_length := ie_sla_next_timeslot_len ies\<rparr>
        in (False,
            if tsch_timing_us s1 Ts_timeslot_length \<noteq> sla_next_timeslot_length s1 \<and>
               \<not> sla_in_rapid_eb_broadcasting s1
            then sla_rapid_eb_broadcast e s1 else s1))"

text \<open>\<open>timing\<close>: the timing the association takes from the beacon or the defaults.\<close>

definition sla_associate :: "(u16 \<Rightarrow> u32) \<Rightarrow> (ts_elem \<Rightarrow> u16) \<Rightarrow> sla_ies \<Rightarrow> sla \<Rightarrow> sla" where
  "sla_associate to_ticks timing ies s =
     (let us = timing(Ts_timeslot_length := ie_sla_curr_timeslot_len ies) in
      s\<lparr>tsch_timing_us := us, tsch_timing := (\<lambda>i. to_ticks (us i)),
        sla_triggering_asn := ie_sla_triggering_asn ies,
        sla_next_timeslot_length := ie_sla_next_timeslot_len ies\<rparr>)"

definition sla_reset :: "sla_conf \<Rightarrow> (u16 \<Rightarrow> u32) \<Rightarrow> sla \<Rightarrow> sla" where
  "sla_reset c to_ticks s =
     s\<lparr>tsch_timing_us := tsch_timeslot_timing_us_10000 c,
       tsch_timing := (\<lambda>i. to_ticks (tsch_timeslot_timing_us_10000 c i)),
       sla_triggering_asn := tsch_asn_init 0 0,
       sla_next_timeslot_length := tsch_timeslot_timing_us_10000 c Ts_timeslot_length,
       sla_curr_ref_bc_frame_len := of_nat SLA_MAX_FRAME_LEN,
       sla_curr_ref_uc_frame_len := of_nat SLA_MAX_FRAME_LEN,
       sla_curr_ref_ack_len := of_nat (SLA_MAX_ACK_LEN c),
       sla_next_ref_bc_frame_len := of_nat SLA_MAX_FRAME_LEN,
       sla_next_ref_uc_frame_len := of_nat SLA_MAX_FRAME_LEN,
       sla_next_ref_ack_len := of_nat (SLA_MAX_ACK_LEN c)\<rparr>"

section \<open>The percentile\<close>

lemmas sla_const = SLA_SHIFT_BITS_def SLA_K_TH_PERCENTILE_def SLA_OBSERVATION_WINDOWS_def
  SLA_MAX_FRAME_LEN_def RADIO_PHY_OVERHEAD_def SLA_FRAME_LEN_QUANTIZED_LEVELS_def
  SLA_ACK_LEN_QUANTIZED_LEVELS_def SLA_MAX_ACK_LEN_def SLA_CALCULATE_DURATION_def

text \<open>The index of a length in an observation array.\<close>

definition sla_level :: "int \<Rightarrow> nat" where
  "sla_level l = unat (sla_quantize_frame_len (l + RADIO_PHY_OVERHEAD))"

lemma sla_level_val:
  assumes "0 \<le> l" "l \<le> 125"
  shows "sla_level l = nat ((l + 2) div 8) + 1"
proof -
  have "(l + 2) div 8 \<le> (125 + 2) div 8" using assms by (intro zdiv_mono1) simp_all
  then have "0 \<le> (l + 2) div 8" "(l + 2) div 8 + 1 < 256" using assms by simp_all
  then have "unat (word_of_int ((l + 2) div 8 + 1) :: u8) = nat ((l + 2) div 8) + 1"
    using unat_word_of_int_u8 [of "(l + 2) div 8 + 1"] by linarith
  moreover have "l + 3 - 1 = l + 2" by simp
  ultimately show ?thesis
    unfolding sla_level_def sla_quantize_frame_len_def sla_const drop_bit_eq_div
    by (simp add: add.commute)
qed

lemma sla_level_less: "0 \<le> l \<Longrightarrow> l \<le> 125 \<Longrightarrow> i < sla_level l \<longleftrightarrow> 8 * int i < l + 3"
  by (auto simp: sla_level_val zdiv_int nat_less_iff)

lemma sla_ref_scan_spec:
  assumes "unat acc + (\<Sum>j<n. unat (xs ! j)) < 65536" "acc \<le> r"
  shows "(\<exists>i<n. fst (sla_ref_scan xs r n acc) = i \<and>
           unat (snd (sla_ref_scan xs r n acc)) = unat acc + (\<Sum>j\<in>{i..<n}. unat (xs ! j)) \<and>
           unat r < unat acc + (\<Sum>j\<in>{i..<n}. unat (xs ! j)) \<and>
           unat acc + (\<Sum>j\<in>{Suc i..<n}. unat (xs ! j)) \<le> unat r) \<or>
         unat acc + (\<Sum>j<n. unat (xs ! j)) \<le> unat r"
  using assms
proof (induction n arbitrary: acc)
  case 0
  then show ?case by (simp add: word_le_nat_alt)
next
  case (Suc n)
  let ?a = "acc + xs ! n"
  have a: "unat ?a = unat acc + unat (xs ! n)"
    using Suc.prems(1) by (simp add: unat_add_mod)
  show ?case
  proof (cases "?a \<noteq> 0 \<and> r < ?a")
    case True
    then have "sla_ref_scan xs r (Suc n) acc = (n, ?a)" by simp
    moreover have "unat r < unat ?a" using True by (simp add: word_less_nat_alt)
    ultimately show ?thesis using Suc.prems(2) by (intro disjI1 exI [of _ n]) (simp add: a word_le_nat_alt)
  next
    case False
    then have le: "?a \<le> r" by (metis linorder_not_less word_neq_0_conv word_zero_le)
    have scan: "sla_ref_scan xs r (Suc n) acc = sla_ref_scan xs r n ?a" using False by auto
    have sum: "unat ?a + (\<Sum>j<n. unat (xs ! j)) = unat acc + (\<Sum>j<Suc n. unat (xs ! j))"
      by (simp add: a)
    have seg: "unat ?a + (\<Sum>j\<in>{i..<n}. unat (xs ! j)) = unat acc + (\<Sum>j\<in>{i..<Suc n}. unat (xs ! j))"
      if "i \<le> n" for i using that by (simp add: a)
    from Suc.IH [of ?a] Suc.prems(1) le
    consider (hit) i where "i < n" "fst (sla_ref_scan xs r n ?a) = i"
        "unat (snd (sla_ref_scan xs r n ?a)) = unat ?a + (\<Sum>j\<in>{i..<n}. unat (xs ! j))"
        "unat r < unat ?a + (\<Sum>j\<in>{i..<n}. unat (xs ! j))"
        "unat ?a + (\<Sum>j\<in>{Suc i..<n}. unat (xs ! j)) \<le> unat r"
      | (miss) "unat ?a + (\<Sum>j<n. unat (xs ! j)) \<le> unat r"
      unfolding sum by blast
    then show ?thesis
    proof cases
      case hit
      then show ?thesis unfolding scan using seg [of i] seg [of "Suc i"] less_SucI [OF hit(1)]
        by (intro disjI1 exI [of _ i]) simp
    next
      case miss
      then show ?thesis unfolding sum by blast
    qed
  qed
qed

lemma sla_level_le: "0 \<le> l \<Longrightarrow> l \<le> 125 \<Longrightarrow> i \<le> sla_level l \<longleftrightarrow> 8 * int i < l + 11"
  using sla_level_less [of l "i - 1"] by (cases i) (auto simp: sla_level_val)

text \<open>The array counts the lengths \<open>ls\<close>.\<close>

definition sla_hist :: "u16 list \<Rightarrow> int list \<Rightarrow> bool" where
  "sla_hist xs ls \<longleftrightarrow>
     (\<forall>j < length xs. unat (xs ! j) = length (filter (\<lambda>l. sla_level l = j) ls))"

lemma count_levels:
  "(\<Sum>j\<in>{i..<n}. length (filter (\<lambda>l. f l = j) ls)) = length (filter (\<lambda>l. i \<le> f l \<and> f l < n) ls)"
  for f :: "'a \<Rightarrow> nat"
proof (induction ls)
  case (Cons l ls)
  have "(\<Sum>j\<in>{i..<n}. length (filter (\<lambda>l. f l = j) (l # ls))) =
      (\<Sum>j\<in>{i..<n}. (if f l = j then 1 else 0) + length (filter (\<lambda>l. f l = j) ls))"
    by (intro sum.cong) auto
  then show ?case using Cons by (simp add: sum.distrib)
qed simp

lemma sla_hist_sum:
  assumes "sla_hist xs ls" "\<forall>l \<in> set ls. sla_level l < length xs"
  shows "(\<Sum>j\<in>{i..<length xs}. unat (xs ! j)) = length (filter (\<lambda>l. i \<le> sla_level l) ls)"
proof -
  have "(\<Sum>j\<in>{i..<length xs}. unat (xs ! j)) =
      (\<Sum>j\<in>{i..<length xs}. length (filter (\<lambda>l. sla_level l = j) ls))"
    using assms(1) by (intro sum.cong) (auto simp: sla_hist_def)
  then show ?thesis using assms(2) by (simp add: count_levels cong: filter_cong)
qed

lemma sla_ref_len_percentile:
  assumes hist: "sla_hist xs ls" and len: "length xs = levels" "levels \<le> 17"
    and legal: "\<And>l. l \<in> set ls \<Longrightarrow> 0 \<le> l \<and> l \<le> 125 \<and> sla_level l < levels"
    and n: "ls \<noteq> []" "length ls < 65536" "cnt = of_nat (length ls)"
  shows "10 * length (filter (\<lambda>l. int (unat (sla_ref_len xs cnt levels cur)) < l + 3) ls) \<le> length ls"
    and "length ls < 10 * length (filter (\<lambda>l. int (unat (sla_ref_len xs cnt levels cur)) < l + 11) ls)"
proof -
  let ?r = "of_nat (unat cnt * (100 - SLA_K_TH_PERCENTILE) div 100) :: u16"
  have r: "unat ?r = length ls div 10"
    using n(2,3) by (simp add: sla_const unsigned_of_nat take_bit_nat_eq_self)
  have sum: "(\<Sum>j\<in>{i..<levels}. unat (xs ! j)) = length (filter (\<lambda>l. i \<le> sla_level l) ls)" for i
    using sla_hist_sum [OF hist] legal len by blast
  have total: "(\<Sum>j<levels. unat (xs ! j)) = length ls"
    using sum [of 0] by (simp add: atLeast0LessThan)
  obtain i where i: "i < levels" "fst (sla_ref_scan xs ?r levels 0) = i"
      "unat (snd (sla_ref_scan xs ?r levels 0)) = length (filter (\<lambda>l. i \<le> sla_level l) ls)"
      "length ls div 10 < length (filter (\<lambda>l. i \<le> sla_level l) ls)"
      "length (filter (\<lambda>l. Suc i \<le> sla_level l) ls) \<le> length ls div 10"
  proof -
    have "\<not> length ls \<le> length ls div 10" using n(1) by (simp add: div_less_dividend not_le)
    then show ?thesis
      using sla_ref_scan_spec [of 0 xs levels ?r] that n(2) unfolding total sum r by auto
  qed
  have "unat (push_bit 3 (of_nat i :: u8)) = 8 * i"
    using i(1) len(2) by (simp add: push_bit_eq_mult unat_word_ariths unsigned_of_nat take_bit_nat_eq_self)
  moreover have "0 < snd (sla_ref_scan xs ?r levels 0)"
    unfolding word_less_nat_alt i(3) using i(4) by (metis gr_zeroI not_less_zero unat_0)
  ultimately have R: "unat (sla_ref_len xs cnt levels cur) = 8 * i"
    using i(2) by (simp add: sla_ref_len_def sla_get_frame_len_def sla_const split_def Let_def)
  have "filter (\<lambda>l. 8 * int i < l + 3) ls = filter (\<lambda>l. Suc i \<le> sla_level l) ls"
    using legal by (intro filter_cong) (auto simp: sla_level_less Suc_le_eq)
  then show "10 * length (filter (\<lambda>l. int (unat (sla_ref_len xs cnt levels cur)) < l + 3) ls) \<le> length ls"
    using i(5) by (simp add: R)
  have "filter (\<lambda>l. 8 * int i < l + 11) ls = filter (\<lambda>l. i \<le> sla_level l) ls"
    using legal by (intro filter_cong) (auto simp: sla_level_le)
  then show "length ls < 10 * length (filter (\<lambda>l. int (unat (sla_ref_len xs cnt levels cur)) < l + 11) ls)"
    using i(4) by (simp add: R)
qed

section \<open>An observation window\<close>

datatype sla_obs = Obs_bc int | Obs_uc int | Obs_ack int

fun sla_observe :: "sla_obs \<Rightarrow> sla \<Rightarrow> sla option" where
  "sla_observe (Obs_bc l) s = sla_record_bc_frame_len s l"
| "sla_observe (Obs_uc l) s = sla_record_uc_frame_len s l"
| "sla_observe (Obs_ack l) s = sla_record_ack_len s l"

fun sla_observe_all :: "sla_obs list \<Rightarrow> sla \<Rightarrow> sla option" where
  "sla_observe_all [] s = Some s"
| "sla_observe_all (x # xs) s = Option.bind (sla_observe x s) (sla_observe_all xs)"

fun obs_bc :: "sla_obs \<Rightarrow> int list" where
  "obs_bc (Obs_bc l) = [l]" | "obs_bc _ = []"

fun obs_uc :: "sla_obs \<Rightarrow> int list" where
  "obs_uc (Obs_uc l) = [l]" | "obs_uc _ = []"

fun obs_ack :: "sla_obs \<Rightarrow> int list" where
  "obs_ack (Obs_ack l) = [l]" | "obs_ack _ = []"

text \<open>The lengths the radio can produce: a frame without the PHY overhead has at most 125 bytes.\<close>

fun obs_legal :: "sla_conf \<Rightarrow> sla_obs \<Rightarrow> bool" where
  "obs_legal c (Obs_bc l) = (0 \<le> l \<and> l \<le> 125)"
| "obs_legal c (Obs_uc l) = (0 \<le> l \<and> l \<le> 125)"
| "obs_legal c (Obs_ack l) = (0 \<le> l \<and> l + RADIO_PHY_OVERHEAD \<le> int (SLA_MAX_ACK_LEN c))"

definition sla_window :: "nat \<Rightarrow> nat \<Rightarrow> u16 list list \<Rightarrow> u16 list \<Rightarrow> int list \<Rightarrow> bool" where
  "sla_window levels w xss cs ls \<longleftrightarrow> w < length xss \<and> w < length cs \<and>
     length (xss ! w) = levels \<and> sla_hist (xss ! w) ls \<and> cs ! w = of_nat (length ls)"

definition sla_windows :: "sla_conf \<Rightarrow> sla \<Rightarrow> int list \<Rightarrow> int list \<Rightarrow> int list \<Rightarrow> bool" where
  "sla_windows c s bcs ucs acks \<longleftrightarrow>
     sla_window SLA_FRAME_LEN_QUANTIZED_LEVELS (sla_current_window_index s)
       (sla_observed_bc_frame_length s) (sla_observed_bc_frame_count s) bcs \<and>
     sla_window SLA_FRAME_LEN_QUANTIZED_LEVELS (sla_current_window_index s)
       (sla_observed_uc_frame_length s) (sla_observed_uc_frame_count s) ucs \<and>
     sla_window (SLA_ACK_LEN_QUANTIZED_LEVELS c) (sla_current_window_index s)
       (sla_observed_ack_length s) (sla_observed_ack_count s) acks"

text \<open>The shape of the static arrays: the current window exists in each.\<close>

definition sla_shape :: "sla \<Rightarrow> bool" where
  "sla_shape s \<longleftrightarrow> sla_current_window_index s < SLA_OBSERVATION_WINDOWS \<and>
     length (sla_observed_bc_frame_length s) = SLA_OBSERVATION_WINDOWS \<and>
     length (sla_observed_uc_frame_length s) = SLA_OBSERVATION_WINDOWS \<and>
     length (sla_observed_ack_length s) = SLA_OBSERVATION_WINDOWS \<and>
     length (sla_observed_bc_frame_count s) = SLA_OBSERVATION_WINDOWS \<and>
     length (sla_observed_uc_frame_count s) = SLA_OBSERVATION_WINDOWS \<and>
     length (sla_observed_ack_count s) = SLA_OBSERVATION_WINDOWS \<and>
     length (sla_max_hop_distance s) = SLA_OBSERVATION_WINDOWS"

lemma sla_hist_bump:
  assumes "sla_hist xs ls" "length ls < 65535"
  shows "sla_hist (xs[sla_level l := xs ! sla_level l + 1]) (ls @ [l])"
  unfolding sla_hist_def
proof (intro allI impI)
  fix j assume j: "j < length (xs[sla_level l := xs ! sla_level l + 1])"
  have "length (filter (\<lambda>l. sla_level l = j) ls) < 65535"
    using assms(2) length_filter_le [of "\<lambda>l. sla_level l = j" ls] by linarith
  then show "unat (xs[sla_level l := xs ! sla_level l + 1] ! j) =
      length (filter (\<lambda>l. sla_level l = j) (ls @ [l]))"
    using assms(1) j by (cases "sla_level l = j") (auto simp: sla_hist_def unat_add_mod)
qed

lemma sla_window_bump:
  assumes "sla_window levels w xss cs ls" "sla_level l < levels" "length ls < 65535"
  shows "\<exists>xss'. sla_bump w (sla_level l) xss = Some xss' \<and>
    sla_window levels w xss' (cs[w := cs ! w + 1]) (ls @ [l])"
  using assms sla_hist_bump [of "xss ! w" ls l]
  by (simp add: sla_window_def sla_bump_def)

lemma sla_level_frame: "0 \<le> l \<Longrightarrow> l \<le> 125 \<Longrightarrow> sla_level l < SLA_FRAME_LEN_QUANTIZED_LEVELS"
  using sla_level_less [of l 16] by (simp add: sla_const drop_bit_eq_div not_less)

lemma sla_ack_levels: "SLA_ACK_LEN_QUANTIZED_LEVELS c \<le> 17" "SLA_MAX_ACK_LEN c \<le> 70"
  by (simp_all add: sla_const drop_bit_eq_div)

lemma sla_level_ack:
  assumes "0 \<le> l" "l + RADIO_PHY_OVERHEAD \<le> int (SLA_MAX_ACK_LEN c)"
  shows "sla_level l < SLA_ACK_LEN_QUANTIZED_LEVELS c"
proof -
  let ?q = "SLA_ACK_LEN_QUANTIZED_LEVELS c - 1"
  have "l \<le> 125" using assms sla_ack_levels [of c] by (simp add: RADIO_PHY_OVERHEAD_def)
  moreover have "l + 3 \<le> 8 * int ?q"
    using assms by (auto simp: sla_const drop_bit_eq_div split: if_splits)
  ultimately have "\<not> ?q < sla_level l" using assms(1) by (simp add: sla_level_less)
  then show ?thesis by (simp add: SLA_ACK_LEN_QUANTIZED_LEVELS_def)
qed

text \<open>Everything but the observations.\<close>

definition sla_core :: "sla \<Rightarrow> sla" where
  "sla_core s = s\<lparr>sla_observed_bc_frame_length := [], sla_observed_bc_frame_count := [],
     sla_observed_uc_frame_length := [], sla_observed_uc_frame_count := [],
     sla_observed_ack_length := [], sla_observed_ack_count := []\<rparr>"

lemma sla_observe_windows:
  assumes w: "sla_windows c s bcs ucs acks" and legal: "obs_legal c x"
    and "length bcs < 65535" "length ucs < 65535" "length acks < 65535"
  shows "\<exists>s'. sla_observe x s = Some s' \<and> sla_core s' = sla_core s \<and>
    sla_windows c s' (bcs @ obs_bc x) (ucs @ obs_uc x) (acks @ obs_ack x)"
proof (cases x)
  case (Obs_bc l)
  then have "sla_level l < SLA_FRAME_LEN_QUANTIZED_LEVELS" using legal sla_level_frame by simp
  from sla_window_bump [OF _ this assms(3)] w Obs_bc show ?thesis
    by (fastforce simp: sla_windows_def sla_record_bc_frame_len_def sla_level_def sla_core_def Let_def)
next
  case (Obs_uc l)
  then have "sla_level l < SLA_FRAME_LEN_QUANTIZED_LEVELS" using legal sla_level_frame by simp
  from sla_window_bump [OF _ this assms(4)] w Obs_uc show ?thesis
    by (fastforce simp: sla_windows_def sla_record_uc_frame_len_def sla_level_def sla_core_def Let_def)
next
  case (Obs_ack l)
  then have "sla_level l < SLA_ACK_LEN_QUANTIZED_LEVELS c" using legal sla_level_ack by simp
  from sla_window_bump [OF _ this assms(5)] w Obs_ack show ?thesis
    by (fastforce simp: sla_windows_def sla_record_ack_len_def sla_level_def sla_core_def Let_def)
qed

lemma obs_length: "length (obs_bc x) \<le> 1" "length (obs_uc x) \<le> 1" "length (obs_ack x) \<le> 1"
  by (cases x; simp)+

lemma sla_observe_all_windows:
  assumes "sla_windows c s bcs ucs acks" "\<forall>x \<in> set xs. obs_legal c x"
    "length bcs + length xs < 65536" "length ucs + length xs < 65536" "length acks + length xs < 65536"
  shows "\<exists>s'. sla_observe_all xs s = Some s' \<and> sla_core s' = sla_core s \<and>
    sla_windows c s' (bcs @ concat (map obs_bc xs)) (ucs @ concat (map obs_uc xs))
      (acks @ concat (map obs_ack xs))"
  using assms
proof (induction xs arbitrary: s bcs ucs acks)
  case (Cons x xs)
  have lt: "length bcs < 65535" "length ucs < 65535" "length acks < 65535" "obs_legal c x"
    using Cons.prems by auto
  obtain s1 where s1: "sla_observe x s = Some s1" "sla_core s1 = sla_core s"
    "sla_windows c s1 (bcs @ obs_bc x) (ucs @ obs_uc x) (acks @ obs_ack x)"
    using sla_observe_windows [OF Cons.prems(1) lt(4) lt(1-3)] by blast
  have "\<exists>s'. sla_observe_all xs s1 = Some s' \<and> sla_core s' = sla_core s1 \<and>
    sla_windows c s' ((bcs @ obs_bc x) @ concat (map obs_bc xs))
      ((ucs @ obs_uc x) @ concat (map obs_uc xs)) ((acks @ obs_ack x) @ concat (map obs_ack xs))"
    using Cons.prems obs_length [of x] by (intro Cons.IH s1(3)) auto
  then show ?case using s1(1,2) by auto
qed simp

lemma sla_reset_window_windows:
  assumes "sla_shape s"
  shows "sla_windows c (sla_reset_window c (sla_current_window_index s) s) [] [] []"
  using assms
  by (simp add: sla_shape_def sla_windows_def sla_window_def sla_reset_window_def sla_hist_def)

text \<open>
  What a reference length promises about the lengths observed: at most a tenth of them is longer,
  and more than a tenth is longer than the next smaller multiple of eight; with no observation it
  stays as it was.
\<close>

definition sla_covers :: "int list \<Rightarrow> u8 \<Rightarrow> u8 \<Rightarrow> bool" where
  "sla_covers ls cur r \<longleftrightarrow>
     (if ls = [] then r = cur
      else 10 * length (filter (\<lambda>l. int (unat r) < l + RADIO_PHY_OVERHEAD) ls) \<le> length ls \<and>
           length ls < 10 * length (filter (\<lambda>l. int (unat r) - 8 < l + RADIO_PHY_OVERHEAD) ls))"

lemma sla_ref_scan_zero: "\<forall>j < n. xs ! j = 0 \<Longrightarrow> sla_ref_scan xs r n 0 = (0, 0)"
  by (induction n) auto

lemma sla_ref_len_covers:
  assumes w: "sla_window levels w xss cs ls" and len: "levels \<le> 17"
    and legal: "\<forall>l \<in> set ls. 0 \<le> l \<and> l \<le> 125 \<and> sla_level l < levels"
    and n: "length ls < 65536"
  shows "sla_covers ls cur (sla_ref_len (xss ! w) (cs ! w) levels cur)"
proof (cases "ls = []")
  case True
  then have "\<forall>j < levels. xss ! w ! j = 0"
    using w by (auto simp: sla_window_def sla_hist_def unat_eq_zero)
  then show ?thesis
    using True by (simp add: sla_covers_def sla_ref_len_def Let_def sla_ref_scan_zero)
next
  case False
  have w': "sla_hist (xss ! w) ls" "length (xss ! w) = levels" "cs ! w = of_nat (length ls)"
    using w by (auto simp: sla_window_def)
  note perc = sla_ref_len_percentile [OF w'(1,2) len _ False n w'(3), of cur]
  have "(int (unat r) < l + 11) = (int (unat r) - 8 < l + 3)" for r :: u8 and l :: int by linarith
  then show ?thesis
    using perc legal False by (simp add: sla_covers_def RADIO_PHY_OVERHEAD_def)
qed

lemma obs_legal_levels:
  assumes "\<forall>x \<in> set xs. obs_legal c x"
  shows "\<forall>l \<in> set (concat (map obs_bc xs)). 0 \<le> l \<and> l \<le> 125 \<and> sla_level l < SLA_FRAME_LEN_QUANTIZED_LEVELS"
    and "\<forall>l \<in> set (concat (map obs_uc xs)). 0 \<le> l \<and> l \<le> 125 \<and> sla_level l < SLA_FRAME_LEN_QUANTIZED_LEVELS"
    and "\<forall>l \<in> set (concat (map obs_ack xs)). 0 \<le> l \<and> l \<le> 125 \<and> sla_level l < SLA_ACK_LEN_QUANTIZED_LEVELS c"
proof -
  have "\<forall>l \<in> set (obs_bc x). 0 \<le> l \<and> l \<le> 125 \<and> sla_level l < SLA_FRAME_LEN_QUANTIZED_LEVELS"
    and "\<forall>l \<in> set (obs_uc x). 0 \<le> l \<and> l \<le> 125 \<and> sla_level l < SLA_FRAME_LEN_QUANTIZED_LEVELS"
    and "\<forall>l \<in> set (obs_ack x). 0 \<le> l \<and> l \<le> 125 \<and> sla_level l < SLA_ACK_LEN_QUANTIZED_LEVELS c"
    if "obs_legal c x" for x
    using that sla_ack_levels(2) [of c]
    by (cases x; auto simp: sla_level_frame sla_level_ack RADIO_PHY_OVERHEAD_def)+
  with assms show
    "\<forall>l \<in> set (concat (map obs_bc xs)). 0 \<le> l \<and> l \<le> 125 \<and> sla_level l < SLA_FRAME_LEN_QUANTIZED_LEVELS"
    "\<forall>l \<in> set (concat (map obs_uc xs)). 0 \<le> l \<and> l \<le> 125 \<and> sla_level l < SLA_FRAME_LEN_QUANTIZED_LEVELS"
    "\<forall>l \<in> set (concat (map obs_ack xs)). 0 \<le> l \<and> l \<le> 125 \<and> sla_level l < SLA_ACK_LEN_QUANTIZED_LEVELS c"
    by auto
qed

lemma concat_obs_length:
  "length (concat (map obs_bc xs)) \<le> length xs" "length (concat (map obs_uc xs)) \<le> length xs"
  "length (concat (map obs_ack xs)) \<le> length xs"
proof -
  have "length (concat (map f xs)) \<le> length xs" if "\<And>x. length (f x) \<le> 1" for f :: "sla_obs \<Rightarrow> int list"
    using that by (induction xs) (auto intro: add_le_mono [of _ 1, simplified])
  then show "length (concat (map obs_bc xs)) \<le> length xs"
    "length (concat (map obs_uc xs)) \<le> length xs" "length (concat (map obs_ack xs)) \<le> length xs"
    using obs_length by blast+
qed

lemma sla_references:
  assumes "sla_shape s" "\<forall>x \<in> set xs. obs_legal c x" "length xs < 65536"
  shows "\<exists>s'. sla_observe_all xs (sla_reset_window c (sla_current_window_index s) s) = Some s' \<and>
    sla_core s' = sla_core (sla_reset_window c (sla_current_window_index s) s) \<and>
    (\<forall>cb cu ca.
      sla_covers (concat (map obs_bc xs)) cb
        (sla_calculate_next_ref_bc_frame_len (s'\<lparr>sla_curr_ref_bc_frame_len := cb\<rparr>)) \<and>
      sla_covers (concat (map obs_uc xs)) cu
        (sla_calculate_next_ref_uc_frame_len (s'\<lparr>sla_curr_ref_uc_frame_len := cu\<rparr>)) \<and>
      sla_covers (concat (map obs_ack xs)) ca
        (sla_calculate_next_ref_ack_len c (s'\<lparr>sla_curr_ref_ack_len := ca\<rparr>)))"
proof -
  obtain s' where s': "sla_observe_all xs (sla_reset_window c (sla_current_window_index s) s) = Some s'"
    "sla_core s' = sla_core (sla_reset_window c (sla_current_window_index s) s)"
    "sla_windows c s' (concat (map obs_bc xs)) (concat (map obs_uc xs)) (concat (map obs_ack xs))"
    using sla_observe_all_windows [OF sla_reset_window_windows [OF assms(1)] assms(2)] assms(3) by auto
  have lt: "length (concat (map obs_bc xs)) < 65536" "length (concat (map obs_uc xs)) < 65536"
    "length (concat (map obs_ack xs)) < 65536"
    using concat_obs_length [of xs] assms(3) by linarith+
  have l17: "SLA_FRAME_LEN_QUANTIZED_LEVELS \<le> 17" by (simp add: sla_const drop_bit_eq_div)
  note w = s'(3) [unfolded sla_windows_def]
  show ?thesis
    using s'(1,2) sla_ref_len_covers [OF _ l17 obs_legal_levels(1) [OF assms(2)] lt(1)]
      sla_ref_len_covers [OF _ l17 obs_legal_levels(2) [OF assms(2)] lt(2)]
      sla_ref_len_covers [OF _ sla_ack_levels(1) obs_legal_levels(3) [OF assms(2)] lt(3)] w
    unfolding sla_calculate_next_ref_bc_frame_len_def sla_calculate_next_ref_uc_frame_len_def
      sla_calculate_next_ref_ack_len_def Let_def by simp
qed

section \<open>The next timeslot length\<close>

lemma sla_finish_simps [simp]:
  "sla_next_timeslot_length (sla_finish_rapid_eb_broadcasting s) = sla_next_timeslot_length s"
  "sla_triggering_asn (sla_finish_rapid_eb_broadcasting s) = sla_triggering_asn s"
  "tsch_timing_us (sla_finish_rapid_eb_broadcasting s) = tsch_timing_us s"
  "sla_curr_ref_hop_distance (sla_finish_rapid_eb_broadcasting s) = sla_curr_ref_hop_distance s"
  by (simp_all add: sla_finish_rapid_eb_broadcasting_def)

lemma sla_rapid_simps [simp]:
  "sla_next_timeslot_length (sla_rapid_eb_broadcast e s) = sla_next_timeslot_length s"
  "sla_triggering_asn (sla_rapid_eb_broadcast e s) = sla_triggering_asn s"
  "tsch_timing_us (sla_rapid_eb_broadcast e s) = tsch_timing_us s"
  "sla_curr_ref_hop_distance (sla_rapid_eb_broadcast e s) = sla_curr_ref_hop_distance s"
  by (simp_all add: sla_rapid_eb_broadcast_def Let_def)

lemma sla_reset_window_simps [simp]:
  "sla_next_timeslot_length (sla_reset_window c w s) = sla_next_timeslot_length s"
  "sla_triggering_asn (sla_reset_window c w s) = sla_triggering_asn s"
  "tsch_timing_us (sla_reset_window c w s) = tsch_timing_us s"
  "sla_curr_ref_hop_distance (sla_reset_window c w s) = sla_curr_ref_hop_distance s"
  by (simp_all add: sla_reset_window_def)

lemma sla_trigger_simps [simp]:
  "sla_next_timeslot_length (sla_calculate_triggering_asn s a d v) = sla_next_timeslot_length s"
  "tsch_timing_us (sla_calculate_triggering_asn s a d v) = tsch_timing_us s"
  by (simp_all add: sla_calculate_triggering_asn_def Let_def)

text \<open>All timings but the timeslot length are the default ones, and a full exchange fits into it.\<close>

definition sla_timing_ok :: "sla_conf \<Rightarrow> sla \<Rightarrow> bool" where
  "sla_timing_ok c s \<longleftrightarrow> tsch_timing_us s Ts_max_tx = tsch_timeslot_timing_us_10000 c Ts_max_tx \<and>
     tsch_timing_us s Ts_max_ack = tsch_timeslot_timing_us_10000 c Ts_max_ack \<and>
     tsch_timing_us s Ts_tx_ack_delay = tsch_timeslot_timing_us_10000 c Ts_tx_ack_delay \<and>
     8000 \<le> unat (hck_slot_len c)"

definition sla_airtime :: "int \<Rightarrow> nat" where
  "sla_airtime l = SLA_CALCULATE_DURATION (nat (l + RADIO_PHY_OVERHEAD))"

text \<open>The part of the default timeslot that is not reserved for the longest exchange.\<close>

definition sla_exchange :: "sla_conf \<Rightarrow> nat" where
  "sla_exchange c = unat (tsch_timeslot_timing_us_10000 c Ts_max_tx) +
     unat (tsch_timeslot_timing_us_10000 c Ts_tx_ack_delay) + HCK_TSCH_MAX_ACK c"

lemma sla_exchange_bounds:
  "unat (tsch_timeslot_timing_us_10000 c Ts_tx_ack_delay) \<le> 1300"
  "unat (of_nat (HCK_TSCH_MAX_ACK c) :: u16) = HCK_TSCH_MAX_ACK c"
  "HCK_TSCH_MAX_ACK c \<le> 2400" "sla_exchange c \<le> 8000"
  by (simp_all add: sla_exchange_def HCK_TSCH_MAX_ACK_def sla_const unsigned_of_nat take_bit_nat_eq_self)

lemma unat_min: "unat (min x y) = min (unat x) (unat y)" for x y :: "'a::len word"
  by (simp add: min_def word_le_nat_alt)

lemma unat_max: "unat (max x y) = max (unat x) (unat y)" for x y :: "'a::len word"
  by (simp add: max_def word_le_nat_alt)

lemma unat_numeral_4256: "unat (4256 :: u16) = 4256"
  by simp

lemma sla_duration: "unat (of_nat (SLA_CALCULATE_DURATION (unat r)) :: u16) = SLA_CALCULATE_DURATION (unat r)"
  for r :: u8
proof -
  have "SLA_CALCULATE_DURATION (unat r) < 65536"
    using u8_less [of r] by (simp add: SLA_CALCULATE_DURATION_def del: u8_less)
  then show ?thesis by (simp only: unsigned_of_nat) (simp add: take_bit_nat_eq_self)
qed

lemma sla_calculate_timeslot_length_val:
  assumes "sla_timing_ok c s"
  defines "dur \<equiv> \<lambda>r. SLA_CALCULATE_DURATION (unat r)"
  shows "unat (sla_calculate_timeslot_length c s) + sla_exchange c = unat (hck_slot_len c) +
    max (min (dur (sla_next_ref_bc_frame_len s)) 4256)
      (min (dur (sla_next_ref_uc_frame_len s)) 4256 +
       unat (tsch_timeslot_timing_us_10000 c Ts_tx_ack_delay) +
       min (dur (sla_next_ref_ack_len s)) (HCK_TSCH_MAX_ACK c))"
proof -
  let ?d = "\<lambda>r. of_nat (SLA_CALCULATE_DURATION (unat r)) :: u16"
  let ?A = "of_nat (HCK_TSCH_MAX_ACK c) :: u16" and ?D = "tsch_timeslot_timing_us_10000 c Ts_tx_ack_delay"
  let ?bc = "min (?d (sla_next_ref_bc_frame_len s)) 4256"
    and ?uc = "min (?d (sla_next_ref_uc_frame_len s)) 4256" and ?ack = "min (?d (sla_next_ref_ack_len s)) ?A"
  note b = sla_exchange_bounds [of c]
  have slot: "8000 \<le> unat (hck_slot_len c)" using assms(1) by (simp add: sla_timing_ok_def)
  have mins: "unat ?bc = min (dur (sla_next_ref_bc_frame_len s)) 4256"
    "unat ?uc = min (dur (sla_next_ref_uc_frame_len s)) 4256"
    "unat ?ack = min (dur (sla_next_ref_ack_len s)) (HCK_TSCH_MAX_ACK c)"
    by (simp_all add: unat_min dur_def sla_duration b(2))
  have uc: "unat (?uc + ?D + ?ack) = unat ?uc + unat ?D + unat ?ack"
    using b mins(2,3) by (simp add: unat_add_mod)
  have ex: "unat (4256 + ?D + ?A) = sla_exchange c"
    using b by (simp add: unat_add_mod sla_exchange_def)
  define L where "L = max ?bc (?uc + ?D + ?ack)"
  have long: "unat L = max (unat ?bc) (unat ?uc + unat ?D + unat ?ack)"
    unfolding L_def by (simp only: unat_max uc)
  have le: "unat L \<le> sla_exchange c"
    unfolding long mins sla_exchange_def tsch_timeslot_timing_us_10000.simps(11) unat_numeral_4256
    by linarith
  have diff: "unat (4256 + ?D + ?A - L) = sla_exchange c - unat L"
    using le unfolding ex [symmetric] by (simp add: unat_sub word_le_nat_alt)
  have "unat (hck_slot_len c - (4256 + ?D + ?A - L)) =
      unat (hck_slot_len c) - (sla_exchange c - unat L)"
    using slot b(4) diff by (subst unat_sub) (simp_all add: word_le_nat_alt)
  moreover have "sla_calculate_timeslot_length c s = hck_slot_len c - (4256 + ?D + ?A - L)"
    unfolding sla_calculate_timeslot_length_def L_def
    using assms(1) by (simp add: sla_timing_ok_def Let_def)
  ultimately have "unat (sla_calculate_timeslot_length c s) =
      unat (hck_slot_len c) - (sla_exchange c - unat L)" by metis
  then have "unat (sla_calculate_timeslot_length c s) + sla_exchange c =
      unat (hck_slot_len c) + unat L"
    using le b(4) slot by linarith
  then show ?thesis unfolding long mins .
qed

lemma sla_core_simps [simp]:
  "tsch_timing_us (sla_core s) = tsch_timing_us s"
  "sla_next_ref_bc_frame_len (sla_core s) = sla_next_ref_bc_frame_len s"
  "sla_next_ref_uc_frame_len (sla_core s) = sla_next_ref_uc_frame_len s"
  "sla_next_ref_ack_len (sla_core s) = sla_next_ref_ack_len s"
  by (simp_all add: sla_core_def)

lemma sla_airtime_le:
  "l + RADIO_PHY_OVERHEAD \<le> int (unat r) \<Longrightarrow> sla_airtime l \<le> SLA_CALCULATE_DURATION (unat r)"
  "l \<le> 125 \<Longrightarrow> sla_airtime l \<le> 4256"
  "l + RADIO_PHY_OVERHEAD \<le> int (SLA_MAX_ACK_LEN c) \<Longrightarrow> sla_airtime l \<le> HCK_TSCH_MAX_ACK c"
  by (auto simp: sla_airtime_def SLA_CALCULATE_DURATION_def HCK_TSCH_MAX_ACK_def
      RADIO_PHY_OVERHEAD_def nat_le_iff simp flip: uint_nat)

lemma sla_covers_fits:
  assumes "sla_covers ls cur r" "\<And>l. l \<in> set ls \<Longrightarrow> P l \<Longrightarrow> int (unat r) < l + RADIO_PHY_OVERHEAD"
  shows "10 * length (filter P ls) \<le> length ls"
  using assms length_filter_mono [of ls P "\<lambda>l. int (unat r) < l + RADIO_PHY_OVERHEAD"]
  by (fastforce simp: sla_covers_def split: if_splits)

lemma sla_determine_next:
  "sla_next_timeslot_length (sla_determine c e asn dao cs s) =
   sla_calculate_timeslot_length c (s\<lparr>
     sla_next_ref_bc_frame_len := sla_calculate_next_ref_bc_frame_len (s\<lparr>sla_curr_ref_bc_frame_len := sla_next_ref_bc_frame_len s\<rparr>),
     sla_next_ref_uc_frame_len := sla_calculate_next_ref_uc_frame_len (s\<lparr>sla_curr_ref_uc_frame_len := sla_next_ref_uc_frame_len s\<rparr>),
     sla_next_ref_ack_len := sla_calculate_next_ref_ack_len c (s\<lparr>sla_curr_ref_ack_len := sla_next_ref_ack_len s\<rparr>)\<rparr>)"
  by (simp add: sla_determine_def Let_def sla_calculate_timeslot_length_def
      sla_calculate_next_ref_bc_frame_len_def sla_calculate_next_ref_uc_frame_len_def
      sla_calculate_next_ref_ack_len_def)

text \<open>The references that the decision takes and the acknowledgement allowance of the new slot.\<close>

definition sla_new_bc :: "sla \<Rightarrow> u8" where
  "sla_new_bc s = sla_calculate_next_ref_bc_frame_len (s\<lparr>sla_curr_ref_bc_frame_len := sla_next_ref_bc_frame_len s\<rparr>)"

definition sla_new_uc :: "sla \<Rightarrow> u8" where
  "sla_new_uc s = sla_calculate_next_ref_uc_frame_len (s\<lparr>sla_curr_ref_uc_frame_len := sla_next_ref_uc_frame_len s\<rparr>)"

definition sla_new_ack :: "sla_conf \<Rightarrow> sla \<Rightarrow> u8" where
  "sla_new_ack c s = sla_calculate_next_ref_ack_len c (s\<lparr>sla_curr_ref_ack_len := sla_next_ref_ack_len s\<rparr>)"

definition sla_ack_allowance :: "sla_conf \<Rightarrow> sla \<Rightarrow> nat" where
  "sla_ack_allowance c s = min (SLA_CALCULATE_DURATION (unat (sla_new_ack c s))) (HCK_TSCH_MAX_ACK c)"

lemma sla_determine_fits:
  fixes s :: sla and e :: eb_env and asn :: u64 and dao :: u16 and cs :: asn_divisor
  assumes ok: "sla_timing_ok c s"
  defines "n \<equiv> unat (sla_next_timeslot_length (sla_determine c e asn dao cs s))"
    and "free \<equiv> unat (hck_slot_len c) - sla_exchange c"
    and "D \<equiv> unat (tsch_timeslot_timing_us_10000 c Ts_tx_ack_delay)"
  shows "n \<le> unat (hck_slot_len c)"
    and "l \<le> 125 \<Longrightarrow> n < free + sla_airtime l \<Longrightarrow> int (unat (sla_new_bc s)) < l + RADIO_PHY_OVERHEAD"
    and "l \<le> 125 \<Longrightarrow> n < free + sla_airtime l + D + sla_ack_allowance c s \<Longrightarrow>
      int (unat (sla_new_uc s)) < l + RADIO_PHY_OVERHEAD"
    and "l + RADIO_PHY_OVERHEAD \<le> int (SLA_MAX_ACK_LEN c) \<Longrightarrow> sla_ack_allowance c s < sla_airtime l \<Longrightarrow>
      int (unat (sla_new_ack c s)) < l + RADIO_PHY_OVERHEAD"
proof -
  let ?dur = "\<lambda>r. SLA_CALCULATE_DURATION (unat r)" and ?A = "sla_ack_allowance c s"
  have n: "n + sla_exchange c = unat (hck_slot_len c) +
      max (min (?dur (sla_new_bc s)) 4256) (min (?dur (sla_new_uc s)) 4256 + D + ?A)"
    unfolding n_def D_def sla_determine_next sla_new_bc_def [symmetric] sla_new_uc_def [symmetric]
      sla_new_ack_def [symmetric] sla_ack_allowance_def using ok
    by (subst sla_calculate_timeslot_length_val) (simp_all add: sla_timing_ok_def)
  have ex: "sla_exchange c \<le> unat (hck_slot_len c)" "sla_exchange c = 4256 + D + HCK_TSCH_MAX_ACK c"
    using ok sla_exchange_bounds(4) [of c] by (auto simp: sla_timing_ok_def sla_exchange_def D_def)
  have "min (?dur (sla_new_bc s)) 4256 \<le> 4256" "min (?dur (sla_new_uc s)) 4256 \<le> 4256"
    "?A \<le> HCK_TSCH_MAX_ACK c" by (simp_all add: sla_ack_allowance_def)
  then have "max (min (?dur (sla_new_bc s)) 4256) (min (?dur (sla_new_uc s)) 4256 + D + ?A) \<le> sla_exchange c"
    unfolding ex(2) by (intro max.boundedI add_le_mono) auto
  then show "n \<le> unat (hck_slot_len c)" using n by linarith
  have n': "n = free + max (min (?dur (sla_new_bc s)) 4256) (min (?dur (sla_new_uc s)) 4256 + D + ?A)"
    using n ex(1) unfolding free_def by linarith
  show "int (unat (sla_new_bc s)) < l + RADIO_PHY_OVERHEAD" if "l \<le> 125" "n < free + sla_airtime l"
    using that sla_airtime_le(1) [of l "sla_new_bc s"] sla_airtime_le(2) [of l] unfolding n' by linarith
  show "int (unat (sla_new_uc s)) < l + RADIO_PHY_OVERHEAD"
    if "l \<le> 125" "n < free + sla_airtime l + D + sla_ack_allowance c s"
    using that sla_airtime_le(1) [of l "sla_new_uc s"] sla_airtime_le(2) [of l] unfolding n' by linarith
  show "int (unat (sla_new_ack c s)) < l + RADIO_PHY_OVERHEAD"
    if "l + RADIO_PHY_OVERHEAD \<le> int (SLA_MAX_ACK_LEN c)" "sla_ack_allowance c s < sla_airtime l"
    using that sla_airtime_le(1) [of l "sla_new_ack c s"] sla_airtime_le(3) [of l c]
    unfolding sla_ack_allowance_def by linarith
qed

lemma obs_ack_legal:
  assumes "\<forall>x \<in> set xs. obs_legal c x" "l \<in> set (concat (map obs_ack xs))"
  shows "l + RADIO_PHY_OVERHEAD \<le> int (SLA_MAX_ACK_LEN c)"
proof -
  obtain x where "x \<in> set xs" "l \<in> set (obs_ack x)" using assms(2) by auto
  then show ?thesis using assms(1) by (cases x rule: sla_obs.exhaust) auto
qed

text \<open>
  (C10) The slot length the coordinator determines from an observation window fits what it saw: it
  never exceeds the default length, at most a tenth of the broadcast frames observed are too
  long for it, and with an acknowledgement allowance that at most a tenth of the observed
  acknowledgements exceed, at most a tenth of the unicast frames are too long. The time outside the
  exchange (offsets, guard times) stays as in the default timeslot.
\<close>

theorem sla_next_slot_fits_observations:
  assumes "sla_shape s" "sla_timing_ok c s" "\<forall>x \<in> set xs. obs_legal c x" "length xs < 65536"
  shows "\<exists>s1 n A.
    sla_observe_all xs (sla_reset_window c (sla_current_window_index s) s) = Some s1 \<and>
    n = unat (sla_next_timeslot_length (sla_determine c e asn dao cs s1)) \<and>
    n \<le> unat (hck_slot_len c) \<and>
    10 * length (filter (\<lambda>l. n < unat (hck_slot_len c) - sla_exchange c + sla_airtime l)
      (concat (map obs_bc xs))) \<le> length (concat (map obs_bc xs)) \<and>
    10 * length (filter (\<lambda>a. A < sla_airtime a) (concat (map obs_ack xs))) \<le>
      length (concat (map obs_ack xs)) \<and>
    10 * length (filter (\<lambda>l. n < unat (hck_slot_len c) - sla_exchange c + sla_airtime l +
        unat (tsch_timeslot_timing_us_10000 c Ts_tx_ack_delay) + A)
      (concat (map obs_uc xs))) \<le> length (concat (map obs_uc xs))"
proof -
  obtain s1 where s1: "sla_observe_all xs (sla_reset_window c (sla_current_window_index s) s) = Some s1"
    "sla_core s1 = sla_core (sla_reset_window c (sla_current_window_index s) s)"
    and cov: "sla_covers (concat (map obs_bc xs)) (sla_next_ref_bc_frame_len s1) (sla_new_bc s1)"
      "sla_covers (concat (map obs_uc xs)) (sla_next_ref_uc_frame_len s1) (sla_new_uc s1)"
      "sla_covers (concat (map obs_ack xs)) (sla_next_ref_ack_len s1) (sla_new_ack c s1)"
    using sla_references [OF assms(1,3,4)] unfolding sla_new_bc_def sla_new_uc_def sla_new_ack_def
    by blast
  have ok: "sla_timing_ok c s1"
    using arg_cong [OF s1(2), of tsch_timing_us] assms(2) by (simp add: sla_timing_ok_def)
  note fits = sla_determine_fits(1-3) [OF ok, where e = e and asn = asn and dao = dao and cs = cs]
    sla_determine_fits(4) [OF ok]
  have legal: "l \<le> 125" if "l \<in> set (concat (map obs_bc xs)) \<or> l \<in> set (concat (map obs_uc xs))" for l
    using obs_legal_levels(1,2) [OF assms(3)] that by blast
  show ?thesis
  proof (intro exI conjI)
    show "sla_observe_all xs (sla_reset_window c (sla_current_window_index s) s) = Some s1" by (fact s1(1))
    show "10 * length (filter (\<lambda>a. sla_ack_allowance c s1 < sla_airtime a) (concat (map obs_ack xs))) \<le>
      length (concat (map obs_ack xs))"
      by (rule sla_covers_fits [OF cov(3)]) (rule fits(4) [OF obs_ack_legal [OF assms(3)]])
  next
    show "10 * length (filter (\<lambda>l. unat (sla_next_timeslot_length (sla_determine c e asn dao cs s1)) <
        unat (hck_slot_len c) - sla_exchange c + sla_airtime l) (concat (map obs_bc xs))) \<le>
      length (concat (map obs_bc xs))"
      by (rule sla_covers_fits [OF cov(1)]) (rule fits(2) [OF legal], blast)
  next
    show "10 * length (filter (\<lambda>l. unat (sla_next_timeslot_length (sla_determine c e asn dao cs s1)) <
        unat (hck_slot_len c) - sla_exchange c + sla_airtime l +
        unat (tsch_timeslot_timing_us_10000 c Ts_tx_ack_delay) + sla_ack_allowance c s1)
        (concat (map obs_uc xs))) \<le> length (concat (map obs_uc xs))"
      by (rule sla_covers_fits [OF cov(2)]) (rule fits(3) [OF legal], blast)
  qed (rule refl fits(1))+
qed

section \<open>The triggering ASN\<close>

lemma asn_val_of_u64:
  assumes "unat cur < 2 ^ 40"
  shows "asn_val (tsch_asn_init (ucast (drop_bit 32 cur)) (ucast (cur AND 0xFFFFFFFF))) = unat (cur :: u64)"
proof -
  have "unat (drop_bit 32 cur) = unat cur div 4294967296"
    by (simp add: drop_bit_eq_div unat_div)
  moreover from this have "unat (drop_bit 32 cur) < 256" using assms by (simp add: div_less_iff_less_mult)
  ultimately have h: "unat (ucast (drop_bit 32 cur) :: u8) = unat cur div 4294967296"
    by (simp add: unsigned_ucast_eq take_bit_nat_eq_self)
  have "cur AND 0xFFFFFFFF = cur AND mask 32" by (simp add: mask_eq_exp_minus_1)
  then have "unat (cur AND 0xFFFFFFFF) = unat cur mod 4294967296" by (simp add: unat_and_mask)
  then have l: "unat (ucast (cur AND 0xFFFFFFFF) :: u32) = unat cur mod 4294967296"
    by (simp add: unsigned_ucast_eq take_bit_nat_eq_self)
  show ?thesis by (simp add: h l)
qed

text \<open>The hop distance that the new decision uses.\<close>

lemma sla_ref_hop_bounds:
  assumes "s' = sla_calculate_triggering_asn s cur dao cs"
  defines "h \<equiv> unat (sla_curr_ref_hop_distance s')" and "w \<equiv> sla_current_window_index s"
  shows "unat (sla_max_hop_distance s ! w) \<le> h" "unat dao \<le> h" "1 \<le> h"
    "unat (sla_curr_ref_hop_distance s) \<le> h + 1"
    "h \<le> max 1 (max (unat (sla_max_hop_distance s ! w)) (max (unat dao) (unat (sla_curr_ref_hop_distance s) - 1)))"
proof -
  let ?b = "max (sla_max_hop_distance s ! w) dao"
  let ?m = "if ?b \<noteq> 0 then ?b else 1"
  have h: "sla_curr_ref_hop_distance s' =
      (if sla_curr_ref_hop_distance s \<le> ?m then ?m else max (sla_curr_ref_hop_distance s - 1) ?m)"
    by (simp add: assms(1) sla_calculate_triggering_asn_def Let_def w_def)
  have b: "unat ?b = max (unat (sla_max_hop_distance s ! w)) (unat dao)" by (rule unat_max)
  then have m: "unat ?m = max 1 (max (unat (sla_max_hop_distance s ! w)) (unat dao))"
    by (auto simp: unat_eq_zero unat_gt_0 simp flip: unat_gt_0)
  have "h = max (unat (sla_curr_ref_hop_distance s) - 1) (unat ?m)"
  proof (cases "sla_curr_ref_hop_distance s \<le> ?m")
    case True
    then have "unat (sla_curr_ref_hop_distance s) \<le> unat ?m" by (simp only: word_le_nat_alt)
    with True show ?thesis unfolding h_def h if_P [OF True] by linarith
  next
    case False
    then have "unat ?m < unat (sla_curr_ref_hop_distance s)" by (simp only: word_le_nat_alt not_le)
    then have "unat (sla_curr_ref_hop_distance s - 1) = unat (sla_curr_ref_hop_distance s) - 1"
      by (simp add: unat_sub word_le_nat_alt)
    then show ?thesis unfolding h_def h if_not_P [OF False] unat_max by simp
  qed
  then show "unat (sla_max_hop_distance s ! w) \<le> h" "unat dao \<le> h" "1 \<le> h"
    "unat (sla_curr_ref_hop_distance s) \<le> h + 1"
    "h \<le> max 1 (max (unat (sla_max_hop_distance s ! w)) (max (unat dao) (unat (sla_curr_ref_hop_distance s) - 1)))"
    unfolding m by linarith+
qed

lemma sla_triggering_asn_spec:
  assumes "v \<noteq> 0" and "unat cur + 131072 < 2 ^ 40"
    and "unat (sla_max_hop_distance s ! sla_current_window_index s) \<le> 164" "unat dao \<le> 164"
      "unat (sla_curr_ref_hop_distance s) \<le> 165"
    and "s' = sla_calculate_triggering_asn s cur dao (tsch_asn_divisor_init v)"
    and "h = unat (sla_curr_ref_hop_distance s')"
  shows "asn_val (sla_triggering_asn s') mod unat v = 0 \<and>
    unat cur + (h + 1) * ORCHESTRA_CONF_EBSF_PERIOD < asn_val (sla_triggering_asn s') \<and>
    asn_val (sla_triggering_asn s') \<le> unat cur + (h + 1) * ORCHESTRA_CONF_EBSF_PERIOD + unat v \<and>
    unat (sla_max_hop_distance s ! sla_current_window_index s) \<le> h \<and> unat dao \<le> h \<and> 1 \<le> h \<and>
    unat (sla_curr_ref_hop_distance s) \<le> h + 1"
proof -
  note hop = sla_ref_hop_bounds [OF assms(6)]
  have h: "h \<le> 164" using hop(5) assms(3-5,7) by linarith
  let ?e = "(h + 1) * ORCHESTRA_CONF_EBSF_PERIOD"
  have e: "?e \<le> 65505" using h by (simp add: ORCHESTRA_CONF_EBSF_PERIOD_def)
  define t0 where "t0 = tsch_asn_init (ucast (drop_bit 32 cur)) (ucast (cur AND 0xFFFFFFFF))"
  define t1 where "t1 = tsch_asn_inc t0 (ucast (of_nat ?e :: u16))"
  let ?r = "asn_val t1 mod unat v"
  have v: "0 < unat v" "unat v < 65536" using assms(1) by (simp_all add: unat_gt_0)
  have r: "?r < unat v" using v(1) by simp
  have t0: "asn_val t0 = unat cur" unfolding t0_def using assms(2) by (intro asn_val_of_u64) linarith
  have "unat (ucast (of_nat ?e :: u16) :: u32) = ?e"
    using e by (simp only: unat_ucast_16_32 unsigned_of_nat) (simp add: take_bit_nat_eq_self)
  then have t1: "asn_val t1 = unat cur + ?e"
    unfolding t1_def using assms(2) e t0 by (subst asn_val_inc_less) simp_all
  have "unat (of_nat (tsch_asn_mod t1 (tsch_asn_divisor_init v)) :: u16) = ?r"
    using less_trans [OF r v(2)]
    by (simp only: asn_mod_val [OF assms(1)] unsigned_of_nat) (simp add: take_bit_nat_eq_self)
  then have d: "unat (ucast v - ucast (of_nat (tsch_asn_mod t1 (tsch_asn_divisor_init v)) :: u16) :: u32) = unat v - ?r"
    using r by (subst unat_sub) (simp_all add: word_le_nat_alt unat_ucast_16_32)
  have "sla_triggering_asn s' = tsch_asn_inc t1 (ucast v - ucast (of_nat (tsch_asn_mod t1 (tsch_asn_divisor_init v)) :: u16))"
    unfolding assms(6,7) t1_def t0_def
    by (simp add: sla_calculate_triggering_asn_def Let_def tsch_asn_divisor_init_def)
  moreover have "asn_val t1 + (unat v - ?r) < 2 ^ 40" using t1 e v assms(2) by linarith
  ultimately have trig: "asn_val (sla_triggering_asn s') = asn_val t1 + (unat v - ?r)"
    using asn_val_inc_less [of t1] d by metis
  have "asn_val t1 + (unat v - ?r) = unat v * (asn_val t1 div unat v) + unat v"
    using r mult_div_mod_eq [of "unat v" "asn_val t1"] by linarith
  then have "asn_val (sla_triggering_asn s') mod unat v = 0" unfolding trig by simp
  moreover have "unat cur + ?e < asn_val (sla_triggering_asn s')" "asn_val (sla_triggering_asn s') \<le> unat cur + ?e + unat v"
    using trig t1 r by linarith+
  ultimately show ?thesis using hop(1-4) unfolding assms(7) by blast
qed

text \<open>
  (C11) The triggering ASN that the coordinator announces leaves time for the beacons to reach the
  whole network and is the first slot of a common slotframe: it lies more than one beacon
  slotframe per hop (plus one) after the current slot, at most one common slotframe later, and is a
  multiple of the common slotframe length. The hop distance used is at least the largest one
  reported by beacons or by the routing protocol and decreases by at most one per decision.
\<close>

theorem sla_triggering_asn_reachable_and_aligned:
  assumes "v \<noteq> 0" and "unat cur + 131072 < 2 ^ 40"
    and "unat (sla_max_hop_distance s ! sla_current_window_index s) \<le> 164" "unat dao \<le> 164"
      "unat (sla_curr_ref_hop_distance s) \<le> 165"
    and "s' = sla_calculate_triggering_asn s cur dao (tsch_asn_divisor_init v)"
    and "h = unat (sla_curr_ref_hop_distance s')"
  shows "asn_val (sla_triggering_asn s') mod unat v = 0 \<and>
    unat cur + (h + 1) * ORCHESTRA_CONF_EBSF_PERIOD < asn_val (sla_triggering_asn s') \<and>
    asn_val (sla_triggering_asn s') \<le> unat cur + (h + 1) * ORCHESTRA_CONF_EBSF_PERIOD + unat v \<and>
    unat (sla_max_hop_distance s ! sla_current_window_index s) \<le> h \<and> unat dao \<le> h \<and> 1 \<le> h \<and>
    unat (sla_curr_ref_hop_distance s) \<le> h + 1"
  using assms by (rule sla_triggering_asn_spec)

section \<open>Switching\<close>

text \<open>The slot loop over \<open>n\<close> consecutive slots from \<open>asn\<close> on.\<close>

fun sla_slots :: "sla_conf \<Rightarrow> (u16 \<Rightarrow> u32) \<Rightarrow> tsch_asn \<Rightarrow> nat \<Rightarrow> sla \<Rightarrow> sla" where
  "sla_slots c tk asn 0 s = s"
| "sla_slots c tk asn (Suc n) s = sla_slots c tk (tsch_asn_inc asn 1) n (sla_slot_start c tk asn s)"

abbreviation sla_slot_length :: "sla \<Rightarrow> u16" where
  "sla_slot_length s \<equiv> tsch_timing_us s Ts_timeslot_length"

lemma sla_apply_simps [simp]:
  "sla_next_timeslot_length (sla_apply_next_timeslot_length tk s) = sla_next_timeslot_length s"
  "sla_triggering_asn (sla_apply_next_timeslot_length tk s) = sla_triggering_asn s"
  "sla_slot_length (sla_apply_next_timeslot_length tk s) = sla_next_timeslot_length s"
  by (simp_all add: sla_apply_next_timeslot_length_def Let_def)

lemma sla_slot_start_simps [simp]:
  "sla_next_timeslot_length (sla_slot_start c tk asn s) = sla_next_timeslot_length s"
  "sla_triggering_asn (sla_slot_start c tk asn s) = sla_triggering_asn s"
  by (simp_all add: sla_slot_start_def Let_def)

lemma sla_slot_start_length:
  "sla_slot_length (sla_slot_start c tk asn s) =
   (if asn = sla_triggering_asn s then sla_next_timeslot_length s else sla_slot_length s)"
proof -
  have "asn_ls4b asn = asn_ls4b (sla_triggering_asn s) \<and> asn_ms1b asn = asn_ms1b (sla_triggering_asn s)
      \<longleftrightarrow> asn = sla_triggering_asn s" by auto
  then show ?thesis by (auto simp: sla_slot_start_def Let_def)
qed

lemma sla_slot_start_guard:
  assumes "asn_val asn < asn_val (sla_triggering_asn s) + 2 ^ 31"
    and "asn_val (sla_triggering_asn s) < asn_val asn + 2 ^ 31"
  shows "sla_in_guard_time (sla_slot_start c tk asn s) \<longleftrightarrow>
    sla_slot_length s \<noteq> sla_next_timeslot_length s \<and> asn_val asn < asn_val (sla_triggering_asn s) \<and>
    asn_val (sla_triggering_asn s) - asn_val asn \<le> unat (SLA_GUARD_TIME_TIMESLOTS c)"
proof -
  let ?T = "sla_triggering_asn s"
  have sint: "sint (tsch_asn_diff ?T asn) = int (asn_val ?T) - int (asn_val asn)"
    using assms by (intro asn_diff_sint; simp)
  have eq: "asn_ls4b asn = asn_ls4b ?T \<and> asn_ms1b asn = asn_ms1b ?T \<longleftrightarrow> asn_val asn = asn_val ?T"
    unfolding asn_val_inject by auto
  consider "asn_val asn = asn_val ?T" | "asn_val asn < asn_val ?T" | "asn_val ?T < asn_val asn"
    by linarith
  then show ?thesis
  proof cases
    case 1
    then show ?thesis unfolding sla_slot_start_def Let_def eq by simp
  next
    case 2
    define d where "d = asn_val ?T - asn_val asn"
    have "asn_val ?T + 2 ^ 40 - asn_val asn = d + 256 * 2 ^ 32" using 2 by (simp add: d_def)
    moreover have "d < 2 ^ 32" using assms(2) by (simp add: d_def)
    ultimately have "unat (tsch_asn_diff ?T asn) = d"
      unfolding asn_diff_val by (simp only: mod_mult_self1 mod_less)
    then have "unat (tsch_asn_diff ?T asn) = asn_val ?T - asn_val asn" unfolding d_def .
    moreover have "0 < sint (tsch_asn_diff ?T asn)" "asn_val asn \<noteq> asn_val ?T" unfolding sint using 2 by simp_all
    ultimately show ?thesis
      unfolding sla_slot_start_def Let_def eq using 2 by (simp add: word_le_nat_alt conj_commute)
  next
    case 3
    then have "\<not> 0 < sint (tsch_asn_diff ?T asn)" "asn_val asn \<noteq> asn_val ?T" unfolding sint by simp_all
    then show ?thesis unfolding sla_slot_start_def Let_def eq using 3 by simp
  qed
qed

lemma asn_val_next: "asn_val a + 1 < 2 ^ 40 \<Longrightarrow> asn_val (tsch_asn_inc a 1) = asn_val a + 1"
  using asn_val_inc_less [of a 1] by simp

lemma sla_slots_length:
  assumes "asn_val asn + n < 2 ^ 40"
  shows "sla_slot_length (sla_slots c tk asn n s) =
    (if asn_val asn \<le> asn_val (sla_triggering_asn s) \<and> asn_val (sla_triggering_asn s) < asn_val asn + n
     then sla_next_timeslot_length s else sla_slot_length s)"
  using assms
proof (induction n arbitrary: asn s)
  case (Suc n)
  have nxt: "asn_val (tsch_asn_inc asn 1) = asn_val asn + 1" using Suc.prems by (intro asn_val_next) simp
  have "asn = sla_triggering_asn s \<longleftrightarrow> asn_val asn = asn_val (sla_triggering_asn s)"
    by (simp add: asn_val_inject)
  then show ?case
    using Suc.IH [of "tsch_asn_inc asn 1" "sla_slot_start c tk asn s"] Suc.prems
    unfolding nxt sla_slots.simps sla_slot_start_length sla_slot_start_simps
    by (auto split: if_splits)
qed auto

lemma sla_slots_guard:
  assumes "asn_val asn + n + 1 < 2 ^ 40" "asn_val asn + n < asn_val (sla_triggering_asn s) + 2 ^ 31"
    "asn_val (sla_triggering_asn s) < asn_val asn + 2 ^ 31"
  shows "sla_in_guard_time (sla_slots c tk asn (Suc n) s) \<longleftrightarrow>
    sla_slot_length s \<noteq> sla_next_timeslot_length s \<and> asn_val asn + n < asn_val (sla_triggering_asn s) \<and>
    asn_val (sla_triggering_asn s) - (asn_val asn + n) \<le> unat (SLA_GUARD_TIME_TIMESLOTS c)"
  using assms
proof (induction n arbitrary: asn s)
  case 0
  then show ?case using sla_slot_start_guard [of asn s c tk] by simp
next
  case (Suc n)
  have nxt: "asn_val (tsch_asn_inc asn 1) = asn_val asn + 1" using Suc.prems by (intro asn_val_next) simp
  have eq: "asn = sla_triggering_asn s \<longleftrightarrow> asn_val asn = asn_val (sla_triggering_asn s)"
    by (simp add: asn_val_inject)
  have "sla_in_guard_time (sla_slots c tk (tsch_asn_inc asn 1) (Suc n) (sla_slot_start c tk asn s)) \<longleftrightarrow>
    sla_slot_length (sla_slot_start c tk asn s) \<noteq> sla_next_timeslot_length s \<and>
    asn_val asn + Suc n < asn_val (sla_triggering_asn s) \<and>
    asn_val (sla_triggering_asn s) - (asn_val asn + Suc n) \<le> unat (SLA_GUARD_TIME_TIMESLOTS c)"
    using Suc.IH [of "tsch_asn_inc asn 1" "sla_slot_start c tk asn s"] Suc.prems unfolding nxt by simp
  then show ?case unfolding sla_slots.simps(2) [of c tk asn "Suc n"] sla_slot_start_length eq by auto
qed

text \<open>
  (C12) A node switches its timeslot length at the announced slot and at no other: over any run of
  consecutive slots it keeps the old length through the slot before the triggering ASN and has the
  announced one from the triggering ASN on. It stays silent (guard time) exactly in
  the last \<^verbatim>\<open>SLA_GUARD_TIME_TIMESLOTS\<close> slots before the switch, and only when the length will change.
\<close>

theorem sla_switch_at_triggering_asn:
  assumes "asn_val asn + n + 1 < 2 ^ 40" "asn_val asn + n < asn_val (sla_triggering_asn s) + 2 ^ 31"
    "asn_val asn \<le> asn_val (sla_triggering_asn s)" "asn_val (sla_triggering_asn s) < asn_val asn + 2 ^ 31"
    and "s' = sla_slots c tk asn (Suc n) s"
  shows "sla_slot_length s' = (if asn_val asn + n < asn_val (sla_triggering_asn s)
      then sla_slot_length s else sla_next_timeslot_length s) \<and>
    (sla_in_guard_time s' \<longleftrightarrow> sla_slot_length s \<noteq> sla_next_timeslot_length s \<and>
      asn_val asn + n < asn_val (sla_triggering_asn s) \<and>
      asn_val (sla_triggering_asn s) \<le> asn_val asn + n + unat (SLA_GUARD_TIME_TIMESLOTS c))"
proof -
  have "sla_slot_length s' = (if asn_val asn + n < asn_val (sla_triggering_asn s)
      then sla_slot_length s else sla_next_timeslot_length s)"
    unfolding assms(5) using assms(1,3) by (subst sla_slots_length) auto
  moreover have "sla_in_guard_time s' \<longleftrightarrow> sla_slot_length s \<noteq> sla_next_timeslot_length s \<and>
      asn_val asn + n < asn_val (sla_triggering_asn s) \<and>
      asn_val (sla_triggering_asn s) \<le> asn_val asn + n + unat (SLA_GUARD_TIME_TIMESLOTS c)"
    unfolding assms(5) sla_slots_guard [OF assms(1,2,4)] by auto
  ultimately show ?thesis by blast
qed

section \<open>Witnesses\<close>

definition sla_conf_asap :: sla_conf where
  "sla_conf_asap = \<lparr>with_upa = False, with_ost = False, triple_cca = False, cca_enabled = False,
     rx_wait = 2200, hck_slot_len = 10000\<rparr>"

definition eb_env_asap :: eb_env where
  "eb_env_asap = \<lparr>env_is_associated = True, env_eb_period = 1, env_dodag_joined = True,
     env_leaf_mode = False, env_eb_queue_count = 0, env_create_eb = 1, env_add_packet = True,
     env_current_asn = tsch_asn_init 0 0\<rparr>"

theorem sla_next_slot_fits_observations_witness:
  "\<exists>s1 n. sla_observe_all [Obs_bc 50, Obs_uc 100, Obs_ack 20]
      (sla_reset_window sla_conf_asap 0 (sla_reset sla_conf_asap (\<lambda>_. 0) (sla_boot sla_conf_asap))) = Some s1 \<and>
    n = unat (sla_next_timeslot_length (sla_determine sla_conf_asap eb_env_asap 0 0 (tsch_asn_divisor_init 31) s1)) \<and>
    n \<le> 10000 \<and> 2344 + sla_airtime 50 \<le> n"
proof -
  let ?s = "sla_reset sla_conf_asap (\<lambda>_. 0) (sla_boot sla_conf_asap)"
  have idx: "sla_current_window_index ?s = 0" by (simp add: sla_reset_def sla_boot_def)
  have "sla_shape ?s" by (simp add: sla_shape_def sla_reset_def sla_boot_def sla_const)
  moreover have "sla_timing_ok sla_conf_asap ?s"
    by (simp add: sla_timing_ok_def sla_reset_def sla_conf_asap_def)
  moreover have "\<forall>x \<in> set [Obs_bc 50, Obs_uc 100, Obs_ack 20]. obs_legal sla_conf_asap x"
    by (simp add: sla_conf_asap_def sla_const)
  ultimately show ?thesis
    using sla_next_slot_fits_observations [of ?s sla_conf_asap "[Obs_bc 50, Obs_uc 100, Obs_ack 20]" eb_env_asap 0 0
        "tsch_asn_divisor_init 31"]
    unfolding idx
    by (auto simp: sla_conf_asap_def sla_exchange_def HCK_TSCH_MAX_ACK_def sla_const split: if_splits)
qed

theorem sla_triggering_asn_reachable_and_aligned_witness:
  "\<exists>h. asn_val (sla_triggering_asn (sla_calculate_triggering_asn (sla_boot sla_conf_asap) 1000 3
      (tsch_asn_divisor_init 31))) mod 31 = 0 \<and> 3 \<le> h \<and>
    1000 + (h + 1) * 397 < asn_val (sla_triggering_asn (sla_calculate_triggering_asn (sla_boot sla_conf_asap) 1000 3
      (tsch_asn_divisor_init 31)))"
proof -
  let ?b = "sla_boot sla_conf_asap"
  let ?s' = "sla_calculate_triggering_asn ?b 1000 3 (tsch_asn_divisor_init 31)"
  have h: "unat (sla_max_hop_distance ?b ! sla_current_window_index ?b) \<le> 164"
    "unat (sla_curr_ref_hop_distance ?b) \<le> 165"
    by (simp_all add: sla_boot_def sla_const SLA_INITIAL_HOP_DISTANCE_def)
  show ?thesis
    using sla_triggering_asn_reachable_and_aligned [of 31 1000 ?b 3, OF _ _ h(1) _ h(2) refl refl]
    by (intro exI [of _ "unat (sla_curr_ref_hop_distance ?s')"]) (simp add: ORCHESTRA_CONF_EBSF_PERIOD_def)
qed

theorem sla_switch_at_triggering_asn_witness:
  "\<exists>s'. s' = sla_slots sla_conf_asap (\<lambda>_. 0) (tsch_asn_init 0 8) (Suc 2)
      ((sla_boot sla_conf_asap)\<lparr>sla_triggering_asn := tsch_asn_init 0 10, sla_next_timeslot_length := 7000\<rparr>) \<and>
    sla_slot_length s' = 7000"
  using sla_switch_at_triggering_asn [of "tsch_asn_init 0 8" 2
    "(sla_boot sla_conf_asap)\<lparr>sla_triggering_asn := tsch_asn_init 0 10, sla_next_timeslot_length := 7000\<rparr>"
    _ sla_conf_asap "\<lambda>_. 0", OF _ _ _ _ refl]
  by simp

end
