(* ===== verification/Asap_Sla_Network.thy ===== *)
theory Asap_Sla_Network
  imports Asap_Sla
begin

text \<open>
  SLA in a network: the coordinator (node 0) decides, beacons carry its decisions from node to node, and
  every node obeys the last one it heard. Nothing is assumed of the timing: any node may miss any slot, because
  it sleeps, is late or skips slots after a batch of UPA; a beacon may be processed any time after it was sent, any
  number of times or never; nodes may leave at any time; and the coordinator may decide at any time,
  from any value of the current ASN, also before its last decision took effect.
\<close>

section \<open>The network\<close>




definition note_missed :: "nat set \<Rightarrow> nat \<Rightarrow> bool \<Rightarrow> nat set" where
  "note_missed M i late = (if late then insert i M else M - {i})"

lemma note_missed_iff [simp]: "j \<in> note_missed M i late \<longleftrightarrow> (if j = i then late else j \<in> M)"
  by (simp add: note_missed_def)




section \<open>Plans\<close>

text \<open>What a node announces and obeys: the triggering ASN, the next and the current length.\<close>

definition sla_plan :: "sla \<Rightarrow> tsch_asn \<times> u16 \<times> u16" where
  "sla_plan s = (sla_triggering_asn s, sla_next_timeslot_length s, sla_slot_length s)"

definition ies_plan :: "sla_ies \<Rightarrow> tsch_asn \<times> u16 \<times> u16" where
  "ies_plan e = (ie_sla_triggering_asn e, ie_sla_next_timeslot_len e, ie_sla_curr_timeslot_len e)"

lemma sla_eb_ies_plan [simp]: "ies_plan (sla_eb_ies s) = sla_plan s"
  by (simp add: ies_plan_def sla_eb_ies_def sla_plan_def)

lemma sla_core_plan [simp]: "sla_plan (sla_core s) = sla_plan s"
  by (simp add: sla_plan_def sla_core_def)







section \<open>The invariant\<close>

















text \<open>
  A decision that comes after the last announced slot announces a later one, so the announced slots are distinct when the
  coordinator decides less often than its announcements need.
\<close>

lemma late_decision_is_new:
  assumes "v \<noteq> 0" "asn_val (sla_triggering_asn s) \<le> unat cur" "unat cur + 131072 < 2 ^ 40"
    and "unat (sla_max_hop_distance s ! sla_current_window_index s) \<le> 164" "unat dao \<le> 164"
    and "unat (sla_curr_ref_hop_distance s) \<le> 165"
  shows "asn_val (sla_triggering_asn s) <
    asn_val (sla_triggering_asn (sla_determine c e cur dao (tsch_asn_divisor_init v) s))"
proof -
  have "\<exists>s0. sla_triggering_asn (sla_determine c e cur dao (tsch_asn_divisor_init v) s) =
      sla_triggering_asn (sla_calculate_triggering_asn s0 cur dao (tsch_asn_divisor_init v)) \<and>
    sla_current_window_index s0 = sla_current_window_index s \<and> sla_max_hop_distance s0 = sla_max_hop_distance s \<and>
    sla_curr_ref_hop_distance s0 = sla_curr_ref_hop_distance s"
    by (rule exI) (auto simp: sla_determine_def Let_def)
  then obtain s0 where s0: "sla_triggering_asn (sla_determine c e cur dao (tsch_asn_divisor_init v) s) =
      sla_triggering_asn (sla_calculate_triggering_asn s0 cur dao (tsch_asn_divisor_init v))"
    "sla_current_window_index s0 = sla_current_window_index s" "sla_max_hop_distance s0 = sla_max_hop_distance s"
    "sla_curr_ref_hop_distance s0 = sla_curr_ref_hop_distance s" by blast
  show ?thesis
    unfolding s0(1)
    using sla_triggering_asn_spec [OF assms(1,3) _ assms(5) _ refl refl, of s0] assms(2,4,6) s0(2-4) by auto
qed

section \<open>Properties\<close>



end
