(* ===== verification/Nbr_Table.thy ===== *)
theory Nbr_Table
  imports Lib_List Lib_Memb
begin

text \<open>
  The neighbor tables of \<^verbatim>\<open>os/net/nbr-table.c\<close>: up to eight tables share one set of
  neighbor addresses (keys). A key is its index in the block pool \<^verbatim>\<open>neighbor_addr_mem\<close>,
  an item of a table is the index of its key, tables are named by \<open>tid\<close>. The key list is the sequence
  that the contract of the lists (\<open>linked_seq\<close>) promises. Callbacks are other modules' code: the
  calls made are recorded in \<open>nt_calls\<close>.

  \<open>nbr_map s t\<close> is the finite map from addresses to items that table \<open>t\<close> stands for.
\<close>

type_synonym tid = nat

record nbr_table =
  nt_index :: nat
  nt_item_size :: nat
  nt_callback :: bool

record nbr_state =
  nt_mem :: memb
  nt_lladdr :: "linkaddr list"
  nt_keys :: "nat list"
  nt_used_map :: "u8 list"
  nt_locked_map :: "u8 list"
  nt_all_tables :: "tid option list"
  nt_num_tables :: nat
  nt_tab :: "tid \<Rightarrow> nbr_table"
  nt_data :: "tid \<Rightarrow> nat \<Rightarrow> u8 list"
  nt_calls :: "(tid \<times> nat) list"

definition MAX_NUM_TABLES :: nat where "MAX_NUM_TABLES = 8"

definition linkaddr_null :: linkaddr where "linkaddr_null = replicate 8 0"

section \<open>Keys, items and indices\<close>

definition index_from_key :: "nat option \<Rightarrow> int" where
  "index_from_key key = (case key of None \<Rightarrow> -1 | Some k \<Rightarrow> int k)"

definition key_from_index :: "int \<Rightarrow> nat option" where
  "key_from_index index = (if index \<noteq> -1 then Some (nat index) else None)"

definition item_from_index :: "tid option \<Rightarrow> int \<Rightarrow> nat option" where
  "item_from_index table index = (if table \<noteq> None \<and> index \<noteq> -1 then Some (nat index) else None)"

definition index_from_item :: "tid option \<Rightarrow> nat option \<Rightarrow> int" where
  "index_from_item table item = (if table \<noteq> None \<and> item \<noteq> None then int (the item) else -1)"

definition item_from_key :: "tid option \<Rightarrow> nat option \<Rightarrow> nat option" where
  "item_from_key table key = item_from_index table (index_from_key key)"

definition key_from_item :: "tid option \<Rightarrow> nat option \<Rightarrow> nat option" where
  "key_from_item table item = key_from_index (index_from_item table item)"

definition lladdr_or_null :: "linkaddr option \<Rightarrow> linkaddr" where
  "lladdr_or_null a = (case a of None \<Rightarrow> linkaddr_null | Some x \<Rightarrow> x)"

fun key_scan :: "linkaddr list \<Rightarrow> linkaddr \<Rightarrow> nat list \<Rightarrow> int" where
  "key_scan lls a [] = -1"
| "key_scan lls a (k # ks) = (if a = lls ! k then index_from_key (Some k) else key_scan lls a ks)"

definition index_from_lladdr :: "nbr_state \<Rightarrow> linkaddr option \<Rightarrow> int" where
  "index_from_lladdr s lladdr = key_scan (nt_lladdr s) (lladdr_or_null lladdr) (nt_keys s)"

text \<open>The successor in the key list (\<^verbatim>\<open>list_item_next\<close>; NULL has none).\<close>

fun key_next :: "nat list \<Rightarrow> nat option \<Rightarrow> nat option" where
  "key_next (x # y # ys) (Some k) = (if x = k then Some y else key_next (y # ys) (Some k))"
| "key_next _ _ = None"

definition key_head :: "nat list \<Rightarrow> nat option" where
  "key_head ks = (case ks of [] \<Rightarrow> None | k # _ \<Rightarrow> Some k)"

definition nbr_get_bit :: "nbr_state \<Rightarrow> u8 list \<Rightarrow> tid option \<Rightarrow> nat option \<Rightarrow> bool" where
  "nbr_get_bit s bitmap table item =
     (let item_index = index_from_item table item in
      if table \<noteq> None \<and> item_index \<noteq> -1
      then bit (bitmap ! nat item_index) (nt_index (nt_tab s (the table)))
      else False)"

definition nbr_set_bit ::
  "nbr_state \<Rightarrow> u8 list \<Rightarrow> tid option \<Rightarrow> nat option \<Rightarrow> bool \<Rightarrow> int \<times> u8 list" where
  "nbr_set_bit s bitmap table item value =
     (let item_index = index_from_item table item in
      if table \<noteq> None \<and> item_index \<noteq> -1
      then
        let i = nat item_index; b = nt_index (nt_tab s (the table)) in
        (1, bitmap[i := (if value then set_bit b (bitmap ! i) else unset_bit b (bitmap ! i))])
      else (0, bitmap))"

section \<open>Replacement\<close>

text \<open>One iteration per table pointer; the callbacks called are appended to the record.\<close>

fun remove_key_loop :: "nbr_state \<Rightarrow> nat \<Rightarrow> tid option list \<Rightarrow> (tid \<times> nat) list" where
  "remove_key_loop s k [] = []"
| "remove_key_loop s k (t # ts) =
     (if t \<noteq> None \<and> nt_callback (nt_tab s (the t)) \<and>
         nbr_get_bit s (nt_used_map s) t (item_from_key t (Some k))
      then (the t, k) # remove_key_loop s k ts
      else remove_key_loop s k ts)"

definition remove_key :: "nbr_state \<Rightarrow> nat \<Rightarrow> nbr_state" where
  "remove_key s k =
     s\<lparr>nt_calls := nt_calls s @ remove_key_loop s k (nt_all_tables s),
       nt_used_map := (nt_used_map s)[nat (index_from_key (Some k)) := 0],
       nt_keys := seq_remove k (nt_keys s)\<rparr>"

fun used_count_loop :: "nat \<Rightarrow> nat \<Rightarrow> nat" where
  "used_count_loop used used_count =
     (if used \<noteq> 0
      then used_count_loop (used div 2) (if used mod 2 = 1 then used_count + 1 else used_count)
      else used_count)"

declare used_count_loop.simps [simp del]

definition used_count :: "nbr_state \<Rightarrow> nat \<Rightarrow> nat" where
  "used_count s k = used_count_loop (unat (nt_used_map s ! k)) 0"

fun least_used_scan :: "nbr_state \<Rightarrow> nat list \<Rightarrow> nat option \<Rightarrow> nat \<Rightarrow> nat option" where
  "least_used_scan s [] least cnt = least"
| "least_used_scan s (k # ks) least cnt =
     (if nt_locked_map s ! k = 0 then
        let uc = used_count s k in
        if least = None \<or> uc < cnt then
          (if uc = 0 then Some k else least_used_scan s ks (Some k) uc)
        else least_used_scan s ks least cnt
      else least_used_scan s ks least cnt)"

text \<open>
  \<open>policy\<close>: \<open>None\<close> when \<^verbatim>\<open>NBR_TABLE_FIND_REMOVABLE\<close> is not defined, else what it answers.
\<close>

definition nbr_table_allocate ::
  "linkaddr option option \<Rightarrow> nbr_state \<Rightarrow> nat option \<times> nbr_state" where
  "nbr_table_allocate policy s =
     (case memb_alloc (nt_mem s) of
        (Some p, m) \<Rightarrow>
          (Some (nat ((p - memb_mem (nt_mem s)) div int (memb_size (nt_mem s)))), s\<lparr>nt_mem := m\<rparr>)
      | (None, m) \<Rightarrow>
          (case policy of
             Some None \<Rightarrow> (None, s)
           | _ \<Rightarrow>
             let (least0, s1) =
               (case policy of
                  Some (Some lladdr) \<Rightarrow>
                    let index = index_from_lladdr s (Some lladdr) in
                    if index \<noteq> -1
                    then (key_from_index index,
                          if nt_locked_map s ! nat index \<noteq> 0
                          then s\<lparr>nt_locked_map := (nt_locked_map s)[nat index := 0]\<rparr> else s)
                    else (None, s)
                | _ \<Rightarrow> (None, s));
               least = (if least0 = None then least_used_scan s1 (nt_keys s1) None 0 else least0)
             in case least of
                  None \<Rightarrow> (None, s1)
                | Some k \<Rightarrow> (Some k, remove_key s1 k)))"

section \<open>Tables\<close>

definition nbr_table_is_registered :: "nbr_state \<Rightarrow> tid option \<Rightarrow> bool" where
  "nbr_table_is_registered s table =
     (table \<noteq> None \<and> nt_index (nt_tab s (the table)) < MAX_NUM_TABLES \<and>
      nt_all_tables s ! nt_index (nt_tab s (the table)) = table)"

definition nbr_table_register :: "nbr_state \<Rightarrow> tid \<Rightarrow> bool \<Rightarrow> int \<times> nbr_state" where
  "nbr_table_register s t callback =
     (if nbr_table_is_registered s (Some t)
      then (1, s\<lparr>nt_tab := (nt_tab s)(t := (nt_tab s t)\<lparr>nt_callback := callback\<rparr>)\<rparr>)
      else if nt_num_tables s < MAX_NUM_TABLES
      then (1, s\<lparr>nt_tab := (nt_tab s)(t := (nt_tab s t)
                   \<lparr>nt_index := nt_num_tables s, nt_callback := callback\<rparr>),
                 nt_num_tables := nt_num_tables s + 1,
                 nt_all_tables := (nt_all_tables s)[nt_num_tables s := Some t]\<rparr>)
      else (0, s))"

text \<open>The do-while loop of \<^verbatim>\<open>nbr_table_next\<close>.\<close>

partial_function (option) nbr_table_next_loop ::
  "nbr_state \<Rightarrow> tid option \<Rightarrow> nat option \<Rightarrow> nat option option" where
  "nbr_table_next_loop s table item =
     (let item' = item_from_key table (key_next (nt_keys s) (key_from_item table item)) in
      if item' \<noteq> None \<and> \<not> nbr_get_bit s (nt_used_map s) table item'
      then nbr_table_next_loop s table item' else Some item')"

definition nbr_table_next :: "nbr_state \<Rightarrow> tid option \<Rightarrow> nat option \<Rightarrow> nat option option" where
  "nbr_table_next s table item = nbr_table_next_loop s table item"

definition nbr_table_head :: "nbr_state \<Rightarrow> tid option \<Rightarrow> nat option option" where
  "nbr_table_head s table =
     (let item = item_from_key table (key_head (nt_keys s)) in
      if nbr_get_bit s (nt_used_map s) table item then Some item else nbr_table_next s table item)"

definition nbr_table_add_lladdr ::
  "linkaddr option option \<Rightarrow> nbr_state \<Rightarrow> tid option \<Rightarrow> linkaddr option \<Rightarrow> nat option \<times> nbr_state" where
  "nbr_table_add_lladdr policy s table lladdr =
     (if table = None then (None, s)
      else
        let index0 = index_from_lladdr s lladdr;
            (ok, index, s1) =
              (if index0 = -1 then
                 (case nbr_table_allocate policy s of
                    (None, s') \<Rightarrow> (False, index0, s')
                  | (Some k, s') \<Rightarrow>
                      (True, index_from_key (Some k),
                       s'\<lparr>nt_keys := seq_add k (nt_keys s'),
                          nt_lladdr := (nt_lladdr s')[k := lladdr_or_null lladdr]\<rparr>))
               else (True, index0, s))
        in if \<not> ok then (None, s1)
           else
             let item = item_from_index table index;
                 t = the table; i = the item;
                 s2 = s1\<lparr>nt_data := (nt_data s1)
                   (t := (nt_data s1 t)(i := replicate (nt_item_size (nt_tab s1 t)) 0))\<rparr>
             in (item, s2\<lparr>nt_used_map := snd (nbr_set_bit s2 (nt_used_map s2) table item True)\<rparr>))"

definition nbr_table_get_from_lladdr ::
  "nbr_state \<Rightarrow> tid option \<Rightarrow> linkaddr option \<Rightarrow> nat option" where
  "nbr_table_get_from_lladdr s table lladdr =
     (let item = item_from_index table (index_from_lladdr s lladdr) in
      if nbr_get_bit s (nt_used_map s) table item then item else None)"

definition nbr_table_remove :: "nbr_state \<Rightarrow> tid option \<Rightarrow> nat option \<Rightarrow> int \<times> nbr_state" where
  "nbr_table_remove s table item =
     (let (ret, used) = nbr_set_bit s (nt_used_map s) table item False;
          (_, locked) = nbr_set_bit s (nt_locked_map s) table item False
      in (ret, s\<lparr>nt_used_map := used, nt_locked_map := locked\<rparr>))"

definition nbr_table_lock :: "nbr_state \<Rightarrow> tid option \<Rightarrow> nat option \<Rightarrow> int \<times> nbr_state" where
  "nbr_table_lock s table item =
     (let (ret, locked) = nbr_set_bit s (nt_locked_map s) table item True
      in (ret, s\<lparr>nt_locked_map := locked\<rparr>))"

definition nbr_table_unlock :: "nbr_state \<Rightarrow> tid option \<Rightarrow> nat option \<Rightarrow> int \<times> nbr_state" where
  "nbr_table_unlock s table item =
     (let (ret, locked) = nbr_set_bit s (nt_locked_map s) table item False
      in (ret, s\<lparr>nt_locked_map := locked\<rparr>))"

definition nbr_table_get_lladdr :: "nbr_state \<Rightarrow> tid option \<Rightarrow> nat option \<Rightarrow> linkaddr option" where
  "nbr_table_get_lladdr s table item =
     (case key_from_item table item of None \<Rightarrow> None | Some k \<Rightarrow> Some (nt_lladdr s ! k))"

section \<open>The maps that the tables stand for\<close>

definition nbr_tables_ok :: "tid option list \<Rightarrow> nat \<Rightarrow> (tid \<Rightarrow> nbr_table) \<Rightarrow> bool" where
  "nbr_tables_ok all_tables num tab \<longleftrightarrow> length all_tables = MAX_NUM_TABLES \<and> num \<le> MAX_NUM_TABLES \<and>
     (\<forall>i < MAX_NUM_TABLES. case all_tables ! i of None \<Rightarrow> num \<le> i
        | Some t \<Rightarrow> i < num \<and> nt_index (tab t) = i)"

definition nbr_wf :: "nbr_state \<Rightarrow> bool" where
  "nbr_wf s \<longleftrightarrow> memb_wf (nt_mem s) \<and> length (nt_lladdr s) = memb_num (nt_mem s) \<and>
     length (nt_used_map s) = memb_num (nt_mem s) \<and> length (nt_locked_map s) = memb_num (nt_mem s) \<and>
     distinct (nt_keys s) \<and>
     (\<forall>k. k \<in> set (nt_keys s) \<longleftrightarrow> k < memb_num (nt_mem s) \<and> memb_used (nt_mem s) ! k) \<and>
     inj_on (\<lambda>k. nt_lladdr s ! k) (set (nt_keys s)) \<and>
     (\<forall>k < memb_num (nt_mem s). k \<notin> set (nt_keys s) \<longrightarrow> nt_used_map s ! k = 0) \<and>
     nbr_tables_ok (nt_all_tables s) (nt_num_tables s) (nt_tab s)"

text \<open>Table \<open>t\<close> uses neighbor \<open>k\<close>.\<close>

definition nbr_uses :: "nbr_state \<Rightarrow> tid \<Rightarrow> nat \<Rightarrow> bool" where
  "nbr_uses s t k = bit (nt_used_map s ! k) (nt_index (nt_tab s t))"

definition nbr_map :: "nbr_state \<Rightarrow> tid \<Rightarrow> linkaddr \<Rightarrow> nat option" where
  "nbr_map s t a = find (\<lambda>k. nt_lladdr s ! k = a \<and> nbr_uses s t k) (nt_keys s)"

lemma key_scan_find:
  "key_scan lls a ks = (case find (\<lambda>k. lls ! k = a) ks of None \<Rightarrow> -1 | Some k \<Rightarrow> int k)"
  by (induction ks) (auto simp: index_from_key_def)

lemma find_unique:
  assumes "k \<in> set ks" "P k" "\<And>j. j \<in> set ks \<Longrightarrow> P j \<Longrightarrow> j = k"
  shows "find P ks = Some k"
proof (cases "find P ks")
  case None
  then show ?thesis using assms(1,2) by (simp add: find_None_set)
next
  case (Some j)
  then show ?thesis using find_Some_set [OF Some] assms(3) by simp
qed

lemma nbr_wf_inj:
  "nbr_wf s \<Longrightarrow> j \<in> set (nt_keys s) \<Longrightarrow> k \<in> set (nt_keys s) \<Longrightarrow>
   nt_lladdr s ! j = nt_lladdr s ! k \<Longrightarrow> j = k"
  unfolding nbr_wf_def inj_on_def by blast

lemma nbr_map_Some:
  assumes "nbr_wf s"
  shows "nbr_map s t a = Some k \<longleftrightarrow> k \<in> set (nt_keys s) \<and> nt_lladdr s ! k = a \<and> nbr_uses s t k"
proof
  assume k: "k \<in> set (nt_keys s) \<and> nt_lladdr s ! k = a \<and> nbr_uses s t k"
  then have "j = k" if "j \<in> set (nt_keys s)" "nt_lladdr s ! j = a" for j
    using that nbr_wf_inj [OF assms] by simp
  then show "nbr_map s t a = Some k"
    using k unfolding nbr_map_def by (intro find_unique) blast+
next
  assume "nbr_map s t a = Some k"
  then show "k \<in> set (nt_keys s) \<and> nt_lladdr s ! k = a \<and> nbr_uses s t k"
    unfolding nbr_map_def by (rule find_Some_set)
qed

lemma nbr_map_eqI:
  assumes "nbr_wf s" "nbr_wf s'"
    and "\<And>k. k \<in> set (nt_keys s') \<and> nt_lladdr s' ! k = a \<and> nbr_uses s' t k \<longleftrightarrow>
      k \<in> set (nt_keys s) \<and> nt_lladdr s ! k = a \<and> nbr_uses s t k"
  shows "nbr_map s' t a = nbr_map s t a"
proof -
  have "nbr_map s' t a = Some k \<longleftrightarrow> nbr_map s t a = Some k" for k
    unfolding nbr_map_Some [OF assms(1)] nbr_map_Some [OF assms(2)] by (rule assms(3))
  then show ?thesis by (cases "nbr_map s t a"; cases "nbr_map s' t a") auto
qed

lemma index_from_lladdr_cases:
  obtains (absent) "index_from_lladdr s a = -1" "\<forall>k \<in> set (nt_keys s). nt_lladdr s ! k \<noteq> lladdr_or_null a"
  | (present) k where "index_from_lladdr s a = int k" "k \<in> set (nt_keys s)" "nt_lladdr s ! k = lladdr_or_null a"
proof (cases "find (\<lambda>k. nt_lladdr s ! k = lladdr_or_null a) (nt_keys s)")
  case None
  then have "\<forall>k \<in> set (nt_keys s). nt_lladdr s ! k \<noteq> lladdr_or_null a" by (simp add: find_None_set)
  moreover have "index_from_lladdr s a = -1" using None by (simp add: index_from_lladdr_def key_scan_find)
  ultimately show thesis by (intro absent)
next
  case (Some k)
  then show thesis using find_Some_set [OF Some]
    by (intro present [of k]) (auto simp: index_from_lladdr_def key_scan_find)
qed

lemma get_from_lladdr_map:
  assumes "nbr_wf s"
  shows "nbr_table_get_from_lladdr s (Some t) a = nbr_map s t (lladdr_or_null a)"
proof (cases rule: index_from_lladdr_cases [of s a])
  case absent
  then have "nbr_map s t (lladdr_or_null a) = None" by (auto simp: nbr_map_def find_None_set)
  then show ?thesis using absent(1)
    by (simp add: nbr_table_get_from_lladdr_def item_from_index_def nbr_get_bit_def index_from_item_def Let_def)
next
  case (present k)
  have "nbr_map s t (lladdr_or_null a) = (if nbr_uses s t k then Some k else None)"
  proof (cases "nbr_uses s t k")
    case True
    then show ?thesis using present(2,3) nbr_map_Some [OF assms] by simp
  next
    case False
    have "nbr_map s t (lladdr_or_null a) \<noteq> Some j" for j
      using nbr_map_Some [OF assms, of t "lladdr_or_null a" j] present(2,3) False
        nbr_wf_inj [OF assms, of j k] by auto
    then have "nbr_map s t (lladdr_or_null a) = None" by (metis option.exhaust)
    then show ?thesis using False by simp
  qed
  then show ?thesis using present(1)
    by (simp add: nbr_table_get_from_lladdr_def item_from_index_def nbr_get_bit_def index_from_item_def
        nbr_uses_def Let_def)
qed

section \<open>The replacement policy\<close>

lemma nat_bit_less: "bit n i \<Longrightarrow> i < n" for n :: nat
proof -
  assume "bit n i"
  then have "odd (n div 2 ^ i)" by (simp add: bit_iff_odd)
  then have "n div 2 ^ i \<noteq> 0" by (metis even_zero)
  then have "2 ^ i \<le> n" by (metis div_less not_le)
  then show "i < n" using less_exp [of i] by (rule order_less_le_trans [rotated])
qed

lemma used_count_loop_card: "used_count_loop n c = c + card {i. bit n i}"
proof (induction n arbitrary: c rule: less_induct)
  case (less n)
  show ?case
  proof (cases "n = 0")
    case True
    then have "{i. bit n i} = {}" by auto
    then show ?thesis using True by (subst used_count_loop.simps) (simp only: card.empty, simp)
  next
    case False
    have "bit n i \<longleftrightarrow> (if i = 0 then odd n else bit (n div 2) (i - 1))" for i
      by (cases i) (simp_all add: bit_0 bit_Suc)
    then have split: "{i. bit n i} = (if odd n then {0} else {}) \<union> Suc ` {i. bit (n div 2) i}"
      by (force simp: image_iff gr0_conv_Suc split: if_splits)
    have fin: "finite {i. bit (n div 2) i}"
      by (rule finite_subset [of _ "{..<n div 2}"]) (auto dest: nat_bit_less)
    have "card {i. bit n i} = (if odd n then 1 else 0) + card {i. bit (n div 2) i}"
      unfolding split using fin by (subst card_Un_disjoint) (auto simp: card_image)
    then show ?thesis using less.IH [of "n div 2"] False
      by (subst used_count_loop.simps) (auto simp: odd_iff_mod_2_eq_one)
  qed
qed

text \<open>The unlocked keys, in the order in which they were added.\<close>

definition nbr_unlocked :: "nbr_state \<Rightarrow> nat list" where
  "nbr_unlocked s = filter (\<lambda>k. nt_locked_map s ! k = 0) (nt_keys s)"

lemma arg_min_list_zero: "f k = (0 :: nat) \<Longrightarrow> arg_min_list f (k # us) = k"
  by (cases us) auto

lemma arg_min_list_le: "f (arg_min_list f (k # us)) \<le> (f k :: nat)"
  by (cases us) (simp_all add: Let_def)

lemma arg_min_list_Cons:
  "us \<noteq> [] \<Longrightarrow> arg_min_list f (b # us) = (if f b \<le> f (arg_min_list f us) then b else arg_min_list f us)"
  by (cases us) (simp_all add: Let_def)

lemma arg_min_list_smaller: "f k < (f b :: nat) \<Longrightarrow> arg_min_list f (b # k # us) = arg_min_list f (k # us)"
  using arg_min_list_le [of f k us] by (subst arg_min_list_Cons) auto

lemma arg_min_list_skip: "f b \<le> (f k :: nat) \<Longrightarrow> arg_min_list f (b # k # us) = arg_min_list f (b # us)"
  by (cases "us = []") (auto simp: arg_min_list_Cons)

text \<open>The scan with its early exit finds the oldest of the least used unlocked keys.\<close>

lemma least_used_scan_some:
  "used_count s b > 0 \<Longrightarrow> least_used_scan s ks (Some b) (used_count s b) =
   Some (arg_min_list (used_count s) (b # filter (\<lambda>k. nt_locked_map s ! k = 0) ks))"
proof (induction ks arbitrary: b)
  case (Cons k ks)
  let ?us = "filter (\<lambda>k. nt_locked_map s ! k = 0) ks"
  show ?case
  proof (cases "nt_locked_map s ! k = 0")
    case True
    show ?thesis
    proof (cases "used_count s k < used_count s b")
      case less: True
      then have "arg_min_list (used_count s) (b # k # ?us) = arg_min_list (used_count s) (k # ?us)"
        by (rule arg_min_list_smaller)
      then show ?thesis
        using True less Cons.IH [of k] arg_min_list_zero [of "used_count s" k ?us]
        by (simp add: Let_def del: arg_min_list.simps)
    next
      case False
      then have "arg_min_list (used_count s) (b # k # ?us) = arg_min_list (used_count s) (b # ?us)"
        by (intro arg_min_list_skip) simp
      then show ?thesis using True False Cons by (simp add: Let_def del: arg_min_list.simps)
    qed
  next
    case False
    then show ?thesis using Cons by (simp del: arg_min_list.simps)
  qed
qed simp

lemma least_used_scan_none:
  "least_used_scan s ks None 0 =
   (let us = filter (\<lambda>k. nt_locked_map s ! k = 0) ks in
    if us = [] then None else Some (arg_min_list (used_count s) us))"
proof (induction ks)
  case (Cons k ks)
  show ?case
  proof (cases "nt_locked_map s ! k = 0")
    case True
    then show ?thesis
      using least_used_scan_some [of s k ks] arg_min_list_zero [of "used_count s" k]
      by (simp add: Let_def del: arg_min_list.simps)
  next
    case False
    then show ?thesis using Cons by (simp add: Let_def)
  qed
qed simp

text \<open>
  Whom an addition may evict: the neighbor that the policy names, if it is a key, else the oldest of
  the unlocked neighbors that the fewest tables use.
\<close>

definition nbr_oldest :: "nbr_state \<Rightarrow> nat option" where
  "nbr_oldest s = (if nbr_unlocked s = [] then None
     else Some (arg_min_list (used_count s) (nbr_unlocked s)))"

definition nbr_removable :: "linkaddr option option \<Rightarrow> nbr_state \<Rightarrow> nat option" where
  "nbr_removable policy s =
     (case policy of
        Some None \<Rightarrow> None
      | Some (Some x) \<Rightarrow>
          (case find (\<lambda>k. nt_lladdr s ! k = x) (nt_keys s) of Some k \<Rightarrow> Some k | None \<Rightarrow> nbr_oldest s)
      | None \<Rightarrow> nbr_oldest s)"

lemma nbr_oldest_scan: "least_used_scan s (nt_keys s) None 0 = nbr_oldest s"
  using least_used_scan_none [of s "nt_keys s"] by (simp add: nbr_oldest_def nbr_unlocked_def Let_def)

lemma nbr_oldest_Some:
  assumes "nbr_oldest s = Some v"
  shows "v \<in> set (nt_keys s)" "nt_locked_map s ! v = 0"
proof -
  have "v \<in> set (nbr_unlocked s)"
    using assms arg_min_list_in [of "nbr_unlocked s" "used_count s"] by (auto simp: nbr_oldest_def split: if_splits)
  then show "v \<in> set (nt_keys s)" "nt_locked_map s ! v = 0" by (simp_all add: nbr_unlocked_def)
qed

lemma nbr_removable_key: "nbr_removable policy s = Some v \<Longrightarrow> v \<in> set (nt_keys s)"
  using nbr_oldest_Some(1) by (auto simp: nbr_removable_def split: option.splits dest: find_Some_set)

lemma nbr_allocate_full:
  assumes "memb_alloc (nt_mem s) = (None, m)"
  shows "nbr_table_allocate policy s =
    (case nbr_removable policy s of
       None \<Rightarrow> (None, s)
     | Some v \<Rightarrow> (Some v, remove_key (s\<lparr>nt_locked_map := (nt_locked_map s)[v := 0]\<rparr>) v))"
proof -
  have same: "s\<lparr>nt_locked_map := (nt_locked_map s)[v := 0]\<rparr> = s" if "nt_locked_map s ! v = 0" for v
    using list_update_id [of "nt_locked_map s" v] that by simp
  have old: "remove_key (s\<lparr>nt_locked_map := (nt_locked_map s)[v := 0]\<rparr>) v = remove_key s v"
    if "nbr_oldest s = Some v" for v using same [OF nbr_oldest_Some(2) [OF that]] by simp
  show ?thesis
  proof (cases "\<exists>x. policy = Some (Some x)")
    case True
    then obtain x where x: "policy = Some (Some x)" ..
    show ?thesis
    proof (cases "find (\<lambda>k. nt_lladdr s ! k = x) (nt_keys s)")
      case None
      then show ?thesis unfolding nbr_table_allocate_def x assms nbr_removable_def
        by (auto simp: index_from_lladdr_def key_scan_find lladdr_or_null_def nbr_oldest_scan old split: option.split)
    next
      case (Some k)
      then show ?thesis unfolding nbr_table_allocate_def x assms nbr_removable_def
        using same [of k]
        by (simp add: index_from_lladdr_def key_scan_find lladdr_or_null_def key_from_index_def)
    qed
  next
    case False
    then show ?thesis unfolding nbr_table_allocate_def assms nbr_removable_def
      by (auto simp: nbr_oldest_scan old split: option.split)
  qed
qed

lemma nbr_allocate_cases:
  assumes wf: "nbr_wf s"
  obtains (fresh) k m where "nbr_table_allocate policy s = (Some k, s\<lparr>nt_mem := m\<rparr>)"
      "k < memb_num (nt_mem s)" "k \<notin> set (nt_keys s)" "memb_wf m" "memb_num m = memb_num (nt_mem s)"
      "\<And>j. j < memb_num m \<Longrightarrow> memb_used m ! j \<longleftrightarrow> memb_used (nt_mem s) ! j \<or> j = k"
  | (locked) "nbr_table_allocate policy s = (None, s)" "nbr_removable policy s = None"
      "set (nt_keys s) = {..<memb_num (nt_mem s)}"
  | (evict) v where "nbr_table_allocate policy s =
        (Some v, remove_key (s\<lparr>nt_locked_map := (nt_locked_map s)[v := 0]\<rparr>) v)"
      "nbr_removable policy s = Some v" "set (nt_keys s) = {..<memb_num (nt_mem s)}"
proof -
  let ?m = "nt_mem s"
  have m: "memb_wf ?m" "length (memb_used ?m) = memb_num ?m" "memb_size ?m > 0"
    using wf by (auto simp: nbr_wf_def memb_wf_def)
  show thesis
  proof (cases "memb_scan (take (memb_num ?m) (memb_used ?m)) 0")
    case (Some i)
    then have i: "i < memb_num ?m" "\<not> memb_used ?m ! i" using memb_scan_Some [OF Some] m(2) by simp_all
    have "nbr_table_allocate policy s = (Some i, s\<lparr>nt_mem := ?m\<lparr>memb_used := (memb_used ?m)[i := True]\<rparr>\<rparr>)"
      using Some m(3) by (simp add: nbr_table_allocate_def memb_alloc_def)
    then show thesis
      by (rule fresh) (use i m wf in \<open>auto simp: nbr_wf_def memb_wf_def nth_list_update\<close>)
  next
    case None
    then have keys: "set (nt_keys s) = {..<memb_num ?m}"
      using wf m(2) by (auto simp: memb_scan_None nbr_wf_def all_set_conv_all_nth)
    have "memb_alloc ?m = (None, ?m)" using None by (simp add: memb_alloc_def)
    then show thesis using locked evict keys
      by (cases "nbr_removable policy s") (simp_all add: nbr_allocate_full)
  qed
qed

section \<open>Adding, removing and looking up\<close>

definition nbr_registered :: "nbr_state \<Rightarrow> tid \<Rightarrow> bool" where
  "nbr_registered s t \<longleftrightarrow> nt_index (nt_tab s t) < nt_num_tables s \<and>
     nt_all_tables s ! nt_index (nt_tab s t) = Some t"

lemma nbr_registered_inj:
  "nbr_registered s t \<Longrightarrow> nbr_registered s t' \<Longrightarrow> nt_index (nt_tab s t) = nt_index (nt_tab s t') \<Longrightarrow> t = t'"
  by (simp add: nbr_registered_def)

lemma nbr_registered_less: "nbr_wf s \<Longrightarrow> nbr_registered s t \<Longrightarrow> nt_index (nt_tab s t) < 8"
  by (auto simp: nbr_registered_def nbr_wf_def nbr_tables_ok_def MAX_NUM_TABLES_def)

lemma nbr_is_registered:
  "nbr_wf s \<Longrightarrow> nbr_table_is_registered s (Some t) \<longleftrightarrow> nbr_registered s t"
  unfolding nbr_wf_def nbr_tables_ok_def nbr_table_is_registered_def nbr_registered_def
  by (auto split: option.splits)

text \<open>
  Writing the used bit of an existing key: the one operation on the maps that adding to and
  removing from a table share.
\<close>

definition nbr_mark :: "nbr_state \<Rightarrow> tid \<Rightarrow> nat \<Rightarrow> bool \<Rightarrow> nbr_state" where
  "nbr_mark s t k b = s\<lparr>nt_used_map := (nt_used_map s)
     [k := (if b then set_bit (nt_index (nt_tab s t)) (nt_used_map s ! k)
            else unset_bit (nt_index (nt_tab s t)) (nt_used_map s ! k))]\<rparr>"

lemma nbr_wf_used_map:
  "nbr_wf s \<Longrightarrow> length u = memb_num (nt_mem s) \<Longrightarrow>
   (\<And>k. k < memb_num (nt_mem s) \<Longrightarrow> k \<notin> set (nt_keys s) \<Longrightarrow> u ! k = 0) \<Longrightarrow> nbr_wf (s\<lparr>nt_used_map := u\<rparr>)"
  by (simp add: nbr_wf_def)

lemma nbr_mark_wf:
  assumes "nbr_wf s" "k \<in> set (nt_keys s)"
  shows "nbr_wf (nbr_mark s t k b)"
  unfolding nbr_mark_def
proof (rule nbr_wf_used_map [OF assms(1)])
  fix j assume "j < memb_num (nt_mem s)" "j \<notin> set (nt_keys s)"
  moreover from this assms have "j \<noteq> k" "nt_used_map s ! j = 0" by (auto simp: nbr_wf_def)
  ultimately show "(nt_used_map s)[k := if b then set_bit (nt_index (nt_tab s t)) (nt_used_map s ! k)
      else unset_bit (nt_index (nt_tab s t)) (nt_used_map s ! k)] ! j = 0" by simp
qed (use assms in \<open>simp add: nbr_wf_def\<close>)

lemma nbr_mark_uses:
  assumes "nbr_wf s" "k \<in> set (nt_keys s)" "nbr_registered s t" "nbr_registered s t'"
  shows "nbr_uses (nbr_mark s t k b) t' j \<longleftrightarrow> (if t' = t \<and> j = k then b else nbr_uses s t' j)"
proof -
  have k: "k < length (nt_used_map s)" using assms(1,2) by (simp add: nbr_wf_def)
  have t: "nt_index (nt_tab s t) < 8" "nt_index (nt_tab s t') < 8"
    using nbr_registered_less assms(1,3,4) by blast+
  show ?thesis
    using k t nbr_registered_inj [OF assms(3,4)]
    by (auto simp: nbr_uses_def nbr_mark_def nth_list_update bit_set_bit_iff bit_unset_bit_iff)
qed

definition nbr_claim :: "nbr_state \<Rightarrow> nat \<Rightarrow> linkaddr \<Rightarrow> nbr_state" where
  "nbr_claim s k a = s\<lparr>nt_keys := seq_add k (nt_keys s), nt_lladdr := (nt_lladdr s)[k := a]\<rparr>"

lemma inj_on_new:
  assumes "inj_on (\<lambda>j. xs ! j) A" "\<forall>j \<in> A. xs ! j \<noteq> a" "k < length xs"
  shows "inj_on (\<lambda>j. xs[k := a] ! j) (insert k A)"
proof (rule inj_onI)
  fix i j assume ij: "i \<in> insert k A" "j \<in> insert k A" "xs[k := a] ! i = xs[k := a] ! j"
  show "i = j"
  proof (cases "i = k \<or> j = k")
    case True
    then show ?thesis using ij assms(2,3) by (metis insertE nth_list_update_eq nth_list_update_neq)
  next
    case False
    then have "xs ! i = xs ! j" "i \<in> A" "j \<in> A" using ij by auto
    then show ?thesis using assms(1) by (simp add: inj_on_eq_iff)
  qed
qed

lemma nbr_claim_fresh:
  assumes wf: "nbr_wf s" and k: "k < memb_num (nt_mem s)" "k \<notin> set (nt_keys s)"
    and m: "memb_wf m" "memb_num m = memb_num (nt_mem s)"
      "\<And>j. j < memb_num m \<Longrightarrow> memb_used m ! j \<longleftrightarrow> memb_used (nt_mem s) ! j \<or> j = k"
    and a: "\<forall>j \<in> set (nt_keys s). nt_lladdr s ! j \<noteq> a"
  defines "s' \<equiv> nbr_claim (s\<lparr>nt_mem := m\<rparr>) k a"
  shows "nbr_wf s'" and "nbr_map s' t b = nbr_map s t b" and "k \<in> set (nt_keys s')" and "nt_lladdr s' ! k = a"
proof -
  have len: "k < length (nt_lladdr s)" using wf k(1) by (simp add: nbr_wf_def)
  have keys: "set (nt_keys s') = insert k (set (nt_keys s))" by (simp add: s'_def nbr_claim_def)
  have inj: "inj_on (\<lambda>j. nt_lladdr s ! j) (set (nt_keys s))" using wf by (simp add: nbr_wf_def)
  have mem: "\<And>j. j \<in> set (nt_keys s) \<longleftrightarrow> j < memb_num (nt_mem s) \<and> memb_used (nt_mem s) ! j"
    using wf by (simp add: nbr_wf_def)
  show wf': "nbr_wf s'"
    unfolding nbr_wf_def
  proof (intro conjI)
    show "inj_on (\<lambda>j. nt_lladdr s' ! j) (set (nt_keys s'))"
      unfolding keys using inj_on_new [OF inj a len] by (simp add: s'_def nbr_claim_def)
    show "\<forall>j. j \<in> set (nt_keys s') \<longleftrightarrow> j < memb_num (nt_mem s') \<and> memb_used (nt_mem s') ! j"
      unfolding keys using m(2,3) mem k(1) by (auto simp: s'_def nbr_claim_def)
  qed (use wf m in \<open>auto simp: s'_def nbr_claim_def nbr_wf_def\<close>)
  have unused: "nt_used_map s ! k = 0" using wf k by (simp add: nbr_wf_def)
  show "nbr_map s' t b = nbr_map s t b"
    using wf wf'
  proof (rule nbr_map_eqI)
    fix j show "j \<in> set (nt_keys s') \<and> nt_lladdr s' ! j = b \<and> nbr_uses s' t j \<longleftrightarrow>
      j \<in> set (nt_keys s) \<and> nt_lladdr s ! j = b \<and> nbr_uses s t j"
      using k(2) unused unfolding keys
      by (cases "j = k") (auto simp: s'_def nbr_claim_def nbr_uses_def)
  qed
  show "k \<in> set (nt_keys s')" "nt_lladdr s' ! k = a" using keys len by (auto simp: s'_def nbr_claim_def)
qed

lemma nbr_claim_evict:
  assumes wf: "nbr_wf s" and v: "v \<in> set (nt_keys s)"
    and a: "\<forall>j \<in> set (nt_keys s). nt_lladdr s ! j \<noteq> a"
  defines "s' \<equiv> nbr_claim (remove_key s v) v a"
  shows "nbr_wf s'" and "nbr_map s' t b = (if b = nt_lladdr s ! v then None else nbr_map s t b)"
    and "v \<in> set (nt_keys s')" and "nt_lladdr s' ! v = a"
proof -
  have N: "v < memb_num (nt_mem s)" and len: "v < length (nt_lladdr s)" "v < length (nt_used_map s)"
    using wf v by (simp_all add: nbr_wf_def)
  have keys: "set (nt_keys s') = insert v (set (nt_keys s) - {v})"
    by (simp add: s'_def nbr_claim_def remove_key_def)
  have inj: "inj_on (\<lambda>j. nt_lladdr s ! j) (set (nt_keys s) - {v})"
    using wf by (auto simp: nbr_wf_def intro: inj_on_diff)
  have used: "nt_used_map s' ! j = (if j = v then 0 else nt_used_map s ! j)" for j
    using len by (simp add: s'_def nbr_claim_def remove_key_def index_from_key_def nth_list_update)
  have ll: "nt_lladdr s' ! j = (if j = v then a else nt_lladdr s ! j)" for j
    using len by (simp add: s'_def nbr_claim_def remove_key_def nth_list_update)
  show wf': "nbr_wf s'"
    unfolding nbr_wf_def
  proof (intro conjI)
    show "inj_on (\<lambda>j. nt_lladdr s' ! j) (set (nt_keys s'))"
      unfolding keys using inj_on_new [OF inj _ len(1), of a] a
      by (simp add: s'_def nbr_claim_def remove_key_def)
    show "\<forall>j. j \<in> set (nt_keys s') \<longleftrightarrow> j < memb_num (nt_mem s') \<and> memb_used (nt_mem s') ! j"
      unfolding keys using wf v by (auto simp: s'_def nbr_claim_def remove_key_def nbr_wf_def)
    show "\<forall>j < memb_num (nt_mem s'). j \<notin> set (nt_keys s') \<longrightarrow> nt_used_map s' ! j = 0"
      unfolding keys used using wf by (auto simp: s'_def nbr_claim_def remove_key_def nbr_wf_def)
  qed (use wf in \<open>auto simp: s'_def nbr_claim_def remove_key_def nbr_wf_def\<close>)
  have uses: "nbr_uses s' t j \<longleftrightarrow> j \<noteq> v \<and> nbr_uses s t j" for j
    unfolding nbr_uses_def used by (simp add: s'_def nbr_claim_def remove_key_def)
  show "nbr_map s' t b = (if b = nt_lladdr s ! v then None else nbr_map s t b)"
  proof (cases "b = nt_lladdr s ! v")
    case True
    have "nbr_map s' t b \<noteq> Some j" for j
      unfolding nbr_map_Some [OF wf'] keys ll uses using True nbr_wf_inj [OF wf, of j v] v by auto
    then show ?thesis using True by (metis option.exhaust)
  next
    case False
    have "nbr_map s' t b = nbr_map s t b"
      by (rule nbr_map_eqI [OF wf wf']) (use False in \<open>auto simp: keys ll uses\<close>)
    then show ?thesis using False by simp
  qed
  show "v \<in> set (nt_keys s')" "nt_lladdr s' ! v = a" using keys ll by auto
qed

lemma nbr_mark_map:
  assumes wf: "nbr_wf s" and k: "k \<in> set (nt_keys s)" and t: "nbr_registered s t" "nbr_registered s t'"
  shows "nbr_map (nbr_mark s t k b) t' c =
    (if t' = t \<and> c = nt_lladdr s ! k then (if b then Some k else None) else nbr_map s t' c)"
proof -
  let ?s = "nbr_mark s t k b"
  note wf' = nbr_mark_wf [OF wf k, of t b] and uses = nbr_mark_uses [OF wf k t]
  have keys: "nt_keys ?s = nt_keys s" "nt_lladdr ?s = nt_lladdr s" by (simp_all add: nbr_mark_def)
  show ?thesis
  proof (cases "t' = t \<and> c = nt_lladdr s ! k")
    case True
    then have "nbr_map ?s t' c = Some j \<longleftrightarrow> b \<and> j = k" for j
      unfolding nbr_map_Some [OF wf'] keys uses using k nbr_wf_inj [OF wf, of j k] by auto
    then show ?thesis using True by (cases b; metis option.exhaust)
  next
    case False
    then have "nbr_map ?s t' c = nbr_map s t' c"
      by (intro nbr_map_eqI [OF wf wf']) (auto simp: keys uses)
    then show ?thesis using False by (simp only: if_False)
  qed
qed

lemma nbr_data_simps [simp]:
  "nbr_wf (s\<lparr>nt_data := d\<rparr>) = nbr_wf s" "nbr_map (s\<lparr>nt_data := d\<rparr>) t b = nbr_map s t b"
  "nbr_registered (s\<lparr>nt_data := d\<rparr>) t = nbr_registered s t"
  by (simp_all add: nbr_wf_def nbr_map_def nbr_uses_def nbr_registered_def)

lemma nbr_registered_simps [simp]:
  "nbr_registered (nbr_claim s k a) t = nbr_registered s t"
  "nbr_registered (remove_key s k) t = nbr_registered s t"
  "nbr_registered (s\<lparr>nt_mem := m\<rparr>) t = nbr_registered s t"
  "nbr_registered (nbr_mark s t' k b) t = nbr_registered s t"
  by (simp_all add: nbr_registered_def nbr_claim_def remove_key_def nbr_mark_def)

lemma nbr_locked_simps [simp]:
  "length l = length (nt_locked_map s) \<Longrightarrow> nbr_wf (s\<lparr>nt_locked_map := l\<rparr>) = nbr_wf s"
  "nbr_map (s\<lparr>nt_locked_map := l\<rparr>) t b = nbr_map s t b"
  "nbr_registered (s\<lparr>nt_locked_map := l\<rparr>) t = nbr_registered s t"
  by (simp_all add: nbr_wf_def nbr_map_def nbr_uses_def nbr_registered_def)

text \<open>What \<^verbatim>\<open>nbr_table_add_lladdr\<close> does once it has a key.\<close>

definition nbr_enter :: "nbr_state \<Rightarrow> tid \<Rightarrow> nat \<Rightarrow> nbr_state" where
  "nbr_enter s t k = nbr_mark (s\<lparr>nt_data := (nt_data s)
     (t := (nt_data s t)(k := replicate (nt_item_size (nt_tab s t)) 0))\<rparr>) t k True"

lemma nbr_add_eq:
  "nbr_table_add_lladdr policy s (Some t) a =
   (case index_from_lladdr s a of i \<Rightarrow>
      if i \<noteq> -1 then (Some (nat i), nbr_enter s t (nat i))
      else (case nbr_table_allocate policy s of
              (None, s') \<Rightarrow> (None, s')
            | (Some k, s') \<Rightarrow> (Some k, nbr_enter (nbr_claim s' k (lladdr_or_null a)) t k)))"
  by (simp add: nbr_table_add_lladdr_def nbr_enter_def nbr_claim_def nbr_mark_def nbr_set_bit_def Let_def
      item_from_index_def index_from_item_def index_from_key_def split: prod.splits option.splits)

lemma nbr_enter_spec:
  assumes "nbr_wf s" "k \<in> set (nt_keys s)" "nbr_registered s t"
  shows "nbr_wf (nbr_enter s t k)"
    and "nbr_registered s t' \<Longrightarrow> nbr_map (nbr_enter s t k) t' b =
      (if t' = t \<and> b = nt_lladdr s ! k then Some k else nbr_map s t' b)"
    and "nbr_registered (nbr_enter s t k) t' = nbr_registered s t'"
    and "nt_data (nbr_enter s t k) t k = replicate (nt_item_size (nt_tab s t)) 0"
    and "nt_locked_map (nbr_enter s t k) = nt_locked_map s"
  using assms nbr_mark_wf [of "s\<lparr>nt_data := d\<rparr>" k for d] nbr_mark_map [of "s\<lparr>nt_data := d\<rparr>" k t t' True for d]
  unfolding nbr_enter_def by (simp_all, simp_all add: nbr_mark_def)

text \<open>An addition evicts only when every neighbor slot is taken.\<close>

definition nbr_victim :: "linkaddr option option \<Rightarrow> nbr_state \<Rightarrow> nat \<Rightarrow> bool" where
  "nbr_victim policy s v \<longleftrightarrow> set (nt_keys s) = {..<memb_num (nt_mem s)} \<and>
     nbr_removable policy s = Some v"

lemma nbr_add_cases:
  assumes wf: "nbr_wf s" and t: "nbr_registered s t"
    and add: "nbr_table_add_lladdr policy s (Some t) a = (r, s')"
  obtains (failed) "r = None" "s' = s" "nbr_removable policy s = None"
      "set (nt_keys s) = {..<memb_num (nt_mem s)}" "nbr_map s t (lladdr_or_null a) = None"
  | (added) k where "r = Some k" "nbr_wf s'" "nbr_registered s' = nbr_registered s"
      "nt_locked_map s' = nt_locked_map s"
      "\<forall>j. nbr_map s t (lladdr_or_null a) = Some j \<longrightarrow> j = k"
      "nt_data s' t k = replicate (nt_item_size (nt_tab s t)) 0"
      "\<And>t' b. nbr_registered s t' \<Longrightarrow> nbr_map s' t' b =
        (if t' = t \<and> b = lladdr_or_null a then Some k else nbr_map s t' b)"
      "set (nt_keys s) = {..<memb_num (nt_mem s)} \<Longrightarrow> lladdr_or_null a \<in> (!) (nt_lladdr s) ` set (nt_keys s)"
  | (replaced) v where "r = Some v" "nbr_wf s'" "nbr_registered s' = nbr_registered s" "nbr_victim policy s v"
      "nt_locked_map s' = (nt_locked_map s)[v := 0]" "nbr_map s t (lladdr_or_null a) = None"
      "nt_data s' t v = replicate (nt_item_size (nt_tab s t)) 0" "nt_lladdr s ! v \<noteq> lladdr_or_null a"
      "\<And>t' b. nbr_registered s t' \<Longrightarrow> nbr_map s' t' b =
        (if t' = t \<and> b = lladdr_or_null a then Some v
         else if b = nt_lladdr s ! v then None else nbr_map s t' b)"
proof (cases rule: index_from_lladdr_cases [of s a])
  case (present k)
  then have "r = Some k" "s' = nbr_enter s t k" using add by (simp_all add: nbr_add_eq)
  moreover have "\<forall>j. nbr_map s t (lladdr_or_null a) = Some j \<longrightarrow> j = k"
    using nbr_map_Some [OF wf] nbr_wf_inj [OF wf _ present(2)] present(3) by simp
  moreover have "lladdr_or_null a \<in> (!) (nt_lladdr s) ` set (nt_keys s)" using present(2,3) by force
  ultimately show thesis using nbr_enter_spec [OF wf present(2) t] present(3) by (intro added) auto
next
  case absent
  then have none: "nbr_map s t (lladdr_or_null a) = None" by (auto simp: nbr_map_def find_None_set)
  show thesis
    using wf
  proof (cases rule: nbr_allocate_cases [where policy = policy])
    case (fresh k m)
    let ?c = "nbr_claim (s\<lparr>nt_mem := m\<rparr>) k (lladdr_or_null a)"
    note c = nbr_claim_fresh [OF wf fresh(2-6) absent(2)]
    have tc: "nbr_registered ?c t" "nt_tab ?c = nt_tab s" "nt_locked_map ?c = nt_locked_map s"
      using t by (simp, simp_all add: nbr_claim_def)
    have "r = Some k" "s' = nbr_enter ?c t k" using add absent(1) fresh(1) by (simp_all add: nbr_add_eq)
    with nbr_enter_spec [OF c(1,3) tc(1)] c(2,4) tc(2,3) none fresh(2,3) show thesis
      by (intro added) auto
  next
    case locked
    show thesis using add absent(1) locked none by (intro failed) (simp_all add: nbr_add_eq)
  next
    case (evict v)
    let ?s = "s\<lparr>nt_locked_map := (nt_locked_map s)[v := 0]\<rparr>"
    let ?c = "nbr_claim (remove_key ?s v) v (lladdr_or_null a)"
    have v: "v \<in> set (nt_keys s)" using evict(2) by (rule nbr_removable_key)
    have "nbr_wf ?s" using wf by simp
    note c = nbr_claim_evict [OF this, of v "lladdr_or_null a", simplified, OF v absent(2)]
    have tc: "nbr_registered ?c t" "nt_tab ?c = nt_tab s" "nt_locked_map ?c = (nt_locked_map s)[v := 0]"
      using t by (simp, simp_all add: nbr_claim_def remove_key_def)
    have "r = Some v" "s' = nbr_enter ?c t v" using add absent(1) evict(1) by (simp_all add: nbr_add_eq)
    with nbr_enter_spec [OF c(1,3) tc(1)] c(2,4) tc(2,3) evict(2,3) absent(2) v none show thesis
      by (intro replaced) (auto simp: nbr_victim_def)
  qed
qed

lemma nbr_remove_eq:
  "nbr_table_remove s (Some t) (Some k) =
   (1, (nbr_mark s t k False)\<lparr>nt_locked_map := (nt_locked_map s)
     [k := unset_bit (nt_index (nt_tab s t)) (nt_locked_map s ! k)]\<rparr>)"
  by (simp add: nbr_table_remove_def nbr_set_bit_def index_from_item_def nbr_mark_def Let_def)

lemma nbr_remove_spec:
  assumes "nbr_wf s" "nbr_registered s t" "nbr_map s t a = Some k" "nbr_table_remove s (Some t) (Some k) = (r, s')"
  shows "r = 1" "nbr_wf s'" "nbr_registered s' = nbr_registered s"
    and "nbr_registered s t' \<Longrightarrow> nbr_map s' t' b = (if t' = t \<and> b = a then None else nbr_map s t' b)"
proof -
  have k: "k \<in> set (nt_keys s)" "nt_lladdr s ! k = a" using nbr_map_Some [OF assms(1)] assms(3) by blast+
  have mark: "nt_locked_map (nbr_mark s t k False) = nt_locked_map s" by (simp add: nbr_mark_def)
  have s': "r = 1" "s' = (nbr_mark s t k False)\<lparr>nt_locked_map := (nt_locked_map s)
     [k := unset_bit (nt_index (nt_tab s t)) (nt_locked_map s ! k)]\<rparr>"
    using assms(4) by (simp_all add: nbr_remove_eq)
  show "r = 1" by (fact s'(1))
  show "nbr_wf s'" "nbr_registered s' = nbr_registered s"
    using nbr_mark_wf [OF assms(1) k(1), of t False] unfolding s'(2) by (auto simp: mark fun_eq_iff)
  show "nbr_map s' t' b = (if t' = t \<and> b = a then None else nbr_map s t' b)" if "nbr_registered s t'"
    using nbr_mark_map [OF assms(1) k(1) assms(2) that, of False b] k(2) unfolding s'(2) by simp
qed

section \<open>The interface of a table\<close>

text \<open>
  What the modules that keep per-neighbor state rely on. An addition may evict one other address;
  everything else is a map.
\<close>

locale addr_table =
  fixes inv :: "'s \<Rightarrow> bool"
    and tbl :: "'s \<Rightarrow> linkaddr \<Rightarrow> nat option"
    and get :: "'s \<Rightarrow> linkaddr \<Rightarrow> nat option"
    and add :: "'s \<Rightarrow> linkaddr \<Rightarrow> nat option \<times> 's"
    and remove :: "'s \<Rightarrow> nat \<Rightarrow> int \<times> 's"
  assumes get_tbl: "inv s \<Longrightarrow> get s a = tbl s a"
    and tbl_inj: "inv s \<Longrightarrow> tbl s a = Some k \<Longrightarrow> tbl s b = Some k \<Longrightarrow> a = b"
    and add_Some: "inv s \<Longrightarrow> add s a = (Some k, s') \<Longrightarrow> inv s' \<and>
      (tbl s' = (tbl s)(a := Some k) \<or> (\<exists>v. tbl s' = (tbl s)(v := None, a := Some k)))"
    and add_None: "inv s \<Longrightarrow> add s a = (None, s') \<Longrightarrow> s' = s \<and> tbl s a = None"
    and remove_tbl: "inv s \<Longrightarrow> tbl s a = Some k \<Longrightarrow> remove s k = (r, s') \<Longrightarrow>
      inv s' \<and> r = 1 \<and> tbl s' = (tbl s)(a := None)"
begin

lemma get_added: "inv s \<Longrightarrow> add s a = (Some k, s') \<Longrightarrow> inv s' \<and> get s' a = Some k"
  using add_Some [of s a k s'] get_tbl [of s' a] by auto

lemma get_other:
  assumes "inv s" "add s a = (Some k, s')" "b \<noteq> a"
  shows "get s' b = get s b \<or> get s' b = None"
  using add_Some [OF assms(1,2)] assms(3) get_tbl [OF assms(1)] get_tbl [of s']
  by (auto split: if_splits)

lemma get_removed:
  assumes "inv s" "get s a = Some k"
  shows "inv (snd (remove s k)) \<and> get (snd (remove s k)) = (get s)(a := None)"
proof -
  obtain r s' where "remove s k = (r, s')" by (cases "remove s k")
  moreover from this have "inv s'" "tbl s' = (tbl s)(a := None)"
    using remove_tbl assms get_tbl by metis+
  moreover have "get s = tbl s" "get s' = tbl s'"
    using get_tbl assms(1) calculation(2) by (auto simp: fun_eq_iff)
  ultimately show ?thesis by simp
qed

end

interpretation nbrt: addr_table "\<lambda>s. nbr_wf s \<and> nbr_registered s t" "\<lambda>s. nbr_map s t"
  "\<lambda>s a. nbr_table_get_from_lladdr s (Some t) (Some a)"
  "\<lambda>s a. nbr_table_add_lladdr policy s (Some t) (Some a)"
  "\<lambda>s k. nbr_table_remove s (Some t) (Some k)" for t policy
proof unfold_locales
  fix s a assume "nbr_wf s \<and> nbr_registered s t"
  then show "nbr_table_get_from_lladdr s (Some t) (Some a) = nbr_map s t a"
    by (simp add: get_from_lladdr_map lladdr_or_null_def)
next
  fix s a k b assume "nbr_wf s \<and> nbr_registered s t" "nbr_map s t a = Some k" "nbr_map s t b = Some k"
  then show "a = b" using nbr_map_Some by metis
next
  fix s a k s' assume s: "nbr_wf s \<and> nbr_registered s t"
    and add: "nbr_table_add_lladdr policy s (Some t) (Some a) = (Some k, s')"
  from s have wf: "nbr_wf s" and t: "nbr_registered s t" by blast+
  from wf t add show "(nbr_wf s' \<and> nbr_registered s' t) \<and> (nbr_map s' t = (nbr_map s t)(a := Some k) \<or>
      (\<exists>v. nbr_map s' t = (nbr_map s t)(v := None, a := Some k)))"
  proof (cases rule: nbr_add_cases)
    case (added k')
    then have "nbr_map s' t = (nbr_map s t)(a := Some k)" using t by (auto simp: lladdr_or_null_def)
    then show ?thesis using added t by simp
  next
    case (replaced v)
    then have "nbr_map s' t = (nbr_map s t)(nt_lladdr s ! v := None, a := Some k)"
      using t by (auto simp: lladdr_or_null_def)
    then show ?thesis using replaced(2,3) t by auto
  qed simp
next
  fix s a s' assume "nbr_wf s \<and> nbr_registered s t" "nbr_table_add_lladdr policy s (Some t) (Some a) = (None, s')"
  then show "s' = s \<and> nbr_map s t a = None"
    by (auto elim: nbr_add_cases simp: lladdr_or_null_def)
next
  fix s a k r s' assume s: "nbr_wf s \<and> nbr_registered s t" "nbr_map s t a = Some k"
    "nbr_table_remove s (Some t) (Some k) = (r, s')"
  then show "(nbr_wf s' \<and> nbr_registered s' t) \<and> r = 1 \<and> nbr_map s' t = (nbr_map s t)(a := None)"
    using nbr_remove_spec [of s t a k r s'] by (auto simp: fun_eq_iff)
qed

section \<open>Start\<close>

text \<open>The static state: \<open>n\<close> neighbor slots, tables not registered, with their item sizes.\<close>

definition nbr_init :: "nat \<Rightarrow> (tid \<Rightarrow> nat) \<Rightarrow> nbr_state" where
  "nbr_init n sizes =
     \<lparr>nt_mem = memb_init \<lparr>memb_size = 16, memb_num = n, memb_used = [], memb_mem = 0, memb_data = []\<rparr>,
      nt_lladdr = replicate n linkaddr_null, nt_keys = [],
      nt_used_map = replicate n 0, nt_locked_map = replicate n 0,
      nt_all_tables = replicate MAX_NUM_TABLES None, nt_num_tables = 0,
      nt_tab = (\<lambda>t. \<lparr>nt_index = 0, nt_item_size = sizes t, nt_callback = False\<rparr>),
      nt_data = (\<lambda>t i. replicate (sizes t) 0), nt_calls = []\<rparr>"

lemma nbr_init_wf: "nbr_wf (nbr_init n sizes)"
  by (simp add: nbr_init_def nbr_wf_def memb_init_def memb_wf_def nbr_tables_ok_def)

lemma nbr_register_new:
  assumes "nbr_wf s" "\<not> nbr_registered s t" "nt_num_tables s < MAX_NUM_TABLES"
    and "nbr_table_register s t cb = (r, s')"
  shows "r = 1" "nbr_wf s'" "nbr_registered s' t" "nbr_registered s t' \<Longrightarrow> nbr_registered s' t'"
proof -
  let ?n = "nt_num_tables s"
  have ok: "nbr_tables_ok (nt_all_tables s) ?n (nt_tab s)" using assms(1) by (simp add: nbr_wf_def)
  have s': "r = 1" "s' = s\<lparr>nt_tab := (nt_tab s)(t := (nt_tab s t)\<lparr>nt_index := ?n, nt_callback := cb\<rparr>),
      nt_num_tables := ?n + 1, nt_all_tables := (nt_all_tables s)[?n := Some t]\<rparr>"
    using assms nbr_is_registered [OF assms(1), of t] by (simp_all add: nbr_table_register_def)
  show "r = 1" by (fact s'(1))
  have len: "?n < length (nt_all_tables s)" using ok assms(3) by (simp add: nbr_tables_ok_def)
  have other: "t' \<noteq> t" "i < ?n" "nt_index (nt_tab s t') = i" if "i < MAX_NUM_TABLES" "nt_all_tables s ! i = Some t'" for i t'
  proof -
    show "i < ?n" "nt_index (nt_tab s t') = i" using ok that by (auto simp: nbr_tables_ok_def)
    then show "t' \<noteq> t" using assms(2) that by (auto simp: nbr_registered_def)
  qed
  have "nbr_tables_ok ((nt_all_tables s)[?n := Some t]) (?n + 1)
      ((nt_tab s)(t := (nt_tab s t)\<lparr>nt_index := ?n, nt_callback := cb\<rparr>))"
    unfolding nbr_tables_ok_def
  proof (intro conjI allI impI)
    fix i assume i: "i < MAX_NUM_TABLES"
    show "case (nt_all_tables s)[?n := Some t] ! i of None \<Rightarrow> ?n + 1 \<le> i
      | Some t' \<Rightarrow> i < ?n + 1 \<and> nt_index (((nt_tab s)(t := (nt_tab s t)\<lparr>nt_index := ?n, nt_callback := cb\<rparr>)) t') = i"
    proof (cases "i = ?n")
      case True
      then show ?thesis using len by simp
    next
      case False
      then show ?thesis using ok other [OF i] i
        by (cases "nt_all_tables s ! i") (fastforce simp: nbr_tables_ok_def)+
    qed
  qed (use ok assms(3) in \<open>simp_all add: nbr_tables_ok_def\<close>)
  then show "nbr_wf s'" using assms(1) unfolding s'(2) by (simp add: nbr_wf_def)
  show "nbr_registered s' t" using len unfolding s'(2) by (simp add: nbr_registered_def)
  show "nbr_registered s' t'" if "nbr_registered s t'"
  proof -
    have "t' \<noteq> t" using assms(2) that by blast
    then show ?thesis using that unfolding s'(2) by (simp add: nbr_registered_def)
  qed
qed

section \<open>Properties\<close>

text \<open>Additions to any tables, each with the answer that the removal policy would give.\<close>

fun nbr_add_all :: "(linkaddr option option \<times> tid \<times> linkaddr) list \<Rightarrow> nbr_state \<Rightarrow> nbr_state" where
  "nbr_add_all [] s = s"
| "nbr_add_all ((policy, t, a) # xs) s =
     nbr_add_all xs (snd (nbr_table_add_lladdr policy s (Some t) (Some a)))"

lemma nbr_removable_locked:
  assumes "nbr_removable policy s = Some v" "nt_locked_map s ! k \<noteq> 0" "policy \<noteq> Some (Some (nt_lladdr s ! k))"
  shows "v \<noteq> k"
  using assms nbr_oldest_Some(2) [of s v]
  by (auto simp: nbr_removable_def split: option.splits dest!: find_Some_set)

lemma nbr_locked_survives:
  assumes "nbr_wf s" "nbr_registered s t"
    "\<forall>(policy, t', b) \<in> set xs. nbr_registered s t' \<and> policy \<noteq> Some (Some a)"
    "nbr_map s t a = Some k" "nt_locked_map s ! k \<noteq> 0"
  shows "nbr_wf (nbr_add_all xs s) \<and> nbr_map (nbr_add_all xs s) t a = Some k"
  using assms
proof (induction xs arbitrary: s)
  case (Cons x xs)
  obtain policy t' b where x: "x = (policy, t', b)" by (cases x)
  then have t': "nbr_registered s t'" and pol: "policy \<noteq> Some (Some a)" using Cons.prems(3) by simp_all
  have k: "k \<in> set (nt_keys s)" "nt_lladdr s ! k = a" "k < length (nt_locked_map s)"
    using nbr_map_Some [OF Cons.prems(1)] Cons.prems(1,4) by (auto simp: nbr_wf_def)
  obtain r s' where add: "nbr_table_add_lladdr policy s (Some t') (Some b) = (r, s')" by fastforce
  from Cons.prems(1) t' add
  have "nbr_wf s' \<and> nbr_registered s' = nbr_registered s \<and> nbr_map s' t a = Some k \<and>
      nt_locked_map s' ! k \<noteq> 0"
  proof (cases rule: nbr_add_cases)
    case failed
    then show ?thesis using Cons.prems by simp
  next
    case (added j)
    then show ?thesis using added(7) [OF Cons.prems(2), of a] Cons.prems(4,5) by (auto simp: lladdr_or_null_def)
  next
    case (replaced v)
    have v: "nbr_removable policy s = Some v" using replaced(4) by (simp add: nbr_victim_def)
    have "v \<noteq> k" using nbr_removable_locked [OF v Cons.prems(5)] pol k(2) by simp
    moreover from this have "a \<noteq> nt_lladdr s ! v"
      using nbr_wf_inj [OF Cons.prems(1) nbr_removable_key [OF v] k(1)] k(2) by auto
    ultimately show ?thesis using replaced replaced(9) [OF Cons.prems(2), of a] Cons.prems(4,5) k(3)
      by (auto simp: lladdr_or_null_def)
  qed
  then show ?case using Cons.IH [of s'] Cons.prems add x by simp
qed simp

lemma nbr_add_all_registered:
  assumes "nbr_wf s" "\<forall>(policy, t', b) \<in> set xs. nbr_registered s t'"
  shows "nbr_registered (nbr_add_all xs s) = nbr_registered s"
  using assms
proof (induction xs arbitrary: s)
  case (Cons x xs)
  obtain policy t' b where x: "x = (policy, t', b)" by (cases x)
  then have t': "nbr_registered s t'" using Cons.prems(2) by simp
  obtain r s' where add: "nbr_table_add_lladdr policy s (Some t') (Some b) = (r, s')" by fastforce
  from Cons.prems(1) t' add have "nbr_wf s' \<and> nbr_registered s' = nbr_registered s"
    by (cases rule: nbr_add_cases) (use Cons.prems(1) in auto)
  then show ?case using Cons.IH [of s'] Cons.prems add x by simp
qed simp

text \<open>When all slots are taken, a new address costs the neighbor that the policy names.\<close>

lemma nbr_add_named_full:
  assumes wf: "nbr_wf s" and t: "nbr_registered s t" "nbr_registered s t'"
    and k: "k \<in> set (nt_keys s)" "nt_lladdr s ! k = a"
    and b: "b \<notin> (!) (nt_lladdr s) ` set (nt_keys s)"
    and full: "set (nt_keys s) = {..<memb_num (nt_mem s)}"
    and add: "nbr_table_add_lladdr (Some (Some a)) s (Some t') (Some b) = (r, s')"
  shows "nbr_wf s' \<and> nbr_map s' t a = None"
  using wf t(2) add
proof (cases rule: nbr_add_cases)
  case failed
  have "nbr_removable (Some (Some a)) s \<noteq> None"
    using k by (auto simp: nbr_removable_def find_None_set split: option.splits)
  then show ?thesis using failed by simp
next
  case (added j)
  have False using added(8) [OF full] b by (simp add: lladdr_or_null_def)
  then show ?thesis ..
next
  case (replaced v)
  have v: "nbr_removable (Some (Some a)) s = Some v" using replaced(4) by (simp add: nbr_victim_def)
  have "v = k"
  proof (cases "find (\<lambda>j. nt_lladdr s ! j = a) (nt_keys s)")
    case None
    then show ?thesis using k by (auto simp: find_None_set)
  next
    case (Some j)
    then have "j = v" using v by (simp add: nbr_removable_def)
    then show ?thesis using find_Some_set [OF Some] nbr_wf_inj [OF wf _ k(1)] k(2) by auto
  qed
  moreover have "a \<noteq> b" using k b by blast
  ultimately show ?thesis using replaced(2) replaced(9) [OF t(1), of a] k(2) by (simp add: lladdr_or_null_def)
qed

text \<open>Whom nobody may evict: the removal policy refuses, or it leaves the choice and all neighbors are locked.\<close>

definition nbr_none_removable :: "linkaddr option option \<Rightarrow> nbr_state \<Rightarrow> bool" where
  "nbr_none_removable policy s \<longleftrightarrow> policy = Some None \<or>
     (policy = None \<or> (\<exists>x. policy = Some (Some x) \<and> (\<forall>k \<in> set (nt_keys s). nt_lladdr s ! k \<noteq> x))) \<and>
     (\<forall>k \<in> set (nt_keys s). nt_locked_map s ! k \<noteq> 0)"

lemma nbr_removable_None: "nbr_removable policy s = None \<longleftrightarrow> nbr_none_removable policy s"
proof -
  have "nbr_oldest s = None \<longleftrightarrow> (\<forall>k \<in> set (nt_keys s). nt_locked_map s ! k \<noteq> 0)"
    by (auto simp: nbr_oldest_def nbr_unlocked_def filter_empty_conv)
  then show ?thesis
    by (auto simp: nbr_removable_def nbr_none_removable_def find_None_set dest: find_Some_set split: option.splits)
qed

lemma nbr_removable_Some:
  assumes "nbr_removable policy s = Some v"
  shows "v \<in> set (nt_keys s) \<and> (nt_locked_map s ! v = 0 \<or> policy = Some (Some (nt_lladdr s ! v)))"
  using assms nbr_removable_key [OF assms] nbr_oldest_Some(2)
  by (auto simp: nbr_removable_def dest: find_Some_set split: option.splits)

text \<open>
  (C13) A neighbor table is a finite map from link-layer addresses to zeroed items: an addition makes
  the address found at the item returned and leaves every other address of every table as it was, except
  for those of at most one evicted neighbor, which was unlocked or named by the removal policy. It fails, changing
  nothing, only when every neighbor slot is taken and the policy refuses, or, without a policy or with one that
  names an unknown address, all neighbors are locked. The invariant of the shared key table is kept.
\<close>

theorem nbr_table_add_is_update:
  assumes "nbr_wf s" "nbr_registered s t"
    and "nbr_table_add_lladdr policy s (Some t) (Some a) = (r, s')"
  shows "nbr_wf s' \<and>
    (case r of
       None \<Rightarrow> s' = s \<and> nbr_none_removable policy s \<and> set (nt_keys s) = {..<memb_num (nt_mem s)}
     | Some k \<Rightarrow> nbr_table_get_from_lladdr s' (Some t) (Some a) = Some k \<and>
         nt_data s' t k = replicate (nt_item_size (nt_tab s t)) 0 \<and>
         (\<exists>V. (V = None \<or> (\<exists>v \<in> set (nt_keys s). V = Some (nt_lladdr s ! v) \<and>
              set (nt_keys s) = {..<memb_num (nt_mem s)} \<and>
              (nt_locked_map s ! v = 0 \<or> policy = Some (Some (nt_lladdr s ! v))))) \<and>
           (\<forall>t' b. nbr_registered s t' \<longrightarrow> (t', b) \<noteq> (t, a) \<longrightarrow>
             nbr_table_get_from_lladdr s' (Some t') (Some b) =
             (if V = Some b then None else nbr_table_get_from_lladdr s (Some t') (Some b)))))"
  using assms
proof (cases rule: nbr_add_cases)
  case failed
  then show ?thesis using assms(1) by (simp add: nbr_removable_None)
next
  case (added k)
  then show ?thesis using assms(1,2)
    by (intro conjI) (auto simp: get_from_lladdr_map lladdr_or_null_def intro!: exI [of _ "None :: linkaddr option"])
next
  case (replaced v)
  then have "v \<in> set (nt_keys s) \<and> (nt_locked_map s ! v = 0 \<or> policy = Some (Some (nt_lladdr s ! v)))"
    using nbr_removable_Some [of policy s v] by (simp add: nbr_victim_def)
  then show ?thesis using replaced assms(1,2)
    by (auto simp: get_from_lladdr_map lladdr_or_null_def nbr_victim_def intro!: exI [of _ "Some (nt_lladdr s ! v)"])
qed

definition nbr_demo :: nbr_state where
  "nbr_demo = snd (nbr_table_register (nbr_init 1 (\<lambda>_. 4)) 0 False)"

lemma nbr_demo_wf: "nbr_wf nbr_demo" "nbr_registered nbr_demo 0"
proof -
  obtain r s' where r: "nbr_table_register (nbr_init 1 (\<lambda>_. 4)) 0 False = (r, s')" by fastforce
  have n: "\<not> nbr_registered (nbr_init 1 (\<lambda>_. 4)) 0" "nt_num_tables (nbr_init 1 (\<lambda>_. 4)) < MAX_NUM_TABLES"
    by (simp_all add: nbr_registered_def nbr_init_def MAX_NUM_TABLES_def)
  show "nbr_wf nbr_demo" "nbr_registered nbr_demo 0"
    unfolding nbr_demo_def r snd_conv using nbr_register_new(2,3) [OF nbr_init_wf n r] by simp_all
qed

text \<open>The only neighbor slot, given to an address.\<close>

definition nbr_demo_full :: nbr_state where
  "nbr_demo_full = snd (nbr_table_add_lladdr None nbr_demo (Some 0) (Some [1, 2]))"

lemmas nbr_eval = nbr_demo_full_def nbr_demo_def nbr_init_def nbr_table_register_def
  nbr_table_is_registered_def MAX_NUM_TABLES_def nbr_add_eq nbr_table_allocate_def memb_alloc_def
  memb_init_def index_from_lladdr_def nbr_enter_def nbr_claim_def nbr_mark_def seq_add_def

lemma nbr_demo_add: "nbr_table_add_lladdr None nbr_demo (Some 0) (Some [1, 2]) = (Some 0, nbr_demo_full)"
proof -
  have "fst (nbr_table_add_lladdr None nbr_demo (Some 0) (Some [1, 2])) = Some 0"
    by (simp add: nbr_eval)
  then show ?thesis unfolding nbr_demo_full_def by (metis prod.collapse)
qed

theorem nbr_table_add_is_update_witness:
  "nbr_wf nbr_demo_full \<and> nbr_table_get_from_lladdr nbr_demo_full (Some 0) (Some [1, 2]) = Some 0"
  using nbr_table_add_is_update [OF nbr_demo_wf nbr_demo_add] by simp

lemma nbr_demo_full_wf: "nbr_wf nbr_demo_full" "nbr_registered nbr_demo_full 0"
  "nbr_table_get_from_lladdr nbr_demo_full (Some 0) (Some [1, 2]) = Some 0"
  "set (nt_keys nbr_demo_full) = {..<memb_num (nt_mem nbr_demo_full)}" "nbr_unlocked nbr_demo_full = [0]"
proof -
  show "nbr_wf nbr_demo_full" "nbr_registered nbr_demo_full 0"
    "nbr_table_get_from_lladdr nbr_demo_full (Some 0) (Some [1, 2]) = Some 0"
    using nbrt.get_added [OF conjI [OF nbr_demo_wf] nbr_demo_add] by blast+
  have "nt_keys nbr_demo_full = [0]" "memb_num (nt_mem nbr_demo_full) = 1" by (simp_all add: nbr_eval)
  then show "set (nt_keys nbr_demo_full) = {..<memb_num (nt_mem nbr_demo_full)}" by auto
  show "nbr_unlocked nbr_demo_full = [0]" by (simp add: nbr_unlocked_def nbr_eval)
qed

text \<open>
  (C14) When all neighbor slots are taken: without a removal policy the oldest among the unlocked
  neighbors that the fewest tables use is evicted, never a locked one, and none if all are locked. A removal policy
  (such as that of the routing protocol) overrides this: the neighbor it names is evicted even when a table holds a lock on
  it, and its lock is dropped; if it names nobody the allocation fails, locked neighbors or not; if it names an unknown
  address the rule without a policy applies. The eviction tells exactly the tables that use the neighbor and have a callback.
\<close>

theorem nbr_replacement_policy:
  assumes "nbr_wf s" "set (nt_keys s) = {..<memb_num (nt_mem s)}"
  shows "nbr_table_allocate None s =
    (if nbr_unlocked s = [] then (None, s)
     else (Some (arg_min_list (\<lambda>k. card {i. bit (unat (nt_used_map s ! k)) i}) (nbr_unlocked s)),
           remove_key s (arg_min_list (\<lambda>k. card {i. bit (unat (nt_used_map s ! k)) i}) (nbr_unlocked s)))) \<and>
    nbr_table_allocate (Some None) s = (None, s) \<and>
    (\<forall>k. k \<in> set (nt_keys s) \<longrightarrow> nbr_table_allocate (Some (Some (nt_lladdr s ! k))) s =
       (Some k, remove_key (s\<lparr>nt_locked_map := (nt_locked_map s)[k := 0]\<rparr>) k)) \<and>
    (\<forall>a. a \<notin> (!) (nt_lladdr s) ` set (nt_keys s) \<longrightarrow>
       nbr_table_allocate (Some (Some a)) s = nbr_table_allocate None s) \<and>
    (\<forall>v t. (t, v) \<in> set (remove_key_loop s v (nt_all_tables s)) \<longleftrightarrow>
       Some t \<in> set (nt_all_tables s) \<and> nt_callback (nt_tab s t) \<and> nbr_uses s t v)"
proof -
  have uc: "used_count s = (\<lambda>k. card {i. bit (unat (nt_used_map s ! k)) i})"
    by (simp add: fun_eq_iff used_count_def used_count_loop_card)
  have "(t, v) \<in> set (remove_key_loop s v ts) \<longleftrightarrow>
      Some t \<in> set ts \<and> nt_callback (nt_tab s t) \<and> nbr_uses s t v" for v t ts
    by (induction ts) (auto simp: nbr_get_bit_def nbr_uses_def item_from_key_def item_from_index_def
        index_from_key_def index_from_item_def)
  moreover obtain m where m: "memb_alloc (nt_mem s) = (None, m)"
  proof (cases "memb_scan (take (memb_num (nt_mem s)) (memb_used (nt_mem s))) 0")
    case None
    then show thesis by (intro that) (simp add: memb_alloc_def)
  next
    case (Some i)
    then have "i < memb_num (nt_mem s)" "\<not> memb_used (nt_mem s) ! i"
      using memb_scan_Some [OF Some] assms(1) by (auto simp: nbr_wf_def memb_wf_def)
    then have False using assms by (auto simp: nbr_wf_def)
    then show thesis ..
  qed
  have "nbr_table_allocate None s = (if nbr_unlocked s = [] then (None, s)
     else (Some (arg_min_list (used_count s) (nbr_unlocked s)),
           remove_key s (arg_min_list (used_count s) (nbr_unlocked s))))"
    unfolding nbr_table_allocate_def m by (simp add: nbr_oldest_scan) (simp add: nbr_oldest_def)
  moreover have "nbr_table_allocate (Some (Some (nt_lladdr s ! k))) s =
       (Some k, remove_key (s\<lparr>nt_locked_map := (nt_locked_map s)[k := 0]\<rparr>) k)" if "k \<in> set (nt_keys s)" for k
    using find_unique [OF that, of "\<lambda>j. nt_lladdr s ! j = nt_lladdr s ! k"] nbr_wf_inj [OF assms(1) _ that]
    by (simp add: nbr_allocate_full [OF m] nbr_removable_def)
  moreover have "nbr_table_allocate (Some None) s = (None, s)"
    by (simp add: nbr_allocate_full [OF m] nbr_removable_def)
  moreover have "nbr_table_allocate (Some (Some a)) s = nbr_table_allocate None s"
    if "a \<notin> (!) (nt_lladdr s) ` set (nt_keys s)" for a
  proof -
    have "find (\<lambda>k. nt_lladdr s ! k = a) (nt_keys s) = None" using that by (auto simp: find_None_set)
    then have "nbr_removable (Some (Some a)) s = nbr_removable None s" by (simp add: nbr_removable_def)
    then show ?thesis by (simp only: nbr_allocate_full [OF m])
  qed
  ultimately show ?thesis unfolding uc by blast
qed

theorem nbr_replacement_policy_witness:
  "fst (nbr_table_allocate None nbr_demo_full) = Some 0 \<and> fst (nbr_table_allocate (Some None) nbr_demo_full) = None"
  using nbr_replacement_policy [OF nbr_demo_full_wf(1,4)] nbr_demo_full_wf(5) by simp

text \<open>
  (C15) A neighbor that one table has locked is evicted only by name: whatever addresses are added to whatever tables
  afterwards, in whatever number, and whatever the removal policy answers, the locked address is still found at the same
  item, unless the policy answers this very address. If it does when all slots are taken and a new address comes, the
  locked neighbor is lost.
\<close>

theorem nbr_locked_evicted_only_by_name:
  assumes "nbr_wf s" "nbr_registered s t"
    and "nbr_table_get_from_lladdr s (Some t) (Some a) = Some k"
    and "s1 = snd (nbr_table_lock s (Some t) (Some k))"
    and "\<forall>(policy, t', b) \<in> set xs. nbr_registered s t' \<and> policy \<noteq> Some (Some a)" "s2 = nbr_add_all xs s1"
  shows "nbr_table_get_from_lladdr s2 (Some t) (Some a) = Some k \<and>
    (\<forall>t' b. nbr_registered s t' \<and> set (nt_keys s2) = {..<memb_num (nt_mem s2)} \<and>
       b \<notin> (!) (nt_lladdr s2) ` set (nt_keys s2) \<longrightarrow>
       nbr_table_get_from_lladdr (snd (nbr_table_add_lladdr (Some (Some a)) s2 (Some t') (Some b))) (Some t) (Some a) = None)"
proof -
  let ?b = "nt_index (nt_tab s t)" and ?l = "nt_locked_map s"
  have map: "nbr_map s t a = Some k" using assms(1,3) by (simp add: get_from_lladdr_map lladdr_or_null_def)
  then have k: "k < length ?l" using nbr_map_Some [OF assms(1)] assms(1) by (auto simp: nbr_wf_def)
  have s1: "s1 = s\<lparr>nt_locked_map := ?l[k := set_bit ?b (?l ! k)]\<rparr>"
    using assms(4) by (simp add: nbr_table_lock_def nbr_set_bit_def index_from_item_def Let_def)
  have "bit (set_bit ?b (?l ! k)) ?b"
    using nbr_registered_less [OF assms(1,2)] by (simp add: bit_set_bit_iff)
  then have "nt_locked_map s1 ! k \<noteq> 0" using k unfolding s1 by (auto simp del: bit_set_bit_iff)
  then have s2: "nbr_wf s2 \<and> nbr_map s2 t a = Some k"
    unfolding assms(6) using assms(1,2,5) map by (intro nbr_locked_survives) (auto simp: s1)
  have reg: "nbr_registered s2 = nbr_registered s"
    unfolding assms(6) using assms(1,5) by (subst nbr_add_all_registered) (auto simp: s1)
  have lost: "nbr_table_get_from_lladdr (snd (nbr_table_add_lladdr (Some (Some a)) s2 (Some t') (Some b))) (Some t) (Some a) = None"
    if t': "nbr_registered s t'" and full: "set (nt_keys s2) = {..<memb_num (nt_mem s2)}"
      and b: "b \<notin> (!) (nt_lladdr s2) ` set (nt_keys s2)" for t' b
  proof -
    obtain r s' where add: "nbr_table_add_lladdr (Some (Some a)) s2 (Some t') (Some b) = (r, s')" by fastforce
    have ka: "k \<in> set (nt_keys s2)" "nt_lladdr s2 ! k = a" using nbr_map_Some [of s2] s2 by blast+
      from nbr_add_named_full [OF _ _ _ ka b full add, of t] s2 reg t' assms(2)
    show ?thesis by (simp add: add get_from_lladdr_map lladdr_or_null_def)
  qed
  have "nbr_table_get_from_lladdr s2 (Some t) (Some a) = Some k"
    using s2 by (simp add: get_from_lladdr_map lladdr_or_null_def)
  with lost show ?thesis by blast
qed

theorem nbr_locked_evicted_only_by_name_witness:
  "nbr_table_get_from_lladdr (nbr_add_all [(None, 0, [3, 4]), (Some None, 0, [5, 6])]
     (snd (nbr_table_lock nbr_demo_full (Some 0) (Some 0)))) (Some 0) (Some [1, 2]) = Some 0"
  using nbr_locked_evicted_only_by_name [OF nbr_demo_full_wf(1,2,3) refl _ refl, of "[(None, 0, [3, 4]), (Some None, 0, [5, 6])]"]
    nbr_demo_full_wf(2) by simp

section \<open>Iterating over a table\<close>

text \<open>\<open>for(item = nbr_table_head(t); item != NULL; item = nbr_table_next(t, item))\<close>, the items visited.\<close>

partial_function (option) nbr_walk_from :: "nbr_state \<Rightarrow> tid \<Rightarrow> nat option \<Rightarrow> nat list option" where
  "nbr_walk_from s t item =
     (if item = None then Some []
      else Option.bind (nbr_table_next s (Some t) item)
        (\<lambda>item'. Option.bind (nbr_walk_from s t item') (\<lambda>rest. Some (the item # rest))))"

definition nbr_walk :: "nbr_state \<Rightarrow> tid \<Rightarrow> nat list option" where
  "nbr_walk s t = Option.bind (nbr_table_head s (Some t)) (nbr_walk_from s t)"

definition nbr_items :: "nbr_state \<Rightarrow> tid \<Rightarrow> nat list" where
  "nbr_items s t = filter (nbr_uses s t) (nt_keys s)"

lemma key_next_append:
  "distinct (xs @ k # ys) \<Longrightarrow> key_next (xs @ k # ys) (Some k) = key_head ys"
proof (induction xs)
  case Nil
  then show ?case by (cases ys) (auto simp: key_head_def)
next
  case (Cons x xs)
  then show ?case by (cases xs) auto
qed

lemma nbr_next_loop:
  "distinct (xs @ k # ys) \<Longrightarrow> nt_keys s = xs @ k # ys \<Longrightarrow>
   nbr_table_next_loop s (Some t) (Some k) = Some (find (nbr_uses s t) ys)"
proof (induction ys arbitrary: xs k)
  case Nil
  have "key_next (nt_keys s) (Some k) = None"
    using key_next_append [OF Nil(1)] unfolding Nil(2) by (simp add: key_head_def)
  then show ?case
    by (subst nbr_table_next_loop.simps)
      (simp add: key_from_item_def index_from_item_def key_from_index_def item_from_key_def
        item_from_index_def index_from_key_def)
next
  case (Cons y ys)
  have nx: "key_next (nt_keys s) (Some k) = Some y"
    using key_next_append [OF Cons.prems(1)] unfolding Cons.prems(2) by (simp add: key_head_def)
  have "nbr_table_next_loop s (Some t) (Some y) = Some (find (nbr_uses s t) ys)"
    using Cons.IH [of "xs @ [k]" y] Cons.prems by simp
  then show ?case using nx
    by (subst nbr_table_next_loop.simps)
      (simp add: key_from_item_def index_from_item_def key_from_index_def item_from_key_def
        item_from_index_def index_from_key_def nbr_get_bit_def nbr_uses_def)
qed

lemma find_eq_filter: "find P xs = (case filter P xs of [] \<Rightarrow> None | x # _ \<Rightarrow> Some x)"
  by (induction xs) auto

lemma nbr_walk_from_suffix:
  assumes "distinct (xs @ k # ys)" "nt_keys s = xs @ k # ys"
  shows "nbr_walk_from s t (Some k) = Some (k # filter (nbr_uses s t) ys)"
  using assms
proof (induction "length ys" arbitrary: xs k ys rule: less_induct)
  case less
  have nx: "nbr_table_next s (Some t) (Some k) = Some (find (nbr_uses s t) ys)"
    using nbr_next_loop [OF less.prems] by (simp add: nbr_table_next_def)
  show ?case
  proof (cases "find (nbr_uses s t) ys")
    case None
    then have "filter (nbr_uses s t) ys = []" by (simp add: find_None_set filter_empty_conv)
    then show ?thesis using nx None by (subst nbr_walk_from.simps) (simp add: nbr_walk_from.simps [of s t None])
  next
    case (Some y)
    then have P: "nbr_uses s t y" "y \<in> set ys" using find_Some_set [OF Some] by simp_all
    obtain us vs where ys: "ys = us @ y # vs" "\<forall>u \<in> set us. \<not> nbr_uses s t u"
    proof -
      obtain us y' vs where *: "ys = us @ y' # vs" "nbr_uses s t y'" "\<forall>u \<in> set us. \<not> nbr_uses s t u"
        using split_list_first_prop [of ys "nbr_uses s t"] P by blast
      moreover have "find (nbr_uses s t) ys = Some y'"
        unfolding *(1) using *(2,3) by (simp add: find_eq_filter filter_False)
      ultimately show thesis using that Some by simp
    qed
    have "nbr_walk_from s t (Some y) = Some (y # filter (nbr_uses s t) vs)"
      using less.prems ys(1) by (intro less.hyps [of vs "xs @ k # us"]) simp_all
    then show ?thesis using nx Some ys P(1) by (subst nbr_walk_from.simps) (simp add: filter_False)
  qed
qed

text \<open>
  (C16) The head/next iteration of a neighbor table ends and visits every item of the table exactly
  once, in the order in which the neighbors were added.
\<close>

theorem nbr_iteration_complete:
  assumes "nbr_wf s"
  shows "nbr_walk s t = Some (nbr_items s t) \<and> distinct (nbr_items s t) \<and>
    set (nbr_items s t) = {k. \<exists>a. nbr_table_get_from_lladdr s (Some t) (Some a) = Some k}"
proof (intro conjI)
  have d: "distinct (nt_keys s)" using assms by (simp add: nbr_wf_def)
  show "nbr_walk s t = Some (nbr_items s t)"
  proof (cases "nt_keys s")
    case Nil
    then show ?thesis
      by (simp add: nbr_walk_def nbr_table_head_def key_head_def item_from_key_def index_from_key_def
          item_from_index_def nbr_get_bit_def index_from_item_def nbr_table_next_def nbr_items_def
          nbr_table_next_loop.simps nbr_walk_from.simps key_from_item_def key_from_index_def)
  next
    case (Cons k ks)
    have head: "nbr_table_head s (Some t) = Some (find (nbr_uses s t) (nt_keys s))"
      using nbr_next_loop [of "[]" k ks s t] d Cons
      by (auto simp: nbr_table_head_def key_head_def item_from_key_def index_from_key_def Let_def
          item_from_index_def nbr_get_bit_def index_from_item_def nbr_table_next_def nbr_uses_def)
    show ?thesis
    proof (cases "find (nbr_uses s t) (nt_keys s)")
      case None
      then have "nbr_items s t = []" by (simp add: nbr_items_def find_None_set filter_empty_conv)
      then show ?thesis using head None by (simp add: nbr_walk_def nbr_walk_from.simps)
    next
      case (Some y)
      obtain us y' vs where *: "nt_keys s = us @ y' # vs" "nbr_uses s t y'" "\<forall>u \<in> set us. \<not> nbr_uses s t u"
        using split_list_first_prop [of "nt_keys s" "nbr_uses s t"] find_Some_set [OF Some] by blast
      have "find (nbr_uses s t) (nt_keys s) = Some y'"
        unfolding *(1) using *(2,3) by (simp add: find_eq_filter filter_False)
      then have "nbr_walk s t = nbr_walk_from s t (Some y')" using head by (simp add: nbr_walk_def)
      also have "\<dots> = Some (y' # filter (nbr_uses s t) vs)"
        using nbr_walk_from_suffix [OF _ *(1)] d *(1) by simp
      also have "y' # filter (nbr_uses s t) vs = nbr_items s t"
        unfolding nbr_items_def *(1) using *(2,3) by (simp add: filter_False)
      finally show ?thesis .
    qed
  qed
  show "distinct (nbr_items s t)" using d by (simp add: nbr_items_def)
  show "set (nbr_items s t) = {k. \<exists>a. nbr_table_get_from_lladdr s (Some t) (Some a) = Some k}"
    using assms nbr_map_Some [OF assms, of t] by (auto simp: nbr_items_def get_from_lladdr_map lladdr_or_null_def)
qed

theorem nbr_iteration_complete_witness: "nbr_walk nbr_demo_full 0 = Some [0]"
proof -
  have "nbr_walk nbr_demo_full 0 = Some (nbr_items nbr_demo_full 0)"
    using nbr_iteration_complete [OF nbr_demo_full_wf(1), of 0] by blast
  then show ?thesis by (simp add: nbr_items_def nbr_uses_def nbr_eval bit_set_bit_iff)
qed

end
