(* ===== verification/Tsch_Types.thy ===== *)
theory Tsch_Types
  imports Tsch_Asn Lib_Ringbuf
begin

text \<open>
  The data of \<^verbatim>\<open>os/net/mac/tsch/tsch-types.h\<close>: links, slotframes, packets and neighbors. The
  \<^verbatim>\<open>next\<close> pointers of links and slotframes are the order of the sequences they are kept in
  (the list contract), pointers to packets are addresses in the packet pool, and a queuebuf is
  named by a number.
\<close>

definition LINK_OPTION_TX :: u8 where "LINK_OPTION_TX = 1"
definition LINK_OPTION_RX :: u8 where "LINK_OPTION_RX = 2"
definition LINK_OPTION_SHARED :: u8 where "LINK_OPTION_SHARED = 4"
definition LINK_OPTION_TIME_KEEPING :: u8 where "LINK_OPTION_TIME_KEEPING = 8"

lemmas link_option_defs = LINK_OPTION_TX_def LINK_OPTION_RX_def LINK_OPTION_SHARED_def
  LINK_OPTION_TIME_KEEPING_def

datatype link_type = LINK_TYPE_NORMAL | LINK_TYPE_ADVERTISING | LINK_TYPE_ADVERTISING_ONLY

record tsch_link =
  lk_handle :: u16
  lk_addr :: linkaddr
  lk_slotframe_handle :: u16
  lk_timeslot :: u16
  lk_channel_offset :: u16
  lk_link_options :: u8
  lk_link_type :: link_type
  lk_data :: nat

record tsch_packet =
  tp_qb :: nat
  tp_sent :: nat
  tp_ptr :: nat
  tp_transmissions :: u8
  tp_max_transmissions :: u8
  tp_ret :: u8
  tp_header_len :: u8
  tp_tsch_sync_ie_offset :: u8

record tsch_neighbor =
  tn_is_broadcast :: bool
  tn_is_time_source :: bool
  tn_backoff_exponent :: u8
  tn_backoff_window :: u8
  tn_last_backoff_window :: u8
  tn_tx_links_count :: u8
  tn_dedicated_tx_links_count :: u8
  tn_tx_array :: "int list"
  tn_tx_ringbuf :: ringbufindex

definition MAC_TX_OK :: u8 where "MAC_TX_OK = 0"
definition MAC_TX_COLLISION :: u8 where "MAC_TX_COLLISION = 1"
definition MAC_TX_NOACK :: u8 where "MAC_TX_NOACK = 2"
definition MAC_TX_DEFERRED :: u8 where "MAC_TX_DEFERRED = 3"
definition MAC_TX_ERR :: u8 where "MAC_TX_ERR = 4"
definition MAC_TX_ERR_FATAL :: u8 where "MAC_TX_ERR_FATAL = 5"

definition tsch_broadcast_address :: linkaddr where "tsch_broadcast_address = replicate 8 0xff"
definition tsch_eb_address :: linkaddr where "tsch_eb_address = replicate 8 0"

definition TSCH_MAC_MIN_BE :: u8 where "TSCH_MAC_MIN_BE = 1"
definition TSCH_MAC_MAX_BE :: u8 where "TSCH_MAC_MAX_BE = 5"

definition QUEUEBUF_NUM :: nat where "QUEUEBUF_NUM = 16"
definition TSCH_QUEUE_NUM_PER_NEIGHBOR :: nat where "TSCH_QUEUE_NUM_PER_NEIGHBOR = 16"

end
