(* ===== verification/Tsch_Queue.thy ===== *)
theory Tsch_Queue
  imports Tsch_Types Nbr_Table
begin

text \<open>
  The packet queues of \<^verbatim>\<open>os/net/mac/tsch/tsch-queue.c\<close>: one bounded FIFO of packet
  pointers per neighbor, kept in the neighbor table \<open>tsch_neighbors\<close>; packets come from the pool
  \<^verbatim>\<open>packet_memb\<close>. The lock of \<^verbatim>\<open>tsch-slot-operation.c\<close> is part of the state. A loop
  over the neighbors visits \<open>nbr_items\<close>, the items that the head/next iteration visits.

  The queuebuf module is not modelled: allocating one answers \<open>Some\<close> name or \<open>None\<close> (an argument), freeing one is
  recorded, and its attributes are a function from names. Calls to upper layers are recorded.
\<close>

record tsch_q =
  tq_locked :: bool
  tq_lock_requested :: bool
  tq_nt :: nbr_state
  tq_nbr :: "nat \<Rightarrow> tsch_neighbor"
  tq_mem :: memb
  tq_pkt :: "int \<Rightarrow> tsch_packet"
  tq_n_eb :: "nat option"
  tq_n_broadcast :: "nat option"
  tq_is_coordinator :: bool
  tq_keepalive :: bool
  tq_sent_calls :: "(nat \<times> nat \<times> u8 \<times> u8) list"
  tq_qb_freed :: "nat list"
  tq_early_drops :: u16

text \<open>The table \<^verbatim>\<open>tsch_neighbors\<close>.\<close>

definition TSCH_NBRS :: tid where "TSCH_NBRS = 0"

definition tsch_nbrs :: "tsch_q \<Rightarrow> nat list" where
  "tsch_nbrs s = nbr_items (tq_nt s) TSCH_NBRS"

abbreviation tq_set_nbr :: "tsch_q \<Rightarrow> nat \<Rightarrow> tsch_neighbor \<Rightarrow> tsch_q" where
  "tq_set_nbr s n x \<equiv> s\<lparr>tq_nbr := (tq_nbr s)(n := x)\<rparr>"

section \<open>The lock\<close>

definition tsch_is_locked :: "tsch_q \<Rightarrow> bool" where
  "tsch_is_locked s = tq_locked s"

text \<open>The wait for the end of the current slot operation changes nothing here.\<close>

definition tsch_get_lock :: "tsch_q \<Rightarrow> int \<times> tsch_q" where
  "tsch_get_lock s =
     (if \<not> tq_locked s
      then
        let s1 = s\<lparr>tq_lock_requested := True\<rparr> in
        if \<not> tq_locked s1 then (1, s1\<lparr>tq_locked := True, tq_lock_requested := False\<rparr>) else (0, s1)
      else (0, s))"

definition tsch_release_lock :: "tsch_q \<Rightarrow> tsch_q" where
  "tsch_release_lock s = s\<lparr>tq_locked := False\<rparr>"

section \<open>Backoff\<close>

definition tsch_queue_backoff_expired :: "tsch_neighbor \<Rightarrow> bool" where
  "tsch_queue_backoff_expired n = (tn_backoff_window n = 0)"

definition tsch_queue_backoff_reset :: "tsch_neighbor \<Rightarrow> tsch_neighbor" where
  "tsch_queue_backoff_reset n = n\<lparr>tn_backoff_window := 0, tn_backoff_exponent := TSCH_MAC_MIN_BE\<rparr>"

text \<open>\<open>rnd\<close> is the value of \<^verbatim>\<open>random_rand()\<close>; the minimum and the shift are computed as \<^verbatim>\<open>int\<close>.\<close>

definition tsch_queue_backoff_inc :: "u16 \<Rightarrow> tsch_neighbor \<Rightarrow> tsch_neighbor" where
  "tsch_queue_backoff_inc rnd n =
     (let e = of_nat (min (unat (tn_backoff_exponent n) + 1) (unat TSCH_MAC_MAX_BE)) :: u8;
          w = of_nat (unat (drop_bit 6 rnd) mod 2 ^ unat e) :: u8
      in n\<lparr>tn_backoff_exponent := e, tn_backoff_window := w + 1\<rparr>)"

section \<open>Neighbors\<close>

definition tsch_queue_get_nbr :: "tsch_q \<Rightarrow> linkaddr \<Rightarrow> nat option" where
  "tsch_queue_get_nbr s addr =
     (if \<not> tsch_is_locked s then nbr_table_get_from_lladdr (tq_nt s) (Some TSCH_NBRS) (Some addr)
      else None)"

text \<open>\<open>memset(n, 0, sizeof(struct tsch_neighbor))\<close>\<close>

definition tsch_neighbor_zero :: tsch_neighbor where
  "tsch_neighbor_zero =
     \<lparr>tn_is_broadcast = False, tn_is_time_source = False, tn_backoff_exponent = 0, tn_backoff_window = 0,
      tn_last_backoff_window = 0, tn_tx_links_count = 0, tn_dedicated_tx_links_count = 0,
      tn_tx_array = replicate TSCH_QUEUE_NUM_PER_NEIGHBOR 0,
      tn_tx_ringbuf = \<lparr>rb_mask = 0, rb_put = 0, rb_get = 0\<rparr>\<rparr>"

definition tsch_neighbor_init :: "linkaddr \<Rightarrow> tsch_neighbor" where
  "tsch_neighbor_init addr =
     (let n0 = tsch_neighbor_zero;
          n1 = n0\<lparr>tn_tx_ringbuf := ringbufindex_init (tn_tx_ringbuf n0) (of_nat TSCH_QUEUE_NUM_PER_NEIGHBOR)\<rparr>;
          n2 = n1\<lparr>tn_is_broadcast := (addr = tsch_eb_address \<or> addr = tsch_broadcast_address)\<rparr>
      in tsch_queue_backoff_reset n2)"

definition tsch_queue_add_nbr ::
  "linkaddr option option \<Rightarrow> tsch_q \<Rightarrow> linkaddr \<Rightarrow> nat option \<times> tsch_q" where
  "tsch_queue_add_nbr policy s addr =
     (case tsch_queue_get_nbr s addr of
        Some n \<Rightarrow> (Some n, s)
      | None \<Rightarrow>
          (case tsch_get_lock s of
             (ok, s1) \<Rightarrow>
               if ok \<noteq> 0 then
                 (case nbr_table_add_lladdr policy (tq_nt s1) (Some TSCH_NBRS) (Some addr) of
                    (None, nt) \<Rightarrow> (None, tsch_release_lock (s1\<lparr>tq_nt := nt\<rparr>))
                  | (Some n, nt) \<Rightarrow>
                      (Some n, tsch_release_lock
                        (tq_set_nbr (s1\<lparr>tq_nt := snd (nbr_table_lock nt (Some TSCH_NBRS) (Some n))\<rparr>)
                          n (tsch_neighbor_init addr))))
               else (None, s1)))"

definition tsch_queue_get_time_source :: "tsch_q \<Rightarrow> nat option" where
  "tsch_queue_get_time_source s =
     (if \<not> tsch_is_locked s then find (\<lambda>n. tn_is_time_source (tq_nbr s n)) (tsch_nbrs s) else None)"

definition tsch_queue_get_nbr_address :: "tsch_q \<Rightarrow> nat option \<Rightarrow> linkaddr option" where
  "tsch_queue_get_nbr_address s n = nbr_table_get_lladdr (tq_nt s) (Some TSCH_NBRS) n"

text \<open>
  The old time source is read before the new one may be added; setting the new flag comes before
  clearing the old one.
\<close>

definition tsch_queue_update_time_source ::
  "linkaddr option option \<Rightarrow> tsch_q \<Rightarrow> linkaddr option \<Rightarrow> int \<times> tsch_q" where
  "tsch_queue_update_time_source policy s new_addr =
     (if \<not> tsch_is_locked s \<and> \<not> tq_is_coordinator s then
        let old_time_src = tsch_queue_get_time_source s;
            (ok, new_time_src, s1) =
              (case new_addr of
                 None \<Rightarrow> (True, None, s)
               | Some a \<Rightarrow> (case tsch_queue_add_nbr policy s a of
                     (None, s') \<Rightarrow> (False, None, s') | (Some n, s') \<Rightarrow> (True, Some n, s')))
        in if \<not> ok then (0, s1)
           else if new_time_src \<noteq> old_time_src then
             let s2 = (case new_time_src of
                   Some n \<Rightarrow> (tq_set_nbr s1 n ((tq_nbr s1 n)\<lparr>tn_is_time_source := True\<rparr>))\<lparr>tq_keepalive := True\<rparr>
                 | None \<Rightarrow> s1\<lparr>tq_keepalive := False\<rparr>);
                 s3 = (case old_time_src of
                   Some n \<Rightarrow> tq_set_nbr s2 n ((tq_nbr s2 n)\<lparr>tn_is_time_source := False\<rparr>)
                 | None \<Rightarrow> s2)
             in (1, s3)
           else (1, s1)
      else (0, s))"

section \<open>Queues\<close>

definition tsch_queue_is_empty :: "tsch_q \<Rightarrow> nat option \<Rightarrow> bool" where
  "tsch_queue_is_empty s n =
     (\<not> tsch_is_locked s \<and> n \<noteq> None \<and> ringbufindex_empty (tn_tx_ringbuf (tq_nbr s (the n))) \<noteq> 0)"

definition tsch_queue_remove_packet_from_queue :: "tsch_q \<Rightarrow> nat option \<Rightarrow> int option \<times> tsch_q" where
  "tsch_queue_remove_packet_from_queue s n =
     (if \<not> tsch_is_locked s \<and> n \<noteq> None then
        let x = tq_nbr s (the n); (get_index, rb) = ringbufindex_get (tn_tx_ringbuf x);
            s1 = tq_set_nbr s (the n) (x\<lparr>tn_tx_ringbuf := rb\<rparr>)
        in if get_index \<noteq> -1 then (Some (tn_tx_array x ! nat get_index), s1) else (None, s1)
      else (None, s))"

definition tsch_queue_free_packet :: "tsch_q \<Rightarrow> int option \<Rightarrow> tsch_q" where
  "tsch_queue_free_packet s p =
     (case p of
        None \<Rightarrow> s
      | Some q \<Rightarrow> s\<lparr>tq_qb_freed := tq_qb_freed s @ [tp_qb (tq_pkt s q)],
                     tq_mem := snd (memb_free (tq_mem s) q)\<rparr>)"

text \<open>The loop does not end while TSCH is locked: then the queue never counts as empty.\<close>

definition tsch_queue_flush_step :: "tsch_q \<Rightarrow> nat \<Rightarrow> tsch_q" where
  "tsch_queue_flush_step s n =
     (case tsch_queue_remove_packet_from_queue s (Some n) of
        (None, s1) \<Rightarrow> s1
      | (Some q, s1) \<Rightarrow>
          let p = (tq_pkt s1 q)\<lparr>tp_ret := MAC_TX_ERR\<rparr>;
              s2 = s1\<lparr>tq_pkt := (tq_pkt s1)(q := p),
                      tq_sent_calls := tq_sent_calls s1 @ [(tp_sent p, tp_ptr p, tp_ret p, tp_transmissions p)]\<rparr>
          in tsch_queue_free_packet s2 (Some q))"

partial_function (option) tsch_queue_flush_nbr_queue :: "tsch_q \<Rightarrow> nat \<Rightarrow> tsch_q option" where
  "tsch_queue_flush_nbr_queue s n =
     (if \<not> tsch_queue_is_empty s (Some n)
      then tsch_queue_flush_nbr_queue (tsch_queue_flush_step s n) n
      else Some s)"

definition tsch_queue_remove_nbr :: "tsch_q \<Rightarrow> nat option \<Rightarrow> tsch_q option" where
  "tsch_queue_remove_nbr s n =
     (case n of
        None \<Rightarrow> Some s
      | Some i \<Rightarrow>
          (case tsch_get_lock s of
             (ok, s1) \<Rightarrow>
               if ok \<noteq> 0 then
                 map_option (\<lambda>s2. s2\<lparr>tq_nt := snd (nbr_table_remove (tq_nt s2) (Some TSCH_NBRS) (Some i))\<rparr>)
                   (tsch_queue_flush_nbr_queue (tsch_release_lock s1) i)
               else Some s1))"

text \<open>The part of \<^verbatim>\<open>tsch_queue_add_packet\<close> that has a neighbor; \<open>qb\<close> is the new queuebuf, if there is one.\<close>

definition tsch_queue_enqueue ::
  "nat option \<Rightarrow> tsch_q \<Rightarrow> nat \<Rightarrow> u8 \<Rightarrow> nat \<Rightarrow> nat \<Rightarrow> int option \<times> tsch_q" where
  "tsch_queue_enqueue qb s n max_transmissions sent ptr =
     (let x = tq_nbr s n; put_index = ringbufindex_peek_put (tn_tx_ringbuf x) in
      if put_index \<noteq> -1 then
        (case memb_alloc (tq_mem s) of
           (None, m) \<Rightarrow> (None, s\<lparr>tq_mem := m\<rparr>)
         | (Some p, m) \<Rightarrow>
             (case qb of
                Some b \<Rightarrow>
                  let pkt = (tq_pkt s p)\<lparr>tp_qb := b, tp_sent := sent, tp_ptr := ptr,
                        tp_ret := MAC_TX_DEFERRED, tp_transmissions := 0,
                        tp_max_transmissions := max_transmissions\<rparr>;
                      x1 = x\<lparr>tn_tx_array := (tn_tx_array x)[nat put_index := p],
                             tn_tx_ringbuf := snd (ringbufindex_put (tn_tx_ringbuf x))\<rparr>
                  in (Some p, (tq_set_nbr s n x1)\<lparr>tq_mem := m, tq_pkt := (tq_pkt s)(p := pkt)\<rparr>)
              | None \<Rightarrow> (None, s\<lparr>tq_mem := snd (memb_free m p)\<rparr>)))
      else (None, s))"

text \<open>\<open>ready\<close> is the scheduler's answer (\<^verbatim>\<open>TSCH_CALLBACK_PACKET_READY\<close>).\<close>

definition tsch_queue_add_packet ::
  "linkaddr option option \<Rightarrow> int \<Rightarrow> nat option \<Rightarrow> tsch_q \<Rightarrow> linkaddr \<Rightarrow> u8 \<Rightarrow> nat \<Rightarrow> nat \<Rightarrow>
   int option \<times> tsch_q" where
  "tsch_queue_add_packet policy ready qb s addr max_transmissions sent ptr =
     (if ready < 0 then (None, s)
      else if tsch_is_locked s then (None, s)
      else
        (case tsch_queue_add_nbr policy s addr of
           (None, s1) \<Rightarrow> (None, s1)
         | (Some n, s1) \<Rightarrow> tsch_queue_enqueue qb s1 n max_transmissions sent ptr))"

definition tsch_queue_global_packet_count :: "tsch_q \<Rightarrow> int" where
  "tsch_queue_global_packet_count s = int QUEUEBUF_NUM - memb_numfree (tq_mem s)"

definition tsch_queue_nbr_packet_count :: "tsch_q \<Rightarrow> nat option \<Rightarrow> int" where
  "tsch_queue_nbr_packet_count s n =
     (if n \<noteq> None then ringbufindex_elements (tn_tx_ringbuf (tq_nbr s (the n))) else -1)"

definition tsch_queue_upa_packet_sent :: "tsch_q \<Rightarrow> nat \<Rightarrow> int \<Rightarrow> u8 \<Rightarrow> int \<times> tsch_q" where
  "tsch_queue_upa_packet_sent s n p mac_tx_status =
     (let in_queue = 1; is_unicast = (\<not> tn_is_broadcast (tq_nbr s n)) in
      if mac_tx_status = MAC_TX_OK then
        (0, if is_unicast \<and> tsch_queue_is_empty s (Some n)
            then tq_set_nbr s n (tsch_queue_backoff_reset (tq_nbr s n)) else s)
      else if tp_transmissions (tq_pkt s p) \<ge> tp_max_transmissions (tq_pkt s p) then (0, s)
      else (in_queue, s))"

definition tsch_queue_packet_sent ::
  "u16 \<Rightarrow> tsch_q \<Rightarrow> nat \<Rightarrow> int \<Rightarrow> tsch_link \<Rightarrow> u8 \<Rightarrow> int \<times> tsch_q" where
  "tsch_queue_packet_sent rnd s n p link mac_tx_status =
     (let in_queue = 1; is_shared_link = (lk_link_options link AND LINK_OPTION_SHARED \<noteq> 0);
          is_unicast = (\<not> tn_is_broadcast (tq_nbr s n))
      in if mac_tx_status = MAC_TX_OK then
           let s1 = snd (tsch_queue_remove_packet_from_queue s (Some n)) in
           (0, if is_unicast \<and> (is_shared_link \<or> tsch_queue_is_empty s1 (Some n))
               then tq_set_nbr s1 n (tsch_queue_backoff_reset (tq_nbr s1 n)) else s1)
         else
           let (in_queue, s1) =
             (if tp_transmissions (tq_pkt s p) \<ge> tp_max_transmissions (tq_pkt s p)
              then (0, snd (tsch_queue_remove_packet_from_queue s (Some n))) else (in_queue, s))
           in (in_queue, if is_unicast \<and> is_shared_link
               then tq_set_nbr s1 n (tsch_queue_backoff_inc rnd (tq_nbr s1 n)) else s1))"

definition tsch_queue_drop_packets :: "tsch_q \<Rightarrow> nat option \<Rightarrow> tsch_q option" where
  "tsch_queue_drop_packets s n =
     (case n of
        None \<Rightarrow> Some s
      | Some i \<Rightarrow> map_option (\<lambda>s1. tq_set_nbr s1 i (tsch_queue_backoff_reset (tq_nbr s1 i)))
          (tsch_queue_flush_nbr_queue s i))"

text \<open>
  The loops over all neighbors. Each reads the next item before it works on the current one, and the
  work takes at most the current item out of the table, so the items are those of the start.
\<close>

fun tsch_queue_reset_loop :: "nat option \<Rightarrow> nat list \<Rightarrow> tsch_q \<Rightarrow> tsch_q option" where
  "tsch_queue_reset_loop skip [] s = Some s"
| "tsch_queue_reset_loop skip (n # ns) s =
     (if Some n \<noteq> skip then
        Option.bind (tsch_queue_drop_packets s (Some n)) (tsch_queue_reset_loop skip ns)
      else tsch_queue_reset_loop skip ns s)"

definition tsch_queue_reset_except_n_eb :: "tsch_q \<Rightarrow> tsch_q option" where
  "tsch_queue_reset_except_n_eb s =
     (if \<not> tsch_is_locked s then tsch_queue_reset_loop (tq_n_eb s) (tsch_nbrs s) s else Some s)"

definition tsch_queue_reset :: "tsch_q \<Rightarrow> tsch_q option" where
  "tsch_queue_reset s =
     (if \<not> tsch_is_locked s then tsch_queue_reset_loop None (tsch_nbrs s) s else Some s)"

definition tsch_nbr_unused :: "tsch_q \<Rightarrow> nat \<Rightarrow> bool" where
  "tsch_nbr_unused s n =
     (\<not> tn_is_broadcast (tq_nbr s n) \<and> \<not> tn_is_time_source (tq_nbr s n) \<and>
      tn_tx_links_count (tq_nbr s n) = 0 \<and> tsch_queue_is_empty s (Some n))"

fun tsch_queue_free_unused_loop :: "nat list \<Rightarrow> tsch_q \<Rightarrow> tsch_q option" where
  "tsch_queue_free_unused_loop [] s = Some s"
| "tsch_queue_free_unused_loop (n # ns) s =
     (if tsch_nbr_unused s n
      then Option.bind (tsch_queue_remove_nbr s (Some n)) (tsch_queue_free_unused_loop ns)
      else tsch_queue_free_unused_loop ns s)"

definition tsch_queue_free_unused_neighbors :: "tsch_q \<Rightarrow> tsch_q option" where
  "tsch_queue_free_unused_neighbors s =
     (if \<not> tsch_is_locked s then tsch_queue_free_unused_loop (tsch_nbrs s) s else Some s)"

section \<open>Choosing a packet\<close>

definition tsch_queue_upa_get_next_packet_for_nbr :: "tsch_q \<Rightarrow> nat option \<Rightarrow> u8 \<Rightarrow> int option" where
  "tsch_queue_upa_get_next_packet_for_nbr s n upa_last_tx_seq =
     (if \<not> tsch_is_locked s then
        let offset = upa_last_tx_seq in
        if n \<noteq> None then
          let x = tq_nbr s (the n); get_index = ringbufindex_peek_get (tn_tx_ringbuf x) in
          if get_index \<noteq> -1 then
            let get_index_with_offset =
              (if get_index + uint offset < int TSCH_QUEUE_NUM_PER_NEIGHBOR then get_index + uint offset
               else get_index + uint offset - int TSCH_QUEUE_NUM_PER_NEIGHBOR)
            in Some (tn_tx_array x ! nat get_index_with_offset)
          else None
        else None
      else None)"

definition tsch_queue_burst_get_next_packet_for_nbr :: "tsch_q \<Rightarrow> nat option \<Rightarrow> int option" where
  "tsch_queue_burst_get_next_packet_for_nbr s n =
     (if \<not> tsch_is_locked s \<and> n \<noteq> None then
        let x = tq_nbr s (the n); get_index = ringbufindex_peek_get (tn_tx_ringbuf x) in
        if get_index \<noteq> -1 then Some (tn_tx_array x ! nat get_index) else None
      else None)"

text \<open>
  The build options that the choice depends on, and what it reads of a queuebuf: the attributes
  that bind a packet to a cell, and the receiver. \<open>pcm\<close> is the scheduler's
  \<^verbatim>\<open>ALICE_PACKET_CELL_MATCHING_ON_THE_FLY\<close>: from the cell and the receiver, its verdict and
  the packet's cell.
\<close>

record q_conf =
  cf_link_selector :: bool
  cf_ost_on_demand :: bool
  cf_alice :: bool
  cf_on_the_fly :: bool
  cf_early_drop :: bool
  cf_alice_sf :: u16
  cf_ssq_offset :: int

record qb_attrs =
  qa_slotframe :: u16
  qa_timeslot :: u16
  qa_channel_offset :: u16
  qa_receiver :: linkaddr

type_synonym cell_matching = "u16 \<Rightarrow> u16 \<Rightarrow> linkaddr \<Rightarrow> int \<times> u16 \<times> u16"

definition ost_node_id_from_linkaddr :: "linkaddr \<Rightarrow> int" where
  "ost_node_id_from_linkaddr a = uint (a ! (length a - 2)) * 256 + uint (a ! (length a - 1))"

text \<open>A packet may be bound to a slotframe, a timeslot and, under ALICE, a channel offset.\<close>

definition packet_cell_match :: "bool \<Rightarrow> qb_attrs \<Rightarrow> tsch_link \<Rightarrow> bool" where
  "packet_cell_match chan a link =
     (\<not> (qa_slotframe a \<noteq> 0xffff \<and> qa_slotframe a \<noteq> lk_slotframe_handle link) \<and>
      \<not> (qa_timeslot a \<noteq> 0xffff \<and> qa_timeslot a \<noteq> lk_timeslot link) \<and>
      \<not> (chan \<and> qa_channel_offset a \<noteq> lk_channel_offset link))"

definition alice_uc_match :: "u16 \<Rightarrow> qb_attrs \<Rightarrow> u16 \<Rightarrow> u16 \<Rightarrow> tsch_link \<Rightarrow> bool" where
  "alice_uc_match sf a packet_timeslot packet_channel_offset link =
     (\<not> (qa_slotframe a \<noteq> 0xffff \<and> lk_slotframe_handle link \<noteq> sf) \<and>
      \<not> (qa_timeslot a \<noteq> 0xffff \<and> packet_timeslot \<noteq> lk_timeslot link) \<and>
      \<not> (qa_channel_offset a \<noteq> 0xffff \<and> packet_channel_offset \<noteq> lk_channel_offset link))"

definition tsch_queue_early_drop :: "tsch_q \<Rightarrow> nat \<Rightarrow> int \<Rightarrow> tsch_q" where
  "tsch_queue_early_drop s n p =
     (let s1 = tsch_queue_free_packet (s\<lparr>tq_early_drops := tq_early_drops s + 1\<rparr>) (Some p); x = tq_nbr s1 n
      in tq_set_nbr s1 n (x\<lparr>tn_tx_ringbuf := snd (ringbufindex_get (tn_tx_ringbuf x))\<rparr>))"

definition tsch_queue_select :: "q_conf \<Rightarrow> cell_matching \<Rightarrow> (nat \<Rightarrow> qb_attrs) \<Rightarrow> tsch_q \<Rightarrow> nat \<Rightarrow> int \<Rightarrow> tsch_link \<Rightarrow>
    int option \<times> tsch_q" where
  "tsch_queue_select c pcm attrs s n p link =
     (let a = attrs (tp_qb (tq_pkt s p)) in
      if \<not> cf_link_selector c then (Some p, s)
      else if cf_ost_on_demand c \<and> uint (lk_slotframe_handle link) > cf_ssq_offset c \<and>
              lk_link_options link = LINK_OPTION_TX
      then (if ost_node_id_from_linkaddr (the (tsch_queue_get_nbr_address s (Some n))) =
               (uint (lk_slotframe_handle link) - cf_ssq_offset c - 1) div 2
            then (Some p, s) else (None, s))
      else if cf_alice c \<and> cf_on_the_fly c then
        (if qa_slotframe a = cf_alice_sf c then
           (case pcm (lk_timeslot link) (lk_channel_offset link) (qa_receiver a) of
              (r, packet_timeslot, packet_channel_offset) \<Rightarrow>
                if cf_early_drop c \<and> r = 0 then (None, tsch_queue_early_drop s n p)
                else if alice_uc_match (cf_alice_sf c) a packet_timeslot packet_channel_offset link
                then (Some p, s) else (None, s))
         else if packet_cell_match True a link then (Some p, s) else (None, s))
      else if cf_alice c then
        (if packet_cell_match (qa_channel_offset a \<noteq> 0xffff) a link then (Some p, s) else (None, s))
      else if packet_cell_match False a link then (Some p, s) else (None, s))"

definition tsch_queue_get_packet_for_nbr ::
  "q_conf \<Rightarrow> cell_matching \<Rightarrow> (nat \<Rightarrow> qb_attrs) \<Rightarrow> tsch_q \<Rightarrow> nat option \<Rightarrow> tsch_link option \<Rightarrow>
   int option \<times> tsch_q" where
  "tsch_queue_get_packet_for_nbr c pcm attrs s n link =
     (if \<not> tsch_is_locked s then
        let is_shared_link = (link \<noteq> None \<and> lk_link_options (the link) AND LINK_OPTION_SHARED \<noteq> 0) in
        if n \<noteq> None then
          let x = tq_nbr s (the n); get_index = ringbufindex_peek_get (tn_tx_ringbuf x) in
          if get_index \<noteq> -1 \<and> \<not> (is_shared_link \<and> \<not> tsch_queue_backoff_expired x)
          then tsch_queue_select c pcm attrs s (the n) (tn_tx_array x ! nat get_index) (the link)
          else (None, s)
        else (None, s)
      else (None, s))"

definition tsch_queue_get_packet_for_dest_addr ::
  "q_conf \<Rightarrow> cell_matching \<Rightarrow> (nat \<Rightarrow> qb_attrs) \<Rightarrow> tsch_q \<Rightarrow> linkaddr \<Rightarrow> tsch_link option \<Rightarrow>
   int option \<times> tsch_q" where
  "tsch_queue_get_packet_for_dest_addr c pcm attrs s addr link =
     (if \<not> tsch_is_locked s
      then tsch_queue_get_packet_for_nbr c pcm attrs s (tsch_queue_get_nbr s addr) link
      else (None, s))"

fun tsch_queue_any_loop ::
  "q_conf \<Rightarrow> cell_matching \<Rightarrow> (nat \<Rightarrow> qb_attrs) \<Rightarrow> nat list \<Rightarrow> tsch_q \<Rightarrow> tsch_link option \<Rightarrow>
   (int \<times> nat) option \<times> tsch_q" where
  "tsch_queue_any_loop c pcm attrs [] s link = (None, s)"
| "tsch_queue_any_loop c pcm attrs (curr_nbr # ns) s link =
     (if \<not> tn_is_broadcast (tq_nbr s curr_nbr) \<and> tn_tx_links_count (tq_nbr s curr_nbr) = 0 then
        (case tsch_queue_get_packet_for_nbr c pcm attrs s (Some curr_nbr) link of
           (Some p, s1) \<Rightarrow> (Some (p, curr_nbr), s1)
         | (None, s1) \<Rightarrow> tsch_queue_any_loop c pcm attrs ns s1 link)
      else tsch_queue_any_loop c pcm attrs ns s link)"

text \<open>The packet and the neighbor written through \<^verbatim>\<open>*n\<close>.\<close>

definition tsch_queue_get_unicast_packet_for_any ::
  "q_conf \<Rightarrow> cell_matching \<Rightarrow> (nat \<Rightarrow> qb_attrs) \<Rightarrow> tsch_q \<Rightarrow> tsch_link option \<Rightarrow>
   (int \<times> nat) option \<times> tsch_q" where
  "tsch_queue_get_unicast_packet_for_any c pcm attrs s link =
     (if \<not> tsch_is_locked s then tsch_queue_any_loop c pcm attrs (tsch_nbrs s) s link else (None, s))"

definition tsch_queue_window_tick :: "tsch_q \<Rightarrow> linkaddr \<Rightarrow> nat \<Rightarrow> bool" where
  "tsch_queue_window_tick s dest_addr n =
     (let is_broadcast = (dest_addr = tsch_broadcast_address) in
      tn_backoff_window (tq_nbr s n) \<noteq> 0 \<and>
      (tn_tx_links_count (tq_nbr s n) = 0 \<and> is_broadcast \<or>
       tn_tx_links_count (tq_nbr s n) > 0 \<and> tsch_queue_get_nbr_address s (Some n) = Some dest_addr))"

fun tsch_queue_update_loop :: "nat list \<Rightarrow> tsch_q \<Rightarrow> linkaddr \<Rightarrow> tsch_q" where
  "tsch_queue_update_loop [] s dest_addr = s"
| "tsch_queue_update_loop (n # ns) s dest_addr =
     tsch_queue_update_loop ns
       (if tsch_queue_window_tick s dest_addr n
        then tq_set_nbr s n ((tq_nbr s n)\<lparr>tn_backoff_window := tn_backoff_window (tq_nbr s n) - 1\<rparr>)
        else s) dest_addr"

definition tsch_queue_update_all_backoff_windows :: "tsch_q \<Rightarrow> linkaddr \<Rightarrow> tsch_q" where
  "tsch_queue_update_all_backoff_windows s dest_addr =
     (if \<not> tsch_is_locked s then tsch_queue_update_loop (tsch_nbrs s) s dest_addr else s)"

section \<open>Start\<close>

definition tsch_queue_init :: "linkaddr option option \<Rightarrow> tsch_q \<Rightarrow> tsch_q" where
  "tsch_queue_init policy s =
     (let s1 = s\<lparr>tq_nt := snd (nbr_table_register (tq_nt s) TSCH_NBRS False), tq_mem := memb_init (tq_mem s)\<rparr>;
          (eb, s2) = tsch_queue_add_nbr policy s1 tsch_eb_address;
          (bc, s3) = tsch_queue_add_nbr policy (s2\<lparr>tq_n_eb := eb\<rparr>) tsch_broadcast_address
      in s3\<lparr>tq_n_broadcast := bc\<rparr>)"

end
