(* ===== verification/Tsch_Queue_Correct.thy ===== *)
theory Tsch_Queue_Correct
  imports Tsch_Queue
begin

text \<open>
  The packet queues as an abstract object: for each neighbor in the table a bounded FIFO of packets,
  every packet live in the pool and in one queue only. Each operation of \<^verbatim>\<open>tsch-queue.c\<close> is
  related to an operation on these sequences.
\<close>

section \<open>The abstraction and the invariant\<close>

definition nbr_pkts :: "tsch_neighbor \<Rightarrow> int list" where
  "nbr_pkts x = map ((!) (tn_tx_array x)) (rb_idx (tn_tx_ringbuf x))"

definition tq_pkts :: "tsch_q \<Rightarrow> nat \<Rightarrow> int list" where
  "tq_pkts s n = nbr_pkts (tq_nbr s n)"

definition tn_ok :: "tsch_neighbor \<Rightarrow> bool" where
  "tn_ok x \<longleftrightarrow> rb_wf (tn_tx_ringbuf x) \<and> rb_cap (tn_tx_ringbuf x) = 15 \<and> length (tn_tx_array x) = 16 \<and>
     TSCH_MAC_MIN_BE \<le> tn_backoff_exponent x \<and> tn_backoff_exponent x \<le> TSCH_MAC_MAX_BE \<and>
     unat (tn_backoff_window x) \<le> 2 ^ unat (tn_backoff_exponent x)"

abbreviation tq_map :: "tsch_q \<Rightarrow> linkaddr \<Rightarrow> nat option" where
  "tq_map s \<equiv> nbr_map (tq_nt s) TSCH_NBRS"

definition tq_wf :: "tsch_q \<Rightarrow> bool" where
  "tq_wf s \<longleftrightarrow> nbr_wf (tq_nt s) \<and> nbr_registered (tq_nt s) TSCH_NBRS \<and> memb_wf (tq_mem s) \<and>
     (\<forall>n \<in> ran (tq_map s). tn_ok (tq_nbr s n) \<and> distinct (tq_pkts s n) \<and>
        set (tq_pkts s n) \<subseteq> memb_live (tq_mem s) \<and>
        (\<forall>m \<in> ran (tq_map s). m \<noteq> n \<longrightarrow> set (tq_pkts s m) \<inter> set (tq_pkts s n) = {}))"

lemma tsch_nbrs_ran: "nbr_wf (tq_nt s) \<Longrightarrow> set (tsch_nbrs s) = ran (tq_map s)"
  by (auto simp: tsch_nbrs_def nbr_items_def ran_def nbr_map_Some)

lemma ranI_map: "m a = Some n \<Longrightarrow> n \<in> ran m"
  by (rule ranI)

lemma nbr_pkts_upd [simp]:
  "nbr_pkts (x\<lparr>tn_is_broadcast := b\<rparr>) = nbr_pkts x" "nbr_pkts (x\<lparr>tn_is_time_source := b\<rparr>) = nbr_pkts x"
  "nbr_pkts (x\<lparr>tn_backoff_exponent := w\<rparr>) = nbr_pkts x" "nbr_pkts (x\<lparr>tn_backoff_window := w\<rparr>) = nbr_pkts x"
  "nbr_pkts (tsch_queue_backoff_reset x) = nbr_pkts x" "nbr_pkts (tsch_queue_backoff_inc r x) = nbr_pkts x"
  by (simp_all add: nbr_pkts_def tsch_queue_backoff_reset_def tsch_queue_backoff_inc_def Let_def)

lemma tn_ok_reset [simp]: "tn_ok x \<Longrightarrow> tn_ok (tsch_queue_backoff_reset x)"
  by (simp add: tn_ok_def tsch_queue_backoff_reset_def TSCH_MAC_MIN_BE_def TSCH_MAC_MAX_BE_def)

lemma backoff_inc_values:
  fixes x r
  defines "x' \<equiv> tsch_queue_backoff_inc r x"
  shows "unat (tn_backoff_exponent x') = min (unat (tn_backoff_exponent x) + 1) 5"
    and "unat (tn_backoff_window x') = unat (drop_bit 6 r) mod 2 ^ unat (tn_backoff_exponent x') + 1"
    and "unat (tn_backoff_window x') \<le> 2 ^ unat (tn_backoff_exponent x')"
proof -
  have "unat (of_nat (min (unat (tn_backoff_exponent x) + 1) 5) :: u8) = min (unat (tn_backoff_exponent x) + 1) 5"
    by (rule unat_of_nat_u8) simp
  moreover have "tn_backoff_exponent x' = of_nat (min (unat (tn_backoff_exponent x) + 1) 5)"
    by (simp add: x'_def tsch_queue_backoff_inc_def Let_def TSCH_MAC_MAX_BE_def del: of_nat_add)
  ultimately show e: "unat (tn_backoff_exponent x') = min (unat (tn_backoff_exponent x) + 1) 5"
    by (simp only:)
  let ?e = "unat (tn_backoff_exponent x')"
  have le: "(2 :: nat) ^ ?e \<le> 2 ^ 5" by (rule power_increasing) (simp_all add: e)
  have lt: "unat (drop_bit 6 r) mod 2 ^ ?e < 2 ^ ?e" by simp
  have win: "tn_backoff_window x' = of_nat (unat (drop_bit 6 r) mod 2 ^ ?e) + 1"
    by (simp add: x'_def tsch_queue_backoff_inc_def Let_def)
  have "unat (of_nat (unat (drop_bit 6 r) mod 2 ^ ?e) :: u8) = unat (drop_bit 6 r) mod 2 ^ ?e"
    using less_le_trans [OF lt le] by (intro unat_of_nat_u8) simp
  then show w: "unat (tn_backoff_window x') = unat (drop_bit 6 r) mod 2 ^ ?e + 1"
    unfolding win using less_le_trans [OF lt le] by (simp add: unat_add_mod)
  then show "unat (tn_backoff_window x') \<le> 2 ^ ?e" using lt by linarith
qed

lemma tn_ok_inc [simp]:
  assumes "tn_ok x" shows "tn_ok (tsch_queue_backoff_inc r x)"
proof -
  have ring: "tn_tx_ringbuf (tsch_queue_backoff_inc r x) = tn_tx_ringbuf x"
      "tn_tx_array (tsch_queue_backoff_inc r x) = tn_tx_array x"
    by (simp_all add: tsch_queue_backoff_inc_def Let_def)
  show ?thesis
    using assms backoff_inc_values [of r x]
    by (simp add: tn_ok_def ring word_le_nat_alt TSCH_MAC_MIN_BE_def TSCH_MAC_MAX_BE_def)
qed

section \<open>The lock\<close>

abbreviation tq_unlock_req :: "tsch_q \<Rightarrow> tsch_q" where
  "tq_unlock_req s \<equiv> s\<lparr>tq_lock_requested := False\<rparr>"

lemma get_lock_unlocked:
  "\<not> tq_locked s \<Longrightarrow> tsch_get_lock s = (1, s\<lparr>tq_locked := True, tq_lock_requested := False\<rparr>)"
  by (simp add: tsch_get_lock_def Let_def)

lemma release_lock_unlocked: "\<not> tq_locked s \<Longrightarrow> tsch_release_lock (s\<lparr>tq_locked := True\<rparr>) = s"
  by (cases s) (simp add: tsch_release_lock_def)

text \<open>The components of the state that a lemma speaks of; the rest does not matter to the queues.\<close>

lemma tq_wf_cong:
  "tq_nt s = tq_nt s' \<Longrightarrow> tq_nbr s = tq_nbr s' \<Longrightarrow> tq_mem s = tq_mem s' \<Longrightarrow> tq_wf s = tq_wf s'"
  by (simp add: tq_wf_def tq_pkts_def)

section \<open>Adding a neighbor\<close>

lemma tsch_neighbor_init_ok:
  "tn_ok (tsch_neighbor_init a)" "nbr_pkts (tsch_neighbor_init a) = []"
  "\<not> tn_is_time_source (tsch_neighbor_init a)"
proof -
  have "(of_nat TSCH_QUEUE_NUM_PER_NEIGHBOR :: u8) = of_nat (2 ^ 4)"
    by (simp add: TSCH_QUEUE_NUM_PER_NEIGHBOR_def)
  then show "tn_ok (tsch_neighbor_init a)" "nbr_pkts (tsch_neighbor_init a) = []"
      "\<not> tn_is_time_source (tsch_neighbor_init a)"
    using ringbufindex_init_wf [of 4]
    by (simp_all add: tsch_neighbor_init_def tn_ok_def nbr_pkts_def Let_def tsch_neighbor_zero_def
        tsch_queue_backoff_reset_def TSCH_MAC_MIN_BE_def TSCH_MAC_MAX_BE_def TSCH_QUEUE_NUM_PER_NEIGHBOR_def)
qed

lemma nbr_lock_same [simp]:
  "nbr_wf (snd (nbr_table_lock s t n)) = nbr_wf s"
  "nbr_map (snd (nbr_table_lock s t n)) = nbr_map s"
  "nbr_registered (snd (nbr_table_lock s t n)) = nbr_registered s"
  by (auto simp: nbr_table_lock_def nbr_set_bit_def Let_def fun_eq_iff split: prod.splits if_splits)

lemma tq_wf_new_nbr:
  assumes wf: "tq_wf s" and s': "nbr_wf (tq_nt s')" "nbr_registered (tq_nt s') TSCH_NBRS"
    "tq_mem s' = tq_mem s" "tq_nbr s' = (tq_nbr s)(n := x)"
    and x: "tn_ok x" "nbr_pkts x = []" and ran: "ran (tq_map s') \<subseteq> insert n (ran (tq_map s))"
  shows "tq_wf s'"
proof -
  have pk: "tq_pkts s' = (tq_pkts s)(n := [])" by (simp add: tq_pkts_def fun_eq_iff s'(4) x(2))
  have "memb_wf (tq_mem s')" using wf by (simp add: tq_wf_def s'(3))
  moreover have "tn_ok (tq_nbr s' m) \<and> distinct (tq_pkts s' m) \<and> set (tq_pkts s' m) \<subseteq> memb_live (tq_mem s') \<and>
      (\<forall>k \<in> ran (tq_map s'). k \<noteq> m \<longrightarrow> set (tq_pkts s' k) \<inter> set (tq_pkts s' m) = {})"
    if m: "m \<in> ran (tq_map s')" for m
  proof (cases "m = n")
    case True
    then show ?thesis by (simp add: pk s'(4) x(1))
  next
    case False
    then have "m \<in> ran (tq_map s)" using m ran by blast
    with wf have old: "tn_ok (tq_nbr s m)" "distinct (tq_pkts s m)" "set (tq_pkts s m) \<subseteq> memb_live (tq_mem s)"
      "\<And>k. k \<in> ran (tq_map s) \<Longrightarrow> k \<noteq> m \<Longrightarrow> set (tq_pkts s k) \<inter> set (tq_pkts s m) = {}"
      by (auto simp: tq_wf_def)
    have "set (tq_pkts s' k) \<inter> set (tq_pkts s' m) = {}" if "k \<in> ran (tq_map s')" "k \<noteq> m" for k
      using that ran old(4) [of k] False by (cases "k = n") (auto simp: pk)
    with old(1-3) False show ?thesis by (simp add: pk s'(3,4))
  qed
  ultimately show ?thesis using s'(1,2) by (simp add: tq_wf_def)
qed

text \<open>
  The one neighbor an addition may evict: all slots are taken, and it is unlocked or the one the removal policy names.
\<close>

definition nbr_may_evict :: "linkaddr option option \<Rightarrow> nbr_state \<Rightarrow> linkaddr \<Rightarrow> bool" where
  "nbr_may_evict policy s b \<longleftrightarrow> set (nt_keys s) = {..<memb_num (nt_mem s)} \<and>
     (\<exists>v \<in> set (nt_keys s). nt_lladdr s ! v = b \<and> (nt_locked_map s ! v = 0 \<or> policy = Some (Some b)))"

lemma nbr_victim_may: "nbr_victim policy s v \<Longrightarrow> nbr_may_evict policy s (nt_lladdr s ! v)"
  using nbr_removable_Some [of policy s v] by (auto simp: nbr_victim_def nbr_may_evict_def)

lemma add_nbr_map:
  assumes nt: "nbr_wf nt" "nbr_registered nt t"
    and add: "nbr_table_add_lladdr policy nt (Some t) (Some a) = (Some n, nt')" and new: "nbr_map nt t a = None"
  obtains v where "nbr_map nt' t = (nbr_map nt t)(v := None, a := Some n)"
    "nbr_map nt t v = None \<or> nbr_map nt t v = Some n"
    "n \<in> ran (nbr_map nt t) \<Longrightarrow> nbr_map nt t v = Some n"
    "nbr_wf nt'" "nbr_registered nt' = nbr_registered nt" "v = a \<or> nbr_may_evict policy nt v"
  using nt add
proof (cases rule: nbr_add_cases)
  case (added k)
  then have map: "nbr_map nt' t b = (if b = a then Some n else nbr_map nt t b)" for b
    using nt(2) by (simp add: lladdr_or_null_def)
  have "nbr_map nt t b \<noteq> Some n" for b
  proof
    assume b: "nbr_map nt t b = Some n"
    with new have "b \<noteq> a" by auto
    with map [of b] map [of a] b nbr_map_Some [OF added(2)] show False by auto
  qed
  then have "n \<notin> ran (nbr_map nt t)" by (auto simp: ran_def)
  with map new show thesis by (intro that [of a] added(2,3)) auto
next
  case (replaced v)
  let ?v = "nt_lladdr nt ! v"
  have map: "nbr_map nt' t = (nbr_map nt t)(?v := None, a := Some n)"
    using replaced nt(2) by (auto simp: lladdr_or_null_def)
  have "nbr_map nt t b = Some n \<Longrightarrow> b = ?v" for b
    using nbr_map_Some [OF nt(1)] replaced(1) by auto
  moreover have "nbr_map nt t ?v = None \<or> nbr_map nt t ?v = Some n"
  proof (cases "nbr_map nt t ?v")
    case (Some m)
    then have "m \<in> set (nt_keys nt)" "nt_lladdr nt ! m = ?v" using nbr_map_Some [OF nt(1)] by auto
    moreover have "v \<in> set (nt_keys nt)" using replaced(4) by (metis nbr_removable_key nbr_victim_def)
    ultimately have "m = v" using nbr_wf_inj [OF nt(1)] by blast
    with Some replaced(1) show ?thesis by simp
  qed simp
  ultimately show thesis
    by (intro that [OF map] replaced(2,3)) (auto simp: ran_def nbr_victim_may [OF replaced(4)])
qed simp

lemma add_nbr_None:
  assumes "nbr_wf nt" "nbr_registered nt t" "nbr_table_add_lladdr policy nt (Some t) a = (None, nt')"
  shows "nt' = nt" "nbr_none_removable policy nt" "set (nt_keys nt) = {..<memb_num (nt_mem nt)}"
proof -
  have "nt' = nt \<and> nbr_none_removable policy nt \<and> set (nt_keys nt) = {..<memb_num (nt_mem nt)}"
    using assms by (cases rule: nbr_add_cases) (simp_all add: nbr_removable_None)
  then show "nt' = nt" "nbr_none_removable policy nt" "set (nt_keys nt) = {..<memb_num (nt_mem nt)}" by blast+
qed

text \<open>
  A neighbor is found, or cannot be added (every slot is taken and nobody may be evicted), or it is new: initialised, with an empty queue, at the cost of at most one other neighbor.
\<close>

lemma add_nbr_cases:
  assumes wf: "tq_wf s" and un: "\<not> tq_locked s" and add: "tsch_queue_add_nbr policy s a = (r, s')"
  obtains (present) n where "r = Some n" "s' = s" "tq_map s a = Some n"
  | (failed) "r = None" "s' = tq_unlock_req s" "tq_map s a = None" "nbr_none_removable policy (tq_nt s)"
      "set (nt_keys (tq_nt s)) = {..<memb_num (nt_mem (tq_nt s))}"
  | (new) n v where "r = Some n" "tq_wf s'" "tq_map s a = None"
      "tq_map s' = (tq_map s)(v := None, a := Some n)"
      "tq_map s v = None \<or> tq_map s v = Some n" "n \<in> ran (tq_map s) \<Longrightarrow> tq_map s v = Some n"
      "s' = s\<lparr>tq_lock_requested := False, tq_nt := tq_nt s', tq_nbr := (tq_nbr s)(n := tsch_neighbor_init a)\<rparr>"
      "v = a \<or> nbr_may_evict policy (tq_nt s) v"
proof -
  have nt: "nbr_wf (tq_nt s)" "nbr_registered (tq_nt s) TSCH_NBRS" using wf by (simp_all add: tq_wf_def)
  have get: "tsch_queue_get_nbr s a = tq_map s a"
    using un nt by (simp add: tsch_queue_get_nbr_def tsch_is_locked_def get_from_lladdr_map lladdr_or_null_def)
  have rel: "s\<lparr>tq_lock_requested := False, tq_locked := False\<rparr> = tq_unlock_req s" using un by (cases s) simp
  have rel': "s\<lparr>tq_locked := False, tq_lock_requested := False, tq_nt := nt, tq_nbr := f\<rparr> =
      s\<lparr>tq_lock_requested := False, tq_nt := nt, tq_nbr := f\<rparr>" for nt f using un by (cases s) simp
  show thesis
  proof (cases "tq_map s a")
    case (Some n)
    then show thesis using add get by (intro present [of n]) (simp_all add: tsch_queue_add_nbr_def)
  next
    case None
    obtain r' nt' where add': "nbr_table_add_lladdr policy (tq_nt s) (Some TSCH_NBRS) (Some a) = (r', nt')"
      by fastforce
    show thesis
    proof (cases r')
      case None': None
      note f = add_nbr_None [OF nt add' [unfolded None']]
      show thesis
        using add get None add' None' un f
        by (intro failed) (auto simp: tsch_queue_add_nbr_def get_lock_unlocked tsch_release_lock_def rel)
    next
      case (Some n)
      from Some add get None add' un have s': "r = Some n"
        "s' = s\<lparr>tq_lock_requested := False, tq_nt := snd (nbr_table_lock nt' (Some TSCH_NBRS) (Some n)),
           tq_nbr := (tq_nbr s)(n := tsch_neighbor_init a)\<rparr>"
        by (auto simp: tsch_queue_add_nbr_def get_lock_unlocked tsch_release_lock_def rel')
      obtain v where v: "tq_map s' = (tq_map s)(v := None, a := Some n)"
          "tq_map s v = None \<or> tq_map s v = Some n" "n \<in> ran (tq_map s) \<Longrightarrow> tq_map s v = Some n"
          "nbr_wf nt'" "nbr_registered nt' = nbr_registered (tq_nt s)" "v = a \<or> nbr_may_evict policy (tq_nt s) v"
        using add_nbr_map [OF nt add' [unfolded Some] None] s'(2) by auto
      have "tq_wf s'"
        using v tsch_neighbor_init_ok nt(2) s'(2)
        by (intro tq_wf_new_nbr [OF wf, of s' n "tsch_neighbor_init a"]) (auto simp: ran_def split: if_splits)
      then show thesis using v s' None by (intro new [of n v]) simp_all
    qed
  qed
qed

section \<open>Reading and writing one queue\<close>

lemma nbr_put:
  assumes "tn_ok x" "length (nbr_pkts x) < 15"
  obtains i where "ringbufindex_peek_put (tn_tx_ringbuf x) = int i"
    "tn_ok (x\<lparr>tn_tx_array := (tn_tx_array x)[i := p],
       tn_tx_ringbuf := snd (ringbufindex_put (tn_tx_ringbuf x))\<rparr>)"
    "nbr_pkts (x\<lparr>tn_tx_array := (tn_tx_array x)[i := p],
       tn_tx_ringbuf := snd (ringbufindex_put (tn_tx_ringbuf x))\<rparr>) = nbr_pkts x @ [p]"
proof -
  have "rb_wf (tn_tx_ringbuf x)" "length (rb_idx (tn_tx_ringbuf x)) < rb_cap (tn_tx_ringbuf x)"
      "rb_cap (tn_tx_ringbuf x) < length (tn_tx_array x)"
    using assms by (simp_all add: tn_ok_def nbr_pkts_def)
  from rb.enqueue [OF this, of p] obtain i r' where
    "ringbufindex_put (tn_tx_ringbuf x) = (1, r')" "ringbufindex_peek_put (tn_tx_ringbuf x) = int i"
    "rb_wf r'" "rb_cap r' = rb_cap (tn_tx_ringbuf x)"
    "map ((!) ((tn_tx_array x)[i := p])) (rb_idx r') = map ((!) (tn_tx_array x)) (rb_idx (tn_tx_ringbuf x)) @ [p]"
    by blast
  with assms(1) show thesis by (intro that [of i]) (simp_all add: tn_ok_def nbr_pkts_def)
qed

lemma nbr_full: "tn_ok x \<Longrightarrow> ringbufindex_peek_put (tn_tx_ringbuf x) = -1 \<longleftrightarrow> length (nbr_pkts x) = 15"
  using rb.peek_put_none_iff [of "tn_tx_ringbuf x"] by (simp add: tn_ok_def nbr_pkts_def)

lemma nbr_pkts_length: "tn_ok x \<Longrightarrow> length (nbr_pkts x) \<le> 15"
  using rb_count_le [of "tn_tx_ringbuf x"] by (simp add: tn_ok_def nbr_pkts_def)

lemma nbr_empty: "tn_ok x \<Longrightarrow> ringbufindex_empty (tn_tx_ringbuf x) \<noteq> 0 \<longleftrightarrow> nbr_pkts x = []"
  using rb.elements_idx [of "tn_tx_ringbuf x"] 
  by (simp add: ringbufindex_empty_def tn_ok_def nbr_pkts_def flip: length_rb_idx)

lemma nbr_get_Nil:
  assumes "tn_ok x" "nbr_pkts x = []"
  shows "ringbufindex_get (tn_tx_ringbuf x) = (-1, tn_tx_ringbuf x)" "ringbufindex_peek_get (tn_tx_ringbuf x) = -1"
  using assms rb.get_none [of "tn_tx_ringbuf x"] by (simp_all add: tn_ok_def nbr_pkts_def)

lemma nbr_get_Cons:
  assumes "tn_ok x" "nbr_pkts x = p # ps"
  obtains i r' where "ringbufindex_get (tn_tx_ringbuf x) = (int i, r')"
    "ringbufindex_peek_get (tn_tx_ringbuf x) = int i" "tn_tx_array x ! i = p"
    "tn_ok (x\<lparr>tn_tx_ringbuf := r'\<rparr>)" "nbr_pkts (x\<lparr>tn_tx_ringbuf := r'\<rparr>) = ps"
proof -
  have "rb_wf (tn_tx_ringbuf x)" using assms(1) by (simp add: tn_ok_def)
  from rb.dequeue [OF this assms(2) [unfolded nbr_pkts_def]] obtain i r' where
    "ringbufindex_get (tn_tx_ringbuf x) = (int i, r')" "ringbufindex_peek_get (tn_tx_ringbuf x) = int i"
    "tn_tx_array x ! i = p" "rb_wf r'" "rb_cap r' = rb_cap (tn_tx_ringbuf x)"
    "map ((!) (tn_tx_array x)) (rb_idx r') = ps"
    by blast
  with assms(1) show thesis by (intro that [of i r']) (simp_all add: tn_ok_def nbr_pkts_def)
qed

text \<open>An operation that changes one neighbor and the pool keeps the invariant.\<close>

lemma tq_wf_upd:
  assumes wf: "tq_wf s" and s': "tq_nt s' = tq_nt s" "tq_nbr s' = (tq_nbr s)(n := x)" "memb_wf (tq_mem s')"
    and x: "tn_ok x" "distinct (nbr_pkts x)" "set (nbr_pkts x) \<subseteq> memb_live (tq_mem s')"
    and other: "\<And>m. m \<in> ran (tq_map s) \<Longrightarrow> m \<noteq> n \<Longrightarrow> set (tq_pkts s m) \<subseteq> memb_live (tq_mem s') \<and>
        set (tq_pkts s m) \<inter> set (nbr_pkts x) = {}"
  shows "tq_wf s'"
proof -
  have pk: "tq_pkts s' = (tq_pkts s)(n := nbr_pkts x)" by (simp add: tq_pkts_def fun_eq_iff s'(2))
  have "tn_ok (tq_nbr s' m) \<and> distinct (tq_pkts s' m) \<and> set (tq_pkts s' m) \<subseteq> memb_live (tq_mem s') \<and>
      (\<forall>k \<in> ran (tq_map s). k \<noteq> m \<longrightarrow> set (tq_pkts s' k) \<inter> set (tq_pkts s' m) = {})"
    if m: "m \<in> ran (tq_map s)" for m
  proof (cases "m = n")
    case True
    then show ?thesis using x other by (simp add: pk s'(2))
  next
    case False
    have "set (tq_pkts s' k) \<inter> set (tq_pkts s' m) = {}" if k: "k \<in> ran (tq_map s)" "k \<noteq> m" for k
    proof (cases "k = n")
      case True
      then show ?thesis using other [OF m False] False by (auto simp: pk)
    next
      case False
      then show ?thesis using wf m k \<open>m \<noteq> n\<close> by (simp add: pk tq_wf_def)
    qed
    then show ?thesis using False wf m other [OF m False] by (simp add: pk s'(2) tq_wf_def)
  qed
  then show ?thesis using wf s' by (simp add: tq_wf_def)
qed

lemma tq_wfD:
  assumes "tq_wf s"
  shows "memb_wf (tq_mem s)"
    and "n \<in> ran (tq_map s) \<Longrightarrow> tn_ok (tq_nbr s n) \<and> distinct (tq_pkts s n) \<and> set (tq_pkts s n) \<subseteq> memb_live (tq_mem s)"
    and "n \<in> ran (tq_map s) \<Longrightarrow> m \<in> ran (tq_map s) \<Longrightarrow> m \<noteq> n \<Longrightarrow> set (tq_pkts s m) \<inter> set (tq_pkts s n) = {}"
  using assms by (auto simp: tq_wf_def)

lemma tq_wf_nbr_same:
  assumes "tq_wf s" "n \<in> ran (tq_map s)" "tn_ok x" "nbr_pkts x = tq_pkts s n"
  shows "tq_wf (tq_set_nbr s n x)"
proof (rule tq_wf_upd [OF assms(1), of _ n x])
  show "set (tq_pkts s m) \<subseteq> memb_live (tq_mem (tq_set_nbr s n x)) \<and> set (tq_pkts s m) \<inter> set (nbr_pkts x) = {}"
    if "m \<in> ran (tq_map s)" "m \<noteq> n" for m
    using tq_wfD(2,3) [OF assms(1)] that assms(2,4) by simp
qed (use assms tq_wfD(1,2) [OF assms(1)] in simp_all)

section \<open>Removing the head\<close>

lemma remove_packet_cases:
  assumes wf: "tq_wf s" and un: "\<not> tq_locked s" and n: "n \<in> ran (tq_map s)"
  obtains (empty) "tq_pkts s n = []" "tsch_queue_remove_packet_from_queue s (Some n) = (None, s)"
  | (head) p ps r' where "tq_pkts s n = p # ps"
      "tsch_queue_remove_packet_from_queue s (Some n) = (Some p, tq_set_nbr s n ((tq_nbr s n)\<lparr>tn_tx_ringbuf := r'\<rparr>))"
      "tq_wf (tq_set_nbr s n ((tq_nbr s n)\<lparr>tn_tx_ringbuf := r'\<rparr>))"
      "nbr_pkts ((tq_nbr s n)\<lparr>tn_tx_ringbuf := r'\<rparr>) = ps" "tn_ok ((tq_nbr s n)\<lparr>tn_tx_ringbuf := r'\<rparr>)"
proof (cases "tq_pkts s n")
  case Nil
  have ok: "tn_ok (tq_nbr s n)" using tq_wfD(2) [OF wf n] by blast
  have "s = tq_set_nbr s n (tq_nbr s n)" by simp
  then show thesis
    using Nil un nbr_get_Nil [OF ok] by (intro empty)
      (simp_all add: tsch_queue_remove_packet_from_queue_def tsch_is_locked_def tq_pkts_def)
next
  case (Cons p ps)
  note d = tq_wfD(2) [OF wf n]
  have ok: "tn_ok (tq_nbr s n)" using d by blast
  from nbr_get_Cons [OF ok Cons [unfolded tq_pkts_def]] obtain i r' where r':
    "ringbufindex_get (tn_tx_ringbuf (tq_nbr s n)) = (int i, r')" "tn_tx_array (tq_nbr s n) ! i = p"
    "tn_ok ((tq_nbr s n)\<lparr>tn_tx_ringbuf := r'\<rparr>)" "nbr_pkts ((tq_nbr s n)\<lparr>tn_tx_ringbuf := r'\<rparr>) = ps"
    by metis
  have "tq_wf (tq_set_nbr s n ((tq_nbr s n)\<lparr>tn_tx_ringbuf := r'\<rparr>))"
  proof (rule tq_wf_upd [OF wf, where n = n and x = "(tq_nbr s n)\<lparr>tn_tx_ringbuf := r'\<rparr>"])
    show "set (tq_pkts s m) \<subseteq> memb_live (tq_mem (tq_set_nbr s n ((tq_nbr s n)\<lparr>tn_tx_ringbuf := r'\<rparr>))) \<and>
        set (tq_pkts s m) \<inter> set (nbr_pkts ((tq_nbr s n)\<lparr>tn_tx_ringbuf := r'\<rparr>)) = {}"
      if "m \<in> ran (tq_map s)" "m \<noteq> n" for m
      using tq_wfD(2) [OF wf that(1)] tq_wfD(3) [OF wf n that] Cons by (simp add: r'(4))
  qed (use d Cons r'(3,4) tq_wfD(1) [OF wf] in simp_all)
  with Cons r' un show thesis
    by (intro head) (simp_all add: tsch_queue_remove_packet_from_queue_def tsch_is_locked_def)
qed

lemma queue_is_empty:
  "tq_wf s \<Longrightarrow> \<not> tq_locked s \<Longrightarrow> n \<in> ran (tq_map s) \<Longrightarrow> tsch_queue_is_empty s (Some n) \<longleftrightarrow> tq_pkts s n = []"
  using tq_wfD(2) [of s n] nbr_empty [of "tq_nbr s n"]
  by (auto simp: tsch_queue_is_empty_def tsch_is_locked_def tq_pkts_def)

lemma free_packet_wf:
  assumes wf: "tq_wf s" and own: "\<And>m. m \<in> ran (tq_map s) \<Longrightarrow> p \<notin> set (tq_pkts s m)"
  shows "tq_wf (tsch_queue_free_packet s (Some p))"
    and "memb_live (tq_mem (tsch_queue_free_packet s (Some p))) = memb_live (tq_mem s) - {p}"
proof -
  note f = pool.free_inv [OF tq_wfD(1) [OF wf], of p]
  show "memb_live (tq_mem (tsch_queue_free_packet s (Some p))) = memb_live (tq_mem s) - {p}"
    using f by (simp add: tsch_queue_free_packet_def)
  show "tq_wf (tsch_queue_free_packet s (Some p))"
    using f tq_wfD(2) [OF wf] wf own
    by (simp add: tq_wf_def tsch_queue_free_packet_def tq_pkts_def subset_Diff_insert)
qed

section \<open>Adding a packet\<close>

text \<open>The queue that belongs to an address.\<close>

definition tq_queue :: "tsch_q \<Rightarrow> linkaddr \<Rightarrow> int list" where
  "tq_queue s a = (case tq_map s a of None \<Rightarrow> [] | Some n \<Rightarrow> tq_pkts s n)"

lemma tq_map_inj: "tq_wf s \<Longrightarrow> tq_map s a = Some n \<Longrightarrow> tq_map s b = Some n \<Longrightarrow> a = b"
  using nbr_map_Some [of "tq_nt s"] by (auto simp: tq_wf_def)

lemma enqueue_cases:
  assumes wf: "tq_wf s" and n: "n \<in> ran (tq_map s)"
    and enq: "tsch_queue_enqueue qb s n mt sent ptr = (r, s')"
  obtains (failed) m where "r = None" "s' = s\<lparr>tq_mem := m\<rparr>" "memb_live m = memb_live (tq_mem s)" "tq_wf s'"
      "length (tq_pkts s n) = 15 \<or> card (memb_live (tq_mem s)) = memb_num (tq_mem s) \<or> qb = None"
  | (added) p b where "r = Some p" "qb = Some b" "p \<notin> memb_live (tq_mem s)"
      "memb_live (tq_mem s') = insert p (memb_live (tq_mem s))" "tq_wf s'" "tq_nt s' = tq_nt s"
      "tq_pkts s' = (tq_pkts s)(n := tq_pkts s n @ [p])" "tq_locked s' = tq_locked s"
      "tq_pkt s' = (tq_pkt s)(p := (tq_pkt s p)\<lparr>tp_qb := b, tp_sent := sent, tp_ptr := ptr,
         tp_ret := MAC_TX_DEFERRED, tp_transmissions := 0, tp_max_transmissions := mt\<rparr>)"
proof -
  note d = tq_wfD(2) [OF wf n]
  have mem: "memb_wf (tq_mem s)" by (rule tq_wfD(1) [OF wf])
  let ?x = "tq_nbr s n"
  have keep: "tq_wf (s\<lparr>tq_mem := m\<rparr>)" if "memb_wf m" "memb_live m = memb_live (tq_mem s)" for m
    using wf that by (simp add: tq_wf_def tq_pkts_def)
  show thesis
  proof (cases "length (tq_pkts s n) = 15")
    case True
    then have "ringbufindex_peek_put (tn_tx_ringbuf ?x) = -1" using nbr_full [of ?x] d by (simp add: tq_pkts_def)
    then have "r = None" "s' = s" using enq by (simp_all add: tsch_queue_enqueue_def)
    then show thesis using True wf by (intro failed [of "tq_mem s"]) simp_all
  next
    case False
    then have room: "length (nbr_pkts ?x) < 15"
      using nbr_pkts_length [of ?x] d by (simp add: tq_pkts_def)
    have "tn_ok ?x" using d by blast
    from mem show thesis
    proof (cases rule: pool.alloc_cases)
      case full
      with enq False keep [of "tq_mem s"] nbr_full [of ?x] d have "r = None" "s' = s\<lparr>tq_mem := tq_mem s\<rparr>"
        by (simp_all add: tsch_queue_enqueue_def tq_pkts_def Let_def)
      then show thesis using full wf by (intro failed [of "tq_mem s"]) simp_all
    next
      case (fresh p m)
      from nbr_put [OF \<open>tn_ok ?x\<close> room, of p] obtain i where i:
        "ringbufindex_peek_put (tn_tx_ringbuf ?x) = int i"
        "tn_ok (?x\<lparr>tn_tx_array := (tn_tx_array ?x)[i := p], tn_tx_ringbuf := snd (ringbufindex_put (tn_tx_ringbuf ?x))\<rparr>)"
        "nbr_pkts (?x\<lparr>tn_tx_array := (tn_tx_array ?x)[i := p], tn_tx_ringbuf := snd (ringbufindex_put (tn_tx_ringbuf ?x))\<rparr>) =
         nbr_pkts ?x @ [p]" by metis
      show thesis
      proof (cases qb)
        case None
        have "r = None" "s' = s\<lparr>tq_mem := snd (memb_free m p)\<rparr>"
          using enq None fresh(1) i(1) by (auto simp: tsch_queue_enqueue_def)
        moreover have "memb_wf (snd (memb_free m p))" "memb_live (snd (memb_free m p)) = memb_live (tq_mem s)"
          using pool.free_inv [OF fresh(4), of p] fresh(2,3) by auto
        ultimately show thesis using keep None by (intro failed [of "snd (memb_free m p)"]) simp_all
      next
        case (Some b)
        let ?x' = "?x\<lparr>tn_tx_array := (tn_tx_array ?x)[i := p], tn_tx_ringbuf := snd (ringbufindex_put (tn_tx_ringbuf ?x))\<rparr>"
        have s': "r = Some p" "s' = (tq_set_nbr s n ?x')\<lparr>tq_mem := m, tq_pkt := (tq_pkt s)(p := (tq_pkt s p)
            \<lparr>tp_qb := b, tp_sent := sent, tp_ptr := ptr, tp_ret := MAC_TX_DEFERRED,
             tp_transmissions := 0, tp_max_transmissions := mt\<rparr>)\<rparr>"
          using enq Some fresh(1) i(1) by (auto simp: tsch_queue_enqueue_def Let_def)
        have "tq_wf s'"
        proof (rule tq_wf_upd [OF wf, of s' n ?x'])
          show "set (tq_pkts s k) \<subseteq> memb_live (tq_mem s') \<and> set (tq_pkts s k) \<inter> set (nbr_pkts ?x') = {}"
            if k: "k \<in> ran (tq_map s)" "k \<noteq> n" for k
            using tq_wfD(2) [OF wf k(1)] tq_wfD(3) [OF wf n k] fresh(2,3)
            by (auto simp: s'(2) i(3) tq_pkts_def)
          show "distinct (nbr_pkts ?x')" "set (nbr_pkts ?x') \<subseteq> memb_live (tq_mem s')"
            using d fresh(2,3) by (auto simp: s'(2) i(3) tq_pkts_def)
        qed (simp_all add: s'(2) fresh(4) i(2))
        moreover have "tq_pkts s' = (tq_pkts s)(n := tq_pkts s n @ [p])"
          by (simp add: fun_eq_iff tq_pkts_def s'(2) i(3))
        ultimately show thesis
          using s' Some fresh(2,3) by (intro added [of p b]) simp_all
      qed
    qed
  qed
qed

lemma tq_queue_same:
  "tq_nt s' = tq_nt s \<Longrightarrow> tq_pkts s' = tq_pkts s \<Longrightarrow> tq_queue s' = tq_queue s"
  by (simp add: tq_queue_def fun_eq_iff split: option.splits)

text \<open>
  The queues after an addition: one neighbor, evicted for a new address, may lose its queue, and the others are as before.
\<close>

definition queues_but_evicted ::
  "linkaddr option option \<Rightarrow> tsch_q \<Rightarrow> linkaddr \<Rightarrow> tsch_q \<Rightarrow> bool" where
  "queues_but_evicted policy s a s' \<longleftrightarrow>
     (\<exists>V. (V = None \<or> tq_map s a = None \<and> (\<exists>e. V = Some e \<and> nbr_may_evict policy (tq_nt s) e)) \<and>
       (\<forall>b. b \<noteq> a \<longrightarrow> tq_queue s' b = (if V = Some b then [] else tq_queue s b)))"

lemma queues_but_evicted_same: "tq_queue s' = tq_queue s \<Longrightarrow> queues_but_evicted policy s a s'"
  unfolding queues_but_evicted_def by (intro exI [of _ None]) simp

lemma queues_but_evicted_trans:
  "queues_but_evicted policy s a s1 \<Longrightarrow> (\<And>b. b \<noteq> a \<Longrightarrow> tq_queue s' b = tq_queue s1 b) \<Longrightarrow>
   queues_but_evicted policy s a s'"
  unfolding queues_but_evicted_def by metis

lemma queues_stay_empty:
  assumes "queues_but_evicted policy s a s'" "tq_queue s' a = tq_queue s a" "\<And>b. tq_queue s b = []"
  shows "tq_queue s' b = []"
  using assms unfolding queues_but_evicted_def by (metis (no_types))

lemma add_nbr_evicted:
  assumes wf: "tq_wf s" and none: "tq_map s a = None"
    and map: "tq_map s' = (tq_map s)(v := None, a := Some n)"
    and v: "n \<in> ran (tq_map s) \<Longrightarrow> tq_map s v = Some n" "v = a \<or> nbr_may_evict policy (tq_nt s) v"
    and pk: "\<And>m. m \<noteq> n \<Longrightarrow> tq_pkts s' m = tq_pkts s m"
  shows "queues_but_evicted policy s a s'"
proof -
  have q: "tq_queue s' b = (if b = v then [] else tq_queue s b)" if "b \<noteq> a" for b
  proof (cases "b = v")
    case False
    then have b: "tq_map s' b = tq_map s b" using map that by simp
    have "tq_map s b \<noteq> Some n" using False v(1) tq_map_inj [OF wf, of b n v] by (auto simp: ran_def)
    with b pk False show ?thesis by (cases "tq_map s b") (auto simp: tq_queue_def)
  qed (use that map in \<open>simp add: tq_queue_def\<close>)
  show ?thesis
  proof (cases "v = a")
    case True
    with q show ?thesis unfolding queues_but_evicted_def by (intro exI [of _ None]) auto
  next
    case False
    with q v(2) none show ?thesis unfolding queues_but_evicted_def by (intro exI [of _ "Some v"]) auto
  qed
qed

lemma add_nbr_queue:
  assumes wf: "tq_wf s" and un: "\<not> tq_locked s" and add: "tsch_queue_add_nbr policy s a = (r, s')"
  shows "tq_wf s'" "\<not> tq_locked s'" "tq_mem s' = tq_mem s" "tq_pkt s' = tq_pkt s"
    and "r = tq_map s' a"
    and "tq_queue s' a = tq_queue s a" "queues_but_evicted policy s a s'"
    and "tq_map s a = Some n \<Longrightarrow> s' = s"
    and "r = None \<Longrightarrow> tq_queue s' = tq_queue s \<and> tq_map s a = None \<and> nbr_none_removable policy (tq_nt s) \<and>
      set (nt_keys (tq_nt s)) = {..<memb_num (nt_mem (tq_nt s))}"
proof -
  have "tq_wf s' \<and> \<not> tq_locked s' \<and> tq_mem s' = tq_mem s \<and> tq_pkt s' = tq_pkt s \<and> r = tq_map s' a \<and>
      tq_queue s' a = tq_queue s a \<and> queues_but_evicted policy s a s' \<and>
      (tq_map s a = Some n \<longrightarrow> s' = s) \<and> (r = None \<longrightarrow> tq_queue s' = tq_queue s \<and> tq_map s a = None \<and>
        nbr_none_removable policy (tq_nt s) \<and> set (nt_keys (tq_nt s)) = {..<memb_num (nt_mem (tq_nt s))})"
    using wf un add
  proof (cases rule: add_nbr_cases)
    case failed
    moreover from this have "tq_queue s' = tq_queue s"
      by (intro tq_queue_same) (simp_all add: tq_pkts_def fun_eq_iff)
    ultimately show ?thesis using un tq_wf_cong [of s' s] wf by (simp add: queues_but_evicted_same)
  next
    case (new n v)
    have "tq_pkts s' m = tq_pkts s m" if "m \<noteq> n" for m by (subst new(7)) (simp add: tq_pkts_def that)
    then have "queues_but_evicted policy s a s'"
      using new(6,8) by (intro add_nbr_evicted [OF wf new(3,4)])
    moreover have "tq_pkts s' n = []" by (subst new(7)) (simp add: tq_pkts_def tsch_neighbor_init_ok)
    then have "tq_queue s' a = tq_queue s a" using new(3,4) by (simp add: tq_queue_def)
    moreover have "tq_locked s' = tq_locked s" "tq_mem s' = tq_mem s" "tq_pkt s' = tq_pkt s"
      by (subst new(7); simp)+
    ultimately show ?thesis using new(1-4) un by auto
  qed (use wf un queues_but_evicted_same in auto)
  then show "tq_wf s'" "\<not> tq_locked s'" "tq_mem s' = tq_mem s" "tq_pkt s' = tq_pkt s"
    "r = tq_map s' a"
    "tq_queue s' a = tq_queue s a" "queues_but_evicted policy s a s'"
    "tq_map s a = Some n \<Longrightarrow> s' = s"
    "r = None \<Longrightarrow> tq_queue s' = tq_queue s \<and> tq_map s a = None \<and> nbr_none_removable policy (tq_nt s) \<and>
      set (nt_keys (tq_nt s)) = {..<memb_num (nt_mem (tq_nt s))}"
    by blast+
qed

lemma enqueue_queue:
  assumes wf: "tq_wf s" and a: "tq_map s a = Some n" and pk: "tq_pkts s' = (tq_pkts s)(n := xs)" and nt: "tq_nt s' = tq_nt s"
  shows "tq_queue s' = (tq_queue s)(a := xs)"
proof
  fix b
  show "tq_queue s' b = ((tq_queue s)(a := xs)) b"
  proof (cases "b = a")
    case False
    then have "tq_map s b \<noteq> Some n" using tq_map_inj [OF wf a] by metis
    with False show ?thesis by (cases "tq_map s b") (simp_all add: tq_queue_def pk nt)
  qed (simp add: tq_queue_def a pk nt)
qed

text \<open>
  The state before and after \<^verbatim>\<open>tsch_queue_add_packet\<close>: why a call fails and what it leaves alone, and what
  a packet that was accepted looks like. No block is freed on either way: the packets of an evicted neighbor are in no
  queue any more but stay allocated.
\<close>

definition add_failed ::
  "linkaddr option option \<Rightarrow> int \<Rightarrow> nat option \<Rightarrow> tsch_q \<Rightarrow> linkaddr \<Rightarrow> tsch_q \<Rightarrow> bool" where
  "add_failed policy ready qb s a s' \<longleftrightarrow> memb_live (tq_mem s') = memb_live (tq_mem s) \<and> tq_pkt s' = tq_pkt s \<and>
     tq_queue s' a = tq_queue s a \<and> queues_but_evicted policy s a s' \<and>
     (ready < 0 \<and> s' = s \<or>
      tq_map s a = None \<and> nbr_none_removable policy (tq_nt s) \<and>
        set (nt_keys (tq_nt s)) = {..<memb_num (nt_mem (tq_nt s))} \<and> tq_queue s' = tq_queue s \<or>
      length (tq_queue s a) = 15 \<or> card (memb_live (tq_mem s)) = memb_num (tq_mem s) \<or> qb = None)"

definition add_accepted ::
  "linkaddr option option \<Rightarrow> tsch_q \<Rightarrow> linkaddr \<Rightarrow> int \<Rightarrow> tsch_packet \<Rightarrow> tsch_q \<Rightarrow> bool" where
  "add_accepted policy s a p pkt s' \<longleftrightarrow> p \<notin> memb_live (tq_mem s) \<and>
     memb_live (tq_mem s') = insert p (memb_live (tq_mem s)) \<and> tq_pkt s' = (tq_pkt s)(p := pkt) \<and>
     tq_queue s' a = tq_queue s a @ [p] \<and> queues_but_evicted policy s a s'"

definition new_packet :: "tsch_packet \<Rightarrow> nat \<Rightarrow> u8 \<Rightarrow> nat \<Rightarrow> nat \<Rightarrow> tsch_packet" where
  "new_packet pkt b mt sent ptr = pkt\<lparr>tp_qb := b, tp_sent := sent, tp_ptr := ptr,
     tp_ret := MAC_TX_DEFERRED, tp_transmissions := 0, tp_max_transmissions := mt\<rparr>"

lemma add_packet_spec:
  assumes wf: "tq_wf s" and un: "\<not> tq_locked s"
    and add: "tsch_queue_add_packet policy ready qb s a mt sent ptr = (r, s')"
  shows "tq_wf s' \<and> (case r of
      None \<Rightarrow> add_failed policy ready qb s a s'
    | Some p \<Rightarrow> 0 \<le> ready \<and> (\<exists>b. qb = Some b \<and> add_accepted policy s a p (new_packet (tq_pkt s p) b mt sent ptr) s'))"
proof (cases "ready < 0")
  case True
  then have "r = None" "s' = s" using add by (simp_all add: tsch_queue_add_packet_def)
  then show ?thesis using True wf by (simp add: add_failed_def queues_but_evicted_same)
next
  case False
  obtain r1 s1 where nbr: "tsch_queue_add_nbr policy s a = (r1, s1)" by fastforce
  note q = add_nbr_queue [OF wf un nbr]
  show ?thesis
  proof (cases r1)
    case None
    then have "r = None" "s' = s1" using add nbr False un by (simp_all add: tsch_queue_add_packet_def tsch_is_locked_def)
    with None q(1,3,4,6,7,9) show ?thesis by (simp add: add_failed_def)
  next
    case (Some n)
    then have enq: "tsch_queue_enqueue qb s1 n mt sent ptr = (r, s')"
      using add nbr False un by (simp add: tsch_queue_add_packet_def tsch_is_locked_def)
    have a: "tq_map s1 a = Some n" using q(5) Some by simp
    then have "n \<in> ran (tq_map s1)" by (rule ranI)
    have sa: "tq_queue s a = tq_pkts s1 n" using q(6) a by (simp add: tq_queue_def)
    from q(1) \<open>n \<in> ran (tq_map s1)\<close> enq show ?thesis
    proof (cases rule: enqueue_cases)
      case (failed m)
      have q': "tq_queue s' = tq_queue s1" by (rule tq_queue_same) (simp_all add: failed(2) tq_pkts_def fun_eq_iff)
      then have "queues_but_evicted policy s a s'" using q(7) by (auto intro: queues_but_evicted_trans)
      then show ?thesis using failed q(3,4,6) q' sa by (auto simp: add_failed_def)
    next
      case (added p b)
      have q': "tq_queue s' = (tq_queue s1)(a := tq_pkts s1 n @ [p])" by (rule enqueue_queue [OF q(1) a added(7,6)])
      then have "queues_but_evicted policy s a s'" using q(7) by (auto intro: queues_but_evicted_trans)
      then show ?thesis using added q(3,4) q' sa False by (auto simp: add_accepted_def new_packet_def)
    qed
  qed
qed

section \<open>After a transmission\<close>

text \<open>The rule of the standard for the backoff of a neighbor after a transmission to it.\<close>

definition backoff_rule :: "bool \<Rightarrow> bool \<Rightarrow> bool \<Rightarrow> tsch_neighbor \<Rightarrow> tsch_neighbor \<Rightarrow> bool" where
  "backoff_rule success shared emptied x x' \<longleftrightarrow>
     (if tn_is_broadcast x \<or> (if success then \<not> shared \<and> \<not> emptied else \<not> shared)
      then tn_backoff_exponent x' = tn_backoff_exponent x \<and> tn_backoff_window x' = tn_backoff_window x
      else if success then tn_backoff_exponent x' = TSCH_MAC_MIN_BE \<and> tn_backoff_window x' = 0
      else unat (tn_backoff_exponent x') = min (unat (tn_backoff_exponent x) + 1) 5 \<and>
           0 < tn_backoff_window x' \<and> unat (tn_backoff_window x') \<le> 2 ^ unat (tn_backoff_exponent x'))"

lemma backoff_inc_pos: "0 < tn_backoff_window (tsch_queue_backoff_inc r x)"
  using backoff_inc_values(2) [of r x] by (simp add: word_less_nat_alt)

lemma backoff_reset_simps [simp]:
  "tn_backoff_window (tsch_queue_backoff_reset x) = 0"
  "tn_backoff_exponent (tsch_queue_backoff_reset x) = TSCH_MAC_MIN_BE"
  "tn_tx_ringbuf (tsch_queue_backoff_reset x) = tn_tx_ringbuf x"
  by (simp_all add: tsch_queue_backoff_reset_def)

lemma tq_pkts_set_nbr: "nbr_pkts x = ps \<Longrightarrow> tq_pkts (tq_set_nbr s n x) = (tq_pkts s)(n := ps)"
  by (simp add: tq_pkts_def fun_eq_iff)

text \<open>A neighbor whose queue or backoff changed, with the rest of the state as it was.\<close>

definition only_nbr :: "tsch_q \<Rightarrow> nat \<Rightarrow> int list \<Rightarrow> tsch_q \<Rightarrow> bool" where
  "only_nbr s n ps s' \<longleftrightarrow> tq_wf s' \<and> tq_pkts s' = (tq_pkts s)(n := ps) \<and> tq_nt s' = tq_nt s \<and>
     tq_mem s' = tq_mem s \<and> tq_pkt s' = tq_pkt s \<and> tq_locked s' = tq_locked s \<and> (\<forall>m. m \<noteq> n \<longrightarrow> tq_nbr s' m = tq_nbr s m)"

lemma only_nbr_set:
  assumes "only_nbr s n ps s'" "n \<in> ran (tq_map s)" "tn_ok x" "nbr_pkts x = ps"
  shows "only_nbr s n ps (tq_set_nbr s' n x)"
  using assms tq_wf_nbr_same [of s' n x] tq_pkts_set_nbr [of x ps s' n]
  by (simp add: only_nbr_def)

lemma only_nbr_refl: "tq_wf s \<Longrightarrow> tq_pkts s n = ps \<Longrightarrow> only_nbr s n ps s"
  by (auto simp: only_nbr_def)

lemma only_nbr_ok:
  assumes "only_nbr s n ps s'" "n \<in> ran (tq_map s)"
  shows "tn_ok (tq_nbr s' n)" "nbr_pkts (tq_nbr s' n) = ps" "tsch_queue_is_empty s' (Some n) \<longleftrightarrow> \<not> tq_locked s \<and> ps = []"
proof -
  have n: "n \<in> ran (tq_map s')" "tq_wf s'" using assms by (simp_all add: only_nbr_def)
  show "tn_ok (tq_nbr s' n)" using tq_wfD(2) [OF n(2,1)] by blast
  show "nbr_pkts (tq_nbr s' n) = ps" using assms(1) by (simp add: only_nbr_def tq_pkts_def fun_eq_iff)
  then show "tsch_queue_is_empty s' (Some n) \<longleftrightarrow> \<not> tq_locked s \<and> ps = []"
    using nbr_empty [OF \<open>tn_ok (tq_nbr s' n)\<close>] assms(1)
    by (auto simp: tsch_queue_is_empty_def tsch_is_locked_def only_nbr_def)
qed

lemma remove_head_only:
  assumes "tq_wf s" "\<not> tq_locked s" "n \<in> ran (tq_map s)" "tq_pkts s n = p # ps"
  shows "only_nbr s n ps (snd (tsch_queue_remove_packet_from_queue s (Some n)))"
    and "fst (tsch_queue_remove_packet_from_queue s (Some n)) = Some p"
    and "\<exists>r'. tq_nbr (snd (tsch_queue_remove_packet_from_queue s (Some n))) n = (tq_nbr s n)\<lparr>tn_tx_ringbuf := r'\<rparr>"
proof -
  from assms(1-3) have "only_nbr s n ps (snd (tsch_queue_remove_packet_from_queue s (Some n))) \<and>
      fst (tsch_queue_remove_packet_from_queue s (Some n)) = Some p \<and>
      (\<exists>r'. tq_nbr (snd (tsch_queue_remove_packet_from_queue s (Some n))) n = (tq_nbr s n)\<lparr>tn_tx_ringbuf := r'\<rparr>)"
  proof (cases rule: remove_packet_cases)
    case (head q qs r')
    then show ?thesis using assms(4) tq_pkts_set_nbr [OF head(4), of s n] by (auto simp: only_nbr_def)
  qed (use assms(4) in simp)
  then show "only_nbr s n ps (snd (tsch_queue_remove_packet_from_queue s (Some n)))"
    "fst (tsch_queue_remove_packet_from_queue s (Some n)) = Some p"
    "\<exists>r'. tq_nbr (snd (tsch_queue_remove_packet_from_queue s (Some n))) n = (tq_nbr s n)\<lparr>tn_tx_ringbuf := r'\<rparr>"
    by blast+
qed

lemma packet_sent_spec:
  assumes wf: "tq_wf s" and un: "\<not> tq_locked s" and n: "n \<in> ran (tq_map s)" and hd: "tq_pkts s n = p # ps"
    and sent: "tsch_queue_packet_sent rnd s n p link status = (r, s')"
  defines "dequeued \<equiv> status = MAC_TX_OK \<or> tp_max_transmissions (tq_pkt s p) \<le> tp_transmissions (tq_pkt s p)"
  shows "r = (if dequeued then 0 else 1)"
    and "only_nbr s n (if dequeued then ps else p # ps) s'"
    and "backoff_rule (status = MAC_TX_OK) (lk_link_options link AND LINK_OPTION_SHARED \<noteq> 0) (ps = [])
      (tq_nbr s n) (tq_nbr s' n)"
proof -
  note rm = remove_head_only [OF wf un n hd]
  define s1 where "s1 = (if dequeued then snd (tsch_queue_remove_packet_from_queue s (Some n)) else s)"
  have s1: "only_nbr s n (if dequeued then ps else p # ps) s1"
    using rm(1) only_nbr_refl [OF wf hd] by (simp add: s1_def)
  note ok = only_nbr_ok [OF s1 n]
  have same: "tn_is_broadcast (tq_nbr s1 n) = tn_is_broadcast (tq_nbr s n)"
      "tn_backoff_exponent (tq_nbr s1 n) = tn_backoff_exponent (tq_nbr s n)"
      "tn_backoff_window (tq_nbr s1 n) = tn_backoff_window (tq_nbr s n)"
    using rm(3) by (auto simp: s1_def)
  have r: "r = (if dequeued then 0 else 1)" and s': "s' = (let x = tq_nbr s n;
      shared = (lk_link_options link AND LINK_OPTION_SHARED \<noteq> 0) in
      if status = MAC_TX_OK then
        (if \<not> tn_is_broadcast x \<and> (shared \<or> tsch_queue_is_empty s1 (Some n))
         then tq_set_nbr s1 n (tsch_queue_backoff_reset (tq_nbr s1 n)) else s1)
      else if \<not> tn_is_broadcast x \<and> shared
         then tq_set_nbr s1 n (tsch_queue_backoff_inc rnd (tq_nbr s1 n)) else s1)"
    using sent by (auto simp: tsch_queue_packet_sent_def s1_def dequeued_def Let_def split: if_splits)
  show "r = (if dequeued then 0 else 1)" by (fact r)
  show "only_nbr s n (if dequeued then ps else p # ps) s'"
    using s1 ok(1,2) only_nbr_set [OF s1 n] by (auto simp: s' Let_def)
  show "backoff_rule (status = MAC_TX_OK) (lk_link_options link AND LINK_OPTION_SHARED \<noteq> 0) (ps = [])
      (tq_nbr s n) (tq_nbr s' n)"
  proof (cases "status = MAC_TX_OK")
    case True
    then have "tsch_queue_is_empty s1 (Some n) \<longleftrightarrow> ps = []" using ok(3) un by (simp add: dequeued_def)
    then show ?thesis using True same by (auto simp: s' backoff_rule_def Let_def)
  next
    case False
    then show ?thesis
      using same backoff_inc_values [of rnd "tq_nbr s1 n"] backoff_inc_pos
      by (auto simp: s' backoff_rule_def Let_def)
  qed
qed

section \<open>Flushing\<close>

definition flushed_call :: "tsch_packet \<Rightarrow> nat \<times> nat \<times> u8 \<times> u8" where
  "flushed_call p = (tp_sent p, tp_ptr p, MAC_TX_ERR, tp_transmissions p)"

text \<open>The state after the packets \<open>ps\<close> of neighbor \<open>n\<close> were given back, in order.\<close>

definition flushed :: "tsch_q \<Rightarrow> nat \<Rightarrow> int list \<Rightarrow> tsch_q \<Rightarrow> bool" where
  "flushed s n ps s' \<longleftrightarrow> tq_wf s' \<and> tq_pkts s' = (tq_pkts s)(n := []) \<and> tq_nt s' = tq_nt s \<and>
     tq_locked s' = tq_locked s \<and> memb_live (tq_mem s') = memb_live (tq_mem s) - set ps \<and>
     tq_sent_calls s' = tq_sent_calls s @ map (\<lambda>p. flushed_call (tq_pkt s p)) ps \<and>
     tq_qb_freed s' = tq_qb_freed s @ map (\<lambda>p. tp_qb (tq_pkt s p)) ps"

lemma flush_step_spec:
  assumes wf: "tq_wf s" and un: "\<not> tq_locked s" and n: "n \<in> ran (tq_map s)" and hd: "tq_pkts s n = p # ps"
  shows "tq_wf (tsch_queue_flush_step s n)" "tq_pkts (tsch_queue_flush_step s n) = (tq_pkts s)(n := ps)"
    "tq_nt (tsch_queue_flush_step s n) = tq_nt s" "tq_locked (tsch_queue_flush_step s n) = tq_locked s"
    "memb_live (tq_mem (tsch_queue_flush_step s n)) = memb_live (tq_mem s) - {p}"
    "tq_sent_calls (tsch_queue_flush_step s n) = tq_sent_calls s @ [flushed_call (tq_pkt s p)]"
    "tq_qb_freed (tsch_queue_flush_step s n) = tq_qb_freed s @ [tp_qb (tq_pkt s p)]"
    "\<And>q. q \<noteq> p \<Longrightarrow> tq_pkt (tsch_queue_flush_step s n) q = tq_pkt s q"
proof -
  have "\<exists>r'. let s1 = tq_set_nbr s n ((tq_nbr s n)\<lparr>tn_tx_ringbuf := r'\<rparr>) in
      tsch_queue_remove_packet_from_queue s (Some n) = (Some p, s1) \<and> tq_wf s1 \<and>
      nbr_pkts ((tq_nbr s n)\<lparr>tn_tx_ringbuf := r'\<rparr>) = ps"
    using wf un n
  proof (cases rule: remove_packet_cases)
    case (head q qs r')
    then show ?thesis using hd by (intro exI [of _ r']) (simp add: Let_def)
  qed (use hd in simp)
  then obtain r' where rm: "tsch_queue_remove_packet_from_queue s (Some n) =
      (Some p, tq_set_nbr s n ((tq_nbr s n)\<lparr>tn_tx_ringbuf := r'\<rparr>))"
    and wf1: "tq_wf (tq_set_nbr s n ((tq_nbr s n)\<lparr>tn_tx_ringbuf := r'\<rparr>))"
    and pk: "nbr_pkts ((tq_nbr s n)\<lparr>tn_tx_ringbuf := r'\<rparr>) = ps"
    unfolding Let_def by blast
  define s2 where "s2 = (tq_set_nbr s n ((tq_nbr s n)\<lparr>tn_tx_ringbuf := r'\<rparr>))
    \<lparr>tq_pkt := (tq_pkt s)(p := (tq_pkt s p)\<lparr>tp_ret := MAC_TX_ERR\<rparr>),
     tq_sent_calls := tq_sent_calls s @ [flushed_call (tq_pkt s p)]\<rparr>"
  have step: "tsch_queue_flush_step s n = tsch_queue_free_packet s2 (Some p)"
    by (simp add: tsch_queue_flush_step_def rm s2_def flushed_call_def Let_def)
  have "tq_wf s2 = tq_wf (tq_set_nbr s n ((tq_nbr s n)\<lparr>tn_tx_ringbuf := r'\<rparr>))"
    by (rule tq_wf_cong) (simp_all add: s2_def)
  with wf1 have wf2: "tq_wf s2" by (simp only:)
  have pk2: "tq_pkts s2 = (tq_pkts s)(n := ps)" using pk by (simp add: s2_def tq_pkts_def fun_eq_iff)
  have own: "p \<notin> set (tq_pkts s2 m)" if m: "m \<in> ran (tq_map s2)" for m
  proof (cases "m = n")
    case True
    then show ?thesis using tq_wfD(2) [OF wf n] hd by (simp add: pk2)
  next
    case False
    moreover have "m \<in> ran (tq_map s)" using m by (simp add: s2_def)
    ultimately show ?thesis using tq_wfD(3) [OF wf n, of m] hd by (auto simp: pk2)
  qed
  show "tq_wf (tsch_queue_flush_step s n)"
    "memb_live (tq_mem (tsch_queue_flush_step s n)) = memb_live (tq_mem s) - {p}"
    using free_packet_wf [OF wf2 own] by (simp_all add: step) (simp add: s2_def)
  show "tq_pkts (tsch_queue_flush_step s n) = (tq_pkts s)(n := ps)"
    using pk2 by (simp add: step tsch_queue_free_packet_def tq_pkts_def fun_eq_iff)
  show "tq_nt (tsch_queue_flush_step s n) = tq_nt s" "tq_locked (tsch_queue_flush_step s n) = tq_locked s"
    "tq_sent_calls (tsch_queue_flush_step s n) = tq_sent_calls s @ [flushed_call (tq_pkt s p)]"
    "tq_qb_freed (tsch_queue_flush_step s n) = tq_qb_freed s @ [tp_qb (tq_pkt s p)]"
    "q \<noteq> p \<Longrightarrow> tq_pkt (tsch_queue_flush_step s n) q = tq_pkt s q" for q
    by (simp_all add: step s2_def tsch_queue_free_packet_def)
qed

lemma flush_spec:
  assumes "tq_wf s" "\<not> tq_locked s" "n \<in> ran (tq_map s)"
  shows "\<exists>s'. tsch_queue_flush_nbr_queue s n = Some s' \<and> flushed s n (tq_pkts s n) s'"
  using assms
proof (induction "tq_pkts s n" arbitrary: s)
  case Nil
  then have "tsch_queue_is_empty s (Some n)" by (simp add: queue_is_empty)
  then have "tsch_queue_flush_nbr_queue s n = Some s" by (simp add: tsch_queue_flush_nbr_queue.simps)
  then show ?case using Nil by (auto simp: flushed_def)
next
  case (Cons p ps)
  let ?t = "tsch_queue_flush_step s n"
  note st = flush_step_spec [OF Cons.prems Cons.hyps(2) [symmetric]]
  have dist: "p \<notin> set ps" using tq_wfD(2) [OF Cons.prems(1,3)] Cons.hyps(2) by (metis distinct.simps(2))
  have "\<exists>s'. tsch_queue_flush_nbr_queue ?t n = Some s' \<and> flushed ?t n ps s'"
    using Cons.hyps(1) [of ?t] st(1-4) Cons.prems by simp
  then obtain s' where s': "tsch_queue_flush_nbr_queue ?t n = Some s'" "flushed ?t n ps s'" by blast
  have "\<not> tsch_queue_is_empty s (Some n)" using queue_is_empty [OF Cons.prems] Cons.hyps(2) by (metis list.distinct(1))
  then have "tsch_queue_flush_nbr_queue s n = Some s'" using s'(1) by (subst tsch_queue_flush_nbr_queue.simps) simp
  moreover have same: "tq_pkt ?t q = tq_pkt s q" if "q \<in> set ps" for q
    using st(8) [of q] that dist by (cases "q = p") simp_all
  have "map (\<lambda>q. flushed_call (tq_pkt ?t q)) ps = map (\<lambda>q. flushed_call (tq_pkt s q)) ps"
      "map (\<lambda>q. tp_qb (tq_pkt ?t q)) ps = map (\<lambda>q. tp_qb (tq_pkt s q)) ps"
    by (auto simp: same)
  then have "flushed s n (p # ps) s'"
    using s'(2) st(2-7) unfolding flushed_def by (auto simp del: fun_upd_apply)
  ultimately show ?case using Cons.hyps(2) by metis
qed

text \<open>Under the lock no queue counts as empty and nothing is dequeued: the loop does not end.\<close>

lemma flush_step_locked: "tq_locked s \<Longrightarrow> tsch_queue_flush_step s n = s"
  by (simp add: tsch_queue_flush_step_def tsch_queue_remove_packet_from_queue_def tsch_is_locked_def)

lemma flush_result_unlocked:
  assumes "tsch_queue_flush_nbr_queue s n = Some s'"
  shows "\<not> tq_locked s"
proof (rule tsch_queue_flush_nbr_queue.raw_induct [OF _ assms])
  fix f :: "tsch_q \<Rightarrow> nat \<Rightarrow> tsch_q option" and s n s'
  assume IH: "\<And>s n s'. f s n = Some s' \<Longrightarrow> \<not> tq_locked s"
    and body: "(if \<not> tsch_queue_is_empty s (Some n) then f (tsch_queue_flush_step s n) n else Some s) = Some s'"
  show "\<not> tq_locked s"
  proof
    assume lock: "tq_locked s"
    then have "f s n = Some s'" using body by (simp add: flush_step_locked tsch_queue_is_empty_def tsch_is_locked_def)
    with IH lock show False by blast
  qed
qed

lemma tsch_nbrs_distinct: "nbr_wf (tq_nt s) \<Longrightarrow> distinct (tsch_nbrs s)"
  by (simp add: tsch_nbrs_def nbr_items_def nbr_wf_def)

lemma drop_packets_spec:
  assumes "tq_wf s" "\<not> tq_locked s" "n \<in> ran (tq_map s)"
  shows "\<exists>s'. tsch_queue_drop_packets s (Some n) = Some s' \<and> flushed s n (tq_pkts s n) s' \<and>
    tsch_queue_backoff_expired (tq_nbr s' n)"
proof -
  from flush_spec [OF assms] obtain s1 where s1: "tsch_queue_flush_nbr_queue s n = Some s1"
    "flushed s n (tq_pkts s n) s1" by blast
  let ?s' = "tq_set_nbr s1 n (tsch_queue_backoff_reset (tq_nbr s1 n))"
  have n1: "n \<in> ran (tq_map s1)" "tq_wf s1" using s1(2) assms(3) by (simp_all add: flushed_def)
  have "tq_pkts s1 n = []" using s1(2) by (simp add: flushed_def)
  then have pk: "tq_pkts ?s' = tq_pkts s1" by (simp add: tq_pkts_def fun_eq_iff)
  have "tq_wf ?s'" using tq_wf_nbr_same [OF n1(2,1)] tq_wfD(2) [OF n1(2,1)] by (simp add: tq_pkts_def)
  then have "flushed s n (tq_pkts s n) ?s'" using s1(2) pk by (simp add: flushed_def)
  then show ?thesis using s1(1) by (simp add: tsch_queue_drop_packets_def tsch_queue_backoff_expired_def)
qed

text \<open>The loops over the neighbors end, and empty the queues of all neighbors but the skipped one.\<close>

lemma reset_loop_spec:
  assumes "tq_wf s" "\<not> tq_locked s" "set ns \<subseteq> ran (tq_map s)"
  shows "\<exists>s'. tsch_queue_reset_loop skip ns s = Some s' \<and> tq_wf s' \<and> tq_nt s' = tq_nt s \<and>
    (\<forall>m. tq_pkts s' m = (if m \<in> set ns \<and> skip \<noteq> Some m then [] else tq_pkts s m)) \<and>
    memb_live (tq_mem s') = memb_live (tq_mem s) - (\<Union>m \<in> {m \<in> set ns. skip \<noteq> Some m}. set (tq_pkts s m))"
  using assms
proof (induction ns arbitrary: s)
  case (Cons n ns)
  show ?case
  proof (cases "skip = Some n")
    case True
    moreover have "{m \<in> set (n # ns). skip \<noteq> Some m} = {m \<in> set ns. skip \<noteq> Some m}" using True by auto
    ultimately show ?thesis using Cons.IH [of s] Cons.prems by (auto simp del: fun_upd_apply)
  next
    case False
    have "n \<in> ran (tq_map s)" using Cons.prems(3) by simp
    from drop_packets_spec [OF Cons.prems(1,2) this] obtain s1 where s1:
      "tsch_queue_drop_packets s (Some n) = Some s1" "flushed s n (tq_pkts s n) s1" by blast
    then have f: "tq_wf s1" "tq_nt s1 = tq_nt s" "\<not> tq_locked s1" "tq_pkts s1 = (tq_pkts s)(n := [])"
      "memb_live (tq_mem s1) = memb_live (tq_mem s) - set (tq_pkts s n)"
      using Cons.prems(2) by (simp_all add: flushed_def)
    have "set ns \<subseteq> ran (tq_map s1)" using Cons.prems(3) f(2) by simp
    from Cons.IH [OF f(1,3) this] obtain s' where s': "tsch_queue_reset_loop skip ns s1 = Some s'" "tq_wf s'"
      "tq_nt s' = tq_nt s" "\<forall>m. tq_pkts s' m = (if m \<in> set ns \<and> skip \<noteq> Some m then [] else tq_pkts s1 m)"
      "memb_live (tq_mem s') = memb_live (tq_mem s1) - (\<Union>m \<in> {m \<in> set ns. skip \<noteq> Some m}. set (tq_pkts s1 m))"
      using f(2) by auto
    have "tsch_queue_reset_loop skip (n # ns) s = Some s'" using s'(1) s1(1) False by auto
    moreover have "\<forall>m. tq_pkts s' m = (if m \<in> set (n # ns) \<and> skip \<noteq> Some m then [] else tq_pkts s m)"
      using s'(4) f(4) False by simp
    moreover have "memb_live (tq_mem s') =
        memb_live (tq_mem s) - (\<Union>m \<in> {m \<in> set (n # ns). skip \<noteq> Some m}. set (tq_pkts s m))"
      unfolding s'(5) f(4,5) using False by (auto split: if_splits)
    ultimately show ?thesis using s'(2,3) by blast
  qed
qed simp

section \<open>Unused neighbors\<close>

lemma tq_wf_smaller:
  assumes wf: "tq_wf s" and s': "nbr_wf (tq_nt s')" "nbr_registered (tq_nt s') TSCH_NBRS"
    "ran (tq_map s') \<subseteq> ran (tq_map s)" "tq_nbr s' = tq_nbr s" "tq_mem s' = tq_mem s"
  shows "tq_wf s'"
proof -
  have pk: "tq_pkts s' = tq_pkts s" by (simp add: tq_pkts_def fun_eq_iff s'(4))
  have "tn_ok (tq_nbr s' n) \<and> distinct (tq_pkts s' n) \<and> set (tq_pkts s' n) \<subseteq> memb_live (tq_mem s') \<and>
      (\<forall>m \<in> ran (tq_map s'). m \<noteq> n \<longrightarrow> set (tq_pkts s' m) \<inter> set (tq_pkts s' n) = {})"
    if "n \<in> ran (tq_map s')" for n
  proof -
    have n: "n \<in> ran (tq_map s)" using that s'(3) by blast
    then show ?thesis using tq_wfD(2,3) [OF wf n] s'(3) by (auto simp only: pk s'(4,5) subset_iff)
  qed
  then show ?thesis using s'(1,2,5) tq_wfD(1) [OF wf] by (simp add: tq_wf_def)
qed

lemma remove_nbr_empty:
  assumes wf: "tq_wf s" and un: "\<not> tq_locked s" and a: "tq_map s a = Some n" and empty: "tq_pkts s n = []"
  obtains s' where "tsch_queue_remove_nbr s (Some n) = Some s'" "tq_wf s'" "tq_map s' = (tq_map s)(a := None)"
    "tq_nbr s' = tq_nbr s" "tq_mem s' = tq_mem s" "\<not> tq_locked s'"
proof -
  let ?s1 = "tq_unlock_req s"
  have n: "n \<in> ran (tq_map ?s1)" using a by (auto intro: ranI)
  have wf1: "tq_wf ?s1" using wf tq_wf_cong [of ?s1 s] by simp
  have rel: "tsch_release_lock (s\<lparr>tq_locked := True, tq_lock_requested := False\<rparr>) = ?s1"
    using un by (cases s) (simp add: tsch_release_lock_def)
  have "tq_pkts ?s1 n = []" using empty by (simp add: tq_pkts_def)
  then have "tsch_queue_is_empty ?s1 (Some n)" using queue_is_empty [OF wf1 _ n] un by simp
  then have fl: "tsch_queue_flush_nbr_queue ?s1 n = Some ?s1" by (subst tsch_queue_flush_nbr_queue.simps) simp
  obtain r nt where rm: "nbr_table_remove (tq_nt s) (Some TSCH_NBRS) (Some n) = (r, nt)" by fastforce
  have nt: "nbr_wf nt" "nbr_registered nt TSCH_NBRS" "nbr_map nt TSCH_NBRS = (tq_map s)(a := None)"
    using nbrt.remove_tbl [of "tq_nt s" TSCH_NBRS a n r nt] wf a rm by (simp_all add: tq_wf_def)
  let ?s' = "?s1\<lparr>tq_nt := nt\<rparr>"
  have ran: "ran (tq_map ?s') \<subseteq> ran (tq_map s)" using nt(3) by (auto simp: ran_def split: if_splits)
  have "tq_wf ?s'" by (rule tq_wf_smaller [OF wf]) (use nt ran in simp_all)
  then show thesis
    using un nt(3) rm fl rel by (intro that [of ?s']) (simp_all add: tsch_queue_remove_nbr_def get_lock_unlocked)
qed

lemma nbr_unused_iff:
  assumes "tq_wf s" "\<not> tq_locked s" "n \<in> ran (tq_map s)"
  shows "tsch_nbr_unused s n \<longleftrightarrow> \<not> tn_is_broadcast (tq_nbr s n) \<and> \<not> tn_is_time_source (tq_nbr s n) \<and>
    tn_tx_links_count (tq_nbr s n) = 0 \<and> tq_pkts s n = []"
  using queue_is_empty [OF assms] by (simp add: tsch_nbr_unused_def)

lemma free_unused_loop_spec:
  assumes "tq_wf s" "\<not> tq_locked s" "set ns \<subseteq> ran (tq_map s)" "distinct ns"
  shows "\<exists>s'. tsch_queue_free_unused_loop ns s = Some s' \<and> tq_wf s' \<and> tq_nbr s' = tq_nbr s \<and> tq_mem s' = tq_mem s \<and>
    (\<forall>a. tq_map s' a = (case tq_map s a of None \<Rightarrow> None
       | Some n \<Rightarrow> if n \<in> set ns \<and> tsch_nbr_unused s n then None else Some n))"
  using assms
proof (induction ns arbitrary: s)
  case Nil
  then show ?case by (auto split: option.splits)
next
  case (Cons n ns)
  show ?case
  proof (cases "tsch_nbr_unused s n")
    case False
    from Cons.IH [of s] Cons.prems obtain s' where s': "tsch_queue_free_unused_loop ns s = Some s'" "tq_wf s'"
      "tq_nbr s' = tq_nbr s" "tq_mem s' = tq_mem s" "\<And>a. tq_map s' a = (case tq_map s a of None \<Rightarrow> None
       | Some n \<Rightarrow> if n \<in> set ns \<and> tsch_nbr_unused s n then None else Some n)" by auto
    have "\<forall>a. tq_map s' a = (case tq_map s a of None \<Rightarrow> None
       | Some m \<Rightarrow> if m \<in> set (n # ns) \<and> tsch_nbr_unused s m then None else Some m)"
      using s'(5) False by (auto split: option.splits)
    then show ?thesis using s'(1-4) False by (intro exI [of _ s']) simp
  next
    case True
    obtain a where a: "tq_map s a = Some n" using Cons.prems(3) by (auto simp: ran_def)
    then have n: "n \<in> ran (tq_map s)" by (rule ranI)
    have "tq_pkts s n = []" using True queue_is_empty [OF Cons.prems(1,2) n] by (simp add: tsch_nbr_unused_def)
    from remove_nbr_empty [OF Cons.prems(1,2) a this] obtain s1 where s1:
      "tsch_queue_remove_nbr s (Some n) = Some s1" "tq_wf s1" "tq_map s1 = (tq_map s)(a := None)"
      "tq_nbr s1 = tq_nbr s" "tq_mem s1 = tq_mem s" "\<not> tq_locked s1" by metis
    have inj: "b = a" if "tq_map s b = Some n" for b using that a tq_map_inj [OF Cons.prems(1)] by blast
    have unused: "tsch_nbr_unused s1 m = tsch_nbr_unused s m" for m
      using s1(4,6) Cons.prems(2) by (simp add: tsch_nbr_unused_def tsch_queue_is_empty_def tsch_is_locked_def)
    have sub: "set ns \<subseteq> ran (tq_map s1)"
    proof
      fix m assume m: "m \<in> set ns"
      then obtain b where "tq_map s b = Some m" using Cons.prems(3) by (auto simp: ran_def)
      moreover have "m \<noteq> n" using m Cons.prems(4) by auto
      ultimately show "m \<in> ran (tq_map s1)" using a unfolding s1(3) by (intro ranI [of _ b]) auto
    qed
    from Cons.IH [OF s1(2,6) sub] Cons.prems(4) obtain s' where s': "tsch_queue_free_unused_loop ns s1 = Some s'"
      "tq_wf s'" "tq_nbr s' = tq_nbr s1" "tq_mem s' = tq_mem s1" "\<And>a. tq_map s' a = (case tq_map s1 a of None \<Rightarrow> None
       | Some n \<Rightarrow> if n \<in> set ns \<and> tsch_nbr_unused s1 n then None else Some n)" by auto
    have "\<forall>b. tq_map s' b = (case tq_map s b of None \<Rightarrow> None
       | Some m \<Rightarrow> if m \<in> set (n # ns) \<and> tsch_nbr_unused s m then None else Some m)"
    proof
      fix b
      show "tq_map s' b = (case tq_map s b of None \<Rightarrow> None
        | Some m \<Rightarrow> if m \<in> set (n # ns) \<and> tsch_nbr_unused s m then None else Some m)"
      proof (cases "b = a")
        case True
        then show ?thesis using a \<open>tsch_nbr_unused s n\<close> by (simp add: s'(5) s1(3))
      next
        case False
        then have "tq_map s b \<noteq> Some n" using inj by blast
        with False show ?thesis by (cases "tq_map s b") (simp_all add: s'(5) s1(3) unused)
      qed
    qed
    then show ?thesis using s'(1-4) s1 True by (intro exI [of _ s']) simp
  qed
qed

section \<open>The choice of a packet\<close>

lemma peek_head:
  assumes "tn_ok x" "ringbufindex_peek_get (tn_tx_ringbuf x) \<noteq> -1"
  shows "\<exists>ps. nbr_pkts x = tn_tx_array x ! nat (ringbufindex_peek_get (tn_tx_ringbuf x)) # ps"
proof (cases "nbr_pkts x")
  case Nil
  then show ?thesis using nbr_get_Nil [OF assms(1)] assms(2) by simp
next
  case (Cons p ps)
  from nbr_get_Cons [OF assms(1) Cons] obtain i where
    "ringbufindex_peek_get (tn_tx_ringbuf x) = int i" "tn_tx_array x ! i = p" by metis
  then show ?thesis using Cons by simp
qed

text \<open>The cell that a packet asks for: the scheduler's answer for ALICE unicast, its attributes otherwise.\<close>

definition wanted_cell :: "q_conf \<Rightarrow> cell_matching \<Rightarrow> qb_attrs \<Rightarrow> tsch_link \<Rightarrow> u16 \<times> u16" where
  "wanted_cell c pcm a link =
     (if cf_alice c \<and> cf_on_the_fly c \<and> qa_slotframe a = cf_alice_sf c
      then snd (pcm (lk_timeslot link) (lk_channel_offset link) (qa_receiver a))
      else (qa_timeslot a, qa_channel_offset a))"

text \<open>The cells of an on-demand slotframe of OST, which carry the packets of one neighbor.\<close>

definition on_demand_link :: "q_conf \<Rightarrow> tsch_link \<Rightarrow> bool" where
  "on_demand_link c link \<longleftrightarrow> cf_ost_on_demand c \<and> cf_ssq_offset c < uint (lk_slotframe_handle link) \<and>
     lk_link_options link = LINK_OPTION_TX"

lemma select_spec:
  assumes "tsch_queue_select c pcm attrs s n p link = (Some q, s')" "cf_link_selector c"
    and rcv: "tsch_queue_get_nbr_address s (Some n) = Some rcv"
  defines "a \<equiv> attrs (tp_qb (tq_pkt s p))"
  shows "if on_demand_link c link
    then ost_node_id_from_linkaddr rcv = (uint (lk_slotframe_handle link) - cf_ssq_offset c - 1) div 2
    else (qa_slotframe a \<noteq> 0xffff \<longrightarrow> lk_slotframe_handle link = qa_slotframe a) \<and>
      (qa_timeslot a \<noteq> 0xffff \<longrightarrow> fst (wanted_cell c pcm a link) = lk_timeslot link) \<and>
      (cf_alice c \<and> qa_channel_offset a \<noteq> 0xffff \<longrightarrow> snd (wanted_cell c pcm a link) = lk_channel_offset link)"
proof (cases "on_demand_link c link")
  case True
  then show ?thesis using assms by (auto simp: tsch_queue_select_def on_demand_link_def Let_def split: if_splits)
next
  case False
  then show ?thesis
    using assms unfolding tsch_queue_select_def Let_def wanted_cell_def packet_cell_match_def alice_uc_match_def
    by (auto simp: on_demand_link_def split: if_splits prod.splits)
qed

lemma select_any:
  "tsch_queue_select c pcm attrs s n p link = (Some q, s') \<Longrightarrow> q = p \<and> s' = s"
  unfolding tsch_queue_select_def Let_def by (auto split: if_splits prod.splits)

section \<open>Backoff windows\<close>

lemma update_loop_nbr:
  "distinct ns \<Longrightarrow> tq_nt (tsch_queue_update_loop ns s a) = tq_nt s \<and> tq_locked (tsch_queue_update_loop ns s a) = tq_locked s \<and>
   tq_nbr (tsch_queue_update_loop ns s a) n =
     (if n \<in> set ns \<and> tsch_queue_window_tick s a n
      then (tq_nbr s n)\<lparr>tn_backoff_window := tn_backoff_window (tq_nbr s n) - 1\<rparr> else tq_nbr s n)"
proof (induction ns arbitrary: s)
  case (Cons m ns)
  let ?s1 = "if tsch_queue_window_tick s a m
    then tq_set_nbr s m ((tq_nbr s m)\<lparr>tn_backoff_window := tn_backoff_window (tq_nbr s m) - 1\<rparr>) else s"
  have tick: "tsch_queue_window_tick ?s1 a n = tsch_queue_window_tick s a n" if "n \<noteq> m"
    using that by (simp add: tsch_queue_window_tick_def tsch_queue_get_nbr_address_def)
  have "distinct ns" "m \<notin> set ns" using Cons.prems by auto
  then show ?case using Cons.IH [of ?s1] tick by (cases "n = m") auto
qed simp

lemma update_windows_nbr:
  assumes "nbr_wf (tq_nt s)" "\<not> tq_locked s"
  shows "tq_nbr (tsch_queue_update_all_backoff_windows s a) n =
     (if n \<in> ran (tq_map s) \<and> tsch_queue_window_tick s a n
      then (tq_nbr s n)\<lparr>tn_backoff_window := tn_backoff_window (tq_nbr s n) - 1\<rparr> else tq_nbr s n)"
    and "tq_nt (tsch_queue_update_all_backoff_windows s a) = tq_nt s"
    and "tq_locked (tsch_queue_update_all_backoff_windows s a) = tq_locked s"
  using update_loop_nbr [OF tsch_nbrs_distinct [OF assms(1)], of s a n] tsch_nbrs_ran [OF assms(1)] assms(2)
  by (simp_all add: tsch_queue_update_all_backoff_windows_def tsch_is_locked_def)

text \<open>Shared slots towards \<open>a\<close> in which neighbor \<open>n\<close> counts its window down.\<close>

definition counts_down :: "tsch_q \<Rightarrow> linkaddr \<Rightarrow> nat \<Rightarrow> bool" where
  "counts_down s a n \<longleftrightarrow> n \<in> ran (tq_map s) \<and>
     (if tn_tx_links_count (tq_nbr s n) = 0 then a = tsch_broadcast_address
      else tsch_queue_get_nbr_address s (Some n) = Some a)"

lemma window_iterate:
  assumes "nbr_wf (tq_nt s)" "\<not> tq_locked s" "counts_down s a n"
  shows "let s' = ((\<lambda>t. tsch_queue_update_all_backoff_windows t a) ^^ k) s in
    unat (tn_backoff_window (tq_nbr s' n)) = unat (tn_backoff_window (tq_nbr s n)) - k \<and>
    nbr_wf (tq_nt s') \<and> \<not> tq_locked s' \<and> counts_down s' a n"
proof (induction k)
  case 0
  then show ?case using assms by simp
next
  case (Suc k)
  let ?s = "((\<lambda>t. tsch_queue_update_all_backoff_windows t a) ^^ k) s"
  let ?t = "tsch_queue_update_all_backoff_windows ?s a"
  from Suc.IH have s: "nbr_wf (tq_nt ?s)" "\<not> tq_locked ?s" "counts_down ?s a n"
    "unat (tn_backoff_window (tq_nbr ?s n)) = unat (tn_backoff_window (tq_nbr s n)) - k" by (simp_all add: Let_def)
  note u = update_windows_nbr [OF s(1,2), of a]
  have "tn_tx_links_count (tq_nbr ?s n) > 0 \<longleftrightarrow> tn_tx_links_count (tq_nbr ?s n) \<noteq> 0"
    by (simp add: word_neq_0_conv)
  then have tick: "tsch_queue_window_tick ?s a n \<longleftrightarrow> tn_backoff_window (tq_nbr ?s n) \<noteq> 0"
    using s(3) by (auto simp: tsch_queue_window_tick_def counts_down_def Let_def)
  have ran: "n \<in> ran (tq_map ?s)" using s(3) by (simp add: counts_down_def)
  have "unat (tn_backoff_window (tq_nbr ?t n)) = unat (tn_backoff_window (tq_nbr ?s n)) - 1"
  proof (cases "tn_backoff_window (tq_nbr ?s n) = 0")
    case False
    then have "unat (tn_backoff_window (tq_nbr ?s n) - 1) = unat (tn_backoff_window (tq_nbr ?s n)) - 1"
      by (simp add: unat_minus_one)
    then show ?thesis using u(1) [of n] tick ran False by simp
  qed (use u(1) [of n] tick in simp)
  moreover have "counts_down ?t a n"
    using s(3) u(1) [of n] u(2) by (auto simp: counts_down_def tsch_queue_get_nbr_address_def)
  ultimately show ?case using s u(2,3) by (simp add: Let_def)
qed

section \<open>Start\<close>

lemma queue_init_spec:
  assumes "nbr_wf (tq_nt s)" "\<not> nbr_registered (tq_nt s) TSCH_NBRS" "nt_num_tables (tq_nt s) < MAX_NUM_TABLES"
    and "nt_keys (tq_nt s) = []" "memb_size (tq_mem s) > 0" "\<not> tq_locked s"
  shows "tq_wf (tsch_queue_init policy s) \<and> memb_live (tq_mem (tsch_queue_init policy s)) = {} \<and>
    (\<forall>a. tq_queue (tsch_queue_init policy s) a = []) \<and>
    tq_n_broadcast (tsch_queue_init policy s) = tq_map (tsch_queue_init policy s) tsch_broadcast_address"
proof -
  obtain r nt where reg: "nbr_table_register (tq_nt s) TSCH_NBRS False = (r, nt)" by fastforce
  note rg = nbr_register_new [OF assms(1-3) reg]
  have keys: "nt_keys nt = []" using reg assms(4)
    by (auto simp: nbr_table_register_def Let_def split: if_splits)
  note mi = memb_init_wf [OF assms(5)]
  let ?s1 = "s\<lparr>tq_nt := nt, tq_mem := memb_init (tq_mem s)\<rparr>"
  have none: "tq_map ?s1 = Map.empty" using keys by (simp add: nbr_map_def fun_eq_iff)
  have wf1: "tq_wf ?s1" using rg(2,3) mi none by (simp add: tq_wf_def)
  obtain eb s2 where a1: "tsch_queue_add_nbr policy ?s1 tsch_eb_address = (eb, s2)" by fastforce
  note q1 = add_nbr_queue [OF wf1 _ a1]
  let ?s2 = "s2\<lparr>tq_n_eb := eb\<rparr>"
  have un: "\<not> tq_locked ?s1" using assms(6) by simp
  have wf2: "tq_wf ?s2" using q1(1) [OF un] tq_wf_cong [of ?s2 s2] by simp
  have un2: "\<not> tq_locked ?s2" using q1(2) [OF un] by simp
  obtain bc s3 where a2: "tsch_queue_add_nbr policy ?s2 tsch_broadcast_address = (bc, s3)" by fastforce
  note q2 = add_nbr_queue [OF wf2 un2 a2]
  have init: "tsch_queue_init policy s = s3\<lparr>tq_n_broadcast := bc\<rparr>"
    by (simp add: tsch_queue_init_def reg a1 a2)
  have e1: "tq_queue ?s2 b = []" for b
  proof -
    have "tq_queue ?s2 = tq_queue s2" by (rule tq_queue_same) (simp_all add: tq_pkts_def fun_eq_iff)
    moreover have "tq_queue ?s1 b = []" for b unfolding tq_queue_def none by simp
    ultimately show ?thesis using queues_stay_empty [OF q1(7) [OF un] q1(6) [OF un], of b] by simp
  qed
  have "tq_queue s3 b = []" for b by (rule queues_stay_empty [OF q2(7,6) e1])
  moreover have "tq_queue (s3\<lparr>tq_n_broadcast := bc\<rparr>) = tq_queue s3"
    by (rule tq_queue_same) (simp_all add: tq_pkts_def fun_eq_iff)
  moreover have "tq_wf (s3\<lparr>tq_n_broadcast := bc\<rparr>)" using q2(1) tq_wf_cong [of "s3\<lparr>tq_n_broadcast := bc\<rparr>" s3] by simp
  moreover have "tq_mem s3 = memb_init (tq_mem s)" using q2(3) q1(3) [OF un] by simp
  ultimately show ?thesis using mi q2(5) by (simp add: init)
qed

section \<open>Properties\<close>

text \<open>A state with one neighbor that has one packet queued, and room for another packet.\<close>

definition tq_demo :: tsch_q where
  "tq_demo =
     \<lparr>tq_locked = False, tq_lock_requested = False, tq_nt = nbr_demo_full,
      tq_nbr = (\<lambda>_. (tsch_neighbor_init [1, 2])\<lparr>tn_tx_array := 0 # replicate 15 0,
        tn_tx_ringbuf := \<lparr>rb_mask = 15, rb_put = 1, rb_get = 0\<rparr>\<rparr>),
      tq_mem = \<lparr>memb_size = 8, memb_num = 2, memb_used = [True, False], memb_mem = 0, memb_data = []\<rparr>,
      tq_pkt = (\<lambda>_. \<lparr>tp_qb = 7, tp_sent = 1, tp_ptr = 0, tp_transmissions = 1, tp_max_transmissions = 4,
        tp_ret = MAC_TX_DEFERRED, tp_header_len = 0, tp_tsch_sync_ie_offset = 0\<rparr>),
      tq_n_eb = None, tq_n_broadcast = None, tq_is_coordinator = False, tq_keepalive = False,
      tq_sent_calls = [], tq_qb_freed = [], tq_early_drops = 0\<rparr>"

lemma tq_demo_map: "tq_map tq_demo [1, 2] = Some 0" "ran (tq_map tq_demo) = {0}"
proof -
  have get: "nbr_map nbr_demo_full TSCH_NBRS [1, 2] = Some 0"
    using nbr_demo_full_wf(1,3) by (simp add: get_from_lladdr_map lladdr_or_null_def TSCH_NBRS_def)
  then show "tq_map tq_demo [1, 2] = Some 0" by (simp add: tq_demo_def)
  have "memb_num (nt_mem nbr_demo_full) = 1" by (simp add: nbr_eval)
  then have "k = 0" if "nbr_map nbr_demo_full TSCH_NBRS a = Some k" for a k
    using that nbr_map_Some [OF nbr_demo_full_wf(1)] nbr_demo_full_wf(4) by auto
  with get show "ran (tq_map tq_demo) = {0}" by (auto simp: tq_demo_def ran_def)
qed

lemma tq_demo_pkts: "tq_pkts tq_demo 0 = [0]"
  by (simp add: tq_demo_def tq_pkts_def nbr_pkts_def rb_idx_def rb_count_def rb_cap_def)

lemma tq_demo_wf: "tq_wf tq_demo" "\<not> tq_locked tq_demo"
proof -
  have mask: "(15 :: u8) = mask 4" by (simp add: mask_eq_exp_minus_1)
  then have "\<exists>k \<le> 8. (15 :: u8) = mask k" by (intro exI [of _ 4]) simp
  then have "tn_ok (tq_nbr tq_demo 0)"
    by (simp add: tn_ok_def tq_demo_def rb_wf_def rb_cap_def tsch_neighbor_init_def tsch_queue_backoff_reset_def
        Let_def TSCH_MAC_MIN_BE_def TSCH_MAC_MAX_BE_def)
  moreover have "memb_live (tq_mem tq_demo) = {0}"
    by (auto simp: tq_demo_def memb_live_def memb_addr_def less_Suc_eq numeral_2_eq_2 image_def)
  moreover have "memb_wf (tq_mem tq_demo)" by (simp add: tq_demo_def memb_wf_def)
  moreover have "nbr_wf (tq_nt tq_demo)" "nbr_registered (tq_nt tq_demo) TSCH_NBRS"
    using nbr_demo_full_wf(1,2) by (simp_all add: tq_demo_def TSCH_NBRS_def)
  ultimately show "tq_wf tq_demo" by (simp add: tq_wf_def tq_demo_map tq_demo_pkts)
  show "\<not> tq_locked tq_demo" by (simp add: tq_demo_def)
qed

text \<open>
  (C17) \<^verbatim>\<open>tsch_queue_add_packet\<close> appends to the queue of the address, in the order of the calls:
  the packet is a block that was free, initialised with its callback and limits. A call fails only because the
  scheduler refuses (nothing is changed), the address is unknown and no neighbor can be evicted for it (no queue is
  changed), the queue holds 15 packets, the pool is used up or no queuebuf is left; then the queue of the address, the
  packets and the set of allocated blocks are as before. In both cases every other queue is as before, but for one:
  when the address is unknown and all neighbor slots are taken, one neighbor that is unlocked or that the removal
  policy names is evicted, and its queue is gone (its blocks stay allocated).
\<close>

theorem tsch_queue_add_packet_appends:
  assumes "tq_wf s" "\<not> tq_locked s"
    and "tsch_queue_add_packet policy ready qb s a mt sent ptr = (r, s')"
  shows "tq_wf s' \<and> (case r of
      None \<Rightarrow> add_failed policy ready qb s a s'
    | Some p \<Rightarrow> 0 \<le> ready \<and> (\<exists>b. qb = Some b \<and> add_accepted policy s a p (new_packet (tq_pkt s p) b mt sent ptr) s'))"
  using assms by (rule add_packet_spec)

theorem tsch_queue_add_packet_appends_witness:
  "tq_wf (snd (tsch_queue_add_packet None 1 (Some 9) tq_demo [1, 2] 3 5 6))"
  using tsch_queue_add_packet_appends [OF tq_demo_wf prod.collapse [symmetric],
      of None 1 "Some 9" "[1, 2]" 3 5 6] by blast

text \<open>
  (C18) After a transmission of the packet at the head of a queue: it leaves the queue exactly when it
  was acknowledged or has used up its transmissions, and all other packets keep their place. The
  backoff of a unicast neighbor is reset by a success on a shared link or that empties the queue,
  grows by one up to 5 with a window of 1 to \<open>2 ^ exponent\<close> slots after a failure on a shared
  link, and does not change otherwise.
\<close>

theorem tsch_queue_packet_sent_rules:
  assumes "tq_wf s" "\<not> tq_locked s" "n \<in> ran (tq_map s)" "tq_pkts s n = p # ps"
    and "tsch_queue_packet_sent rnd s n p link status = (r, s')"
  shows "(r = 0 \<longleftrightarrow> status = MAC_TX_OK \<or> tp_max_transmissions (tq_pkt s p) \<le> tp_transmissions (tq_pkt s p)) \<and>
    only_nbr s n (if r = 0 then ps else p # ps) s' \<and>
    backoff_rule (status = MAC_TX_OK) (lk_link_options link AND LINK_OPTION_SHARED \<noteq> 0) (ps = [])
      (tq_nbr s n) (tq_nbr s' n)"
  using packet_sent_spec [OF assms] by (auto split: if_splits)

definition link_demo :: tsch_link where
  "link_demo = \<lparr>lk_handle = 0, lk_addr = [1, 2], lk_slotframe_handle = 0, lk_timeslot = 1, lk_channel_offset = 0,
     lk_link_options = LINK_OPTION_TX OR LINK_OPTION_SHARED, lk_link_type = LINK_TYPE_NORMAL, lk_data = 0\<rparr>"

theorem tsch_queue_packet_sent_rules_witness:
  "fst (tsch_queue_packet_sent 640 tq_demo 0 0 link_demo MAC_TX_OK) = 0 \<and>
   tq_pkts (snd (tsch_queue_packet_sent 640 tq_demo 0 0 link_demo MAC_TX_OK)) 0 = []"
proof -
  have n: "0 \<in> ran (tq_map tq_demo)" by (simp add: tq_demo_map)
  obtain r s' where r: "tsch_queue_packet_sent 640 tq_demo 0 0 link_demo MAC_TX_OK = (r, s')" by fastforce
  from tsch_queue_packet_sent_rules [OF tq_demo_wf n tq_demo_pkts r] r show ?thesis
    by (simp add: only_nbr_def)
qed

text \<open>
  (C19) Flushing a queue ends when TSCH is not locked: its packets are reported with \<^verbatim>\<open>MAC_TX_ERR\<close>
  in FIFO order, each exactly once, their queuebufs and blocks are freed, and the other queues are
  not touched.
\<close>

theorem tsch_queue_flush_in_order:
  assumes "tq_wf s" "\<not> tq_locked s" "n \<in> ran (tq_map s)"
  shows "\<exists>s'. tsch_queue_flush_nbr_queue s n = Some s' \<and> flushed s n (tq_pkts s n) s'"
  using assms by (rule flush_spec)

theorem tsch_queue_flush_in_order_witness:
  "\<exists>s'. tsch_queue_flush_nbr_queue tq_demo 0 = Some s' \<and> flushed tq_demo 0 [0] s'"
  using tsch_queue_flush_in_order [OF tq_demo_wf, of 0] by (simp add: tq_demo_map tq_demo_pkts)

text \<open>
  (C20) Flushing under the lock does not end: no queue counts as empty and nothing is dequeued. The
  callers therefore have to release the lock first, as \<^verbatim>\<open>tsch_queue_remove_nbr\<close> does.
\<close>

theorem tsch_queue_flush_locked_diverges:
  assumes "tq_locked s"
  shows "tsch_queue_flush_nbr_queue s n = None"
  using flush_result_unlocked [of s n] assms by (cases "tsch_queue_flush_nbr_queue s n") auto

theorem tsch_queue_flush_locked_diverges_witness:
  "tsch_queue_flush_nbr_queue (tq_demo\<lparr>tq_locked := True\<rparr>) 0 = None"
  using tsch_queue_flush_locked_diverges [of "tq_demo\<lparr>tq_locked := True\<rparr>" 0] by simp

text \<open>
  (C21) A reset of the queues ends and empties the queue of every neighbor (but the EB neighbor, if
  that one is spared), gives back exactly the packets of these queues, and removes no neighbor.
\<close>

theorem tsch_queue_reset_empties:
  assumes "tq_wf s" "\<not> tq_locked s"
  shows "(\<exists>s'. tsch_queue_reset s = Some s' \<and> tq_wf s' \<and> tq_nt s' = tq_nt s \<and>
      (\<forall>n. n \<in> ran (tq_map s) \<longrightarrow> tq_pkts s' n = []) \<and>
      memb_live (tq_mem s') = memb_live (tq_mem s) - (\<Union>n \<in> ran (tq_map s). set (tq_pkts s n))) \<and>
    (\<exists>s'. tsch_queue_reset_except_n_eb s = Some s' \<and> tq_wf s' \<and> tq_nt s' = tq_nt s \<and>
      (\<forall>n. n \<in> ran (tq_map s) \<longrightarrow> tq_pkts s' n = (if tq_n_eb s = Some n then tq_pkts s n else [])))"
proof -
  have set: "set (tsch_nbrs s) = ran (tq_map s)" using tsch_nbrs_ran assms(1) by (simp add: tq_wf_def)
  note loop = reset_loop_spec [OF assms equalityD1 [OF set]]
  show ?thesis
    using loop [of None] loop [of "tq_n_eb s"] assms(2)
    by (auto simp: tsch_queue_reset_def tsch_queue_reset_except_n_eb_def tsch_is_locked_def set)
qed

theorem tsch_queue_reset_empties_witness: "\<exists>s'. tsch_queue_reset tq_demo = Some s' \<and> tq_pkts s' 0 = []"
  using tsch_queue_reset_empties [OF tq_demo_wf] by (auto simp: tq_demo_map)

text \<open>
  (C22) Collecting the unused neighbors ends and removes exactly those that are not virtual, not the
  time source, have no link and no packet; no packet and no other neighbor is lost.
\<close>

theorem tsch_queue_free_unused_exact:
  assumes "tq_wf s" "\<not> tq_locked s"
  shows "\<exists>s'. tsch_queue_free_unused_neighbors s = Some s' \<and> tq_wf s' \<and> tq_nbr s' = tq_nbr s \<and>
    tq_mem s' = tq_mem s \<and>
    (\<forall>a. tq_map s' a =
       (case tq_map s a of
          None \<Rightarrow> None
        | Some n \<Rightarrow>
            if \<not> tn_is_broadcast (tq_nbr s n) \<and> \<not> tn_is_time_source (tq_nbr s n) \<and>
               tn_tx_links_count (tq_nbr s n) = 0 \<and> tq_pkts s n = [] then None else Some n))"
proof -
  have nt: "nbr_wf (tq_nt s)" using assms(1) by (simp add: tq_wf_def)
  note set = tsch_nbrs_ran [OF nt]
  from free_unused_loop_spec [OF assms equalityD1 [OF set] tsch_nbrs_distinct [OF nt]] assms(2)
  obtain s' where s': "tsch_queue_free_unused_neighbors s = Some s'" "tq_wf s'" "tq_nbr s' = tq_nbr s"
    "tq_mem s' = tq_mem s"
    and map: "tq_map s' a = (case tq_map s a of None \<Rightarrow> None
       | Some n \<Rightarrow> if n \<in> set (tsch_nbrs s) \<and> tsch_nbr_unused s n then None else Some n)" for a
    by (auto simp: tsch_queue_free_unused_neighbors_def tsch_is_locked_def)
  have "n \<in> set (tsch_nbrs s) \<and> tsch_nbr_unused s n \<longleftrightarrow> \<not> tn_is_broadcast (tq_nbr s n) \<and>
      \<not> tn_is_time_source (tq_nbr s n) \<and> tn_tx_links_count (tq_nbr s n) = 0 \<and> tq_pkts s n = []"
    if "tq_map s a = Some n" for a n
    unfolding set using that by (simp add: nbr_unused_iff [OF assms ranI [of "tq_map s" a]] ranI [of "tq_map s" a])
  then show ?thesis using s' map by (intro exI [of _ s']) (simp split: option.splits)
qed

theorem tsch_queue_free_unused_exact_witness:
  "\<exists>s'. tsch_queue_free_unused_neighbors tq_demo = Some s' \<and> tq_map s' [1, 2] = Some 0"
  using tsch_queue_free_unused_exact [OF tq_demo_wf] tq_demo_map(1) by (fastforce simp: tq_demo_pkts)

text \<open>
  (C23) The packet chosen for a link is the head of the queue, never a later one, and the choice
  changes nothing. On a shared link the backoff of the neighbor has expired. With the link selector, a
  transmission cell of an on-demand slotframe of OST is only used for the neighbor that the handle of the slotframe
  encodes, and in every other cell a packet bound to a slotframe is sent in that slotframe only, and in its cell: the
  one of its attributes, or for ALICE unicast the one the scheduler computes for the receiver now. Without the link
  selector the cell is not looked at.
\<close>

theorem tsch_queue_packet_for_link:
  assumes "tq_wf s" "tq_map s rcv = Some n"
    and "tsch_queue_get_packet_for_nbr c pcm attrs s (Some n) (Some link) = (Some p, s')"
  shows "s' = s \<and> \<not> tq_locked s \<and> hd (tq_pkts s n) = p \<and> tq_pkts s n \<noteq> [] \<and>
    (lk_link_options link AND LINK_OPTION_SHARED = 0 \<or> tn_backoff_window (tq_nbr s n) = 0) \<and>
    (let a = attrs (tp_qb (tq_pkt s p)) in
     cf_link_selector c \<longrightarrow>
       (if on_demand_link c link
        then ost_node_id_from_linkaddr rcv = (uint (lk_slotframe_handle link) - cf_ssq_offset c - 1) div 2
        else (qa_slotframe a \<noteq> 0xffff \<longrightarrow> lk_slotframe_handle link = qa_slotframe a) \<and>
          (qa_timeslot a \<noteq> 0xffff \<longrightarrow> fst (wanted_cell c pcm a link) = lk_timeslot link) \<and>
          (cf_alice c \<and> qa_channel_offset a \<noteq> 0xffff \<longrightarrow> snd (wanted_cell c pcm a link) = lk_channel_offset link)))"
proof -
  let ?x = "tq_nbr s n"
  let ?p = "tn_tx_array ?x ! nat (ringbufindex_peek_get (tn_tx_ringbuf ?x))"
  have n: "n \<in> ran (tq_map s)" using assms(2) by (rule ranI)
  have ok: "tn_ok ?x" using tq_wfD(2) [OF assms(1) n] by blast
  have rcv: "tsch_queue_get_nbr_address s (Some n) = Some rcv"
    using assms(1,2) nbr_map_Some [of "tq_nt s" TSCH_NBRS rcv n]
    by (simp add: tq_wf_def tsch_queue_get_nbr_address_def nbr_table_get_lladdr_def key_from_item_def
        key_from_index_def index_from_item_def)
  from assms(3) have g: "\<not> tq_locked s" "ringbufindex_peek_get (tn_tx_ringbuf ?x) \<noteq> -1"
    "lk_link_options link AND LINK_OPTION_SHARED = 0 \<or> tn_backoff_window ?x = 0"
    and sel: "tsch_queue_select c pcm attrs s n ?p link = (Some p, s')"
    by (auto simp: tsch_queue_get_packet_for_nbr_def tsch_is_locked_def tsch_queue_backoff_expired_def Let_def
        split: if_splits)
  have p: "p = ?p" "s' = s" using select_any [OF sel] by simp_all
  from peek_head [OF ok g(2)] obtain ps where "tq_pkts s n = p # ps" unfolding tq_pkts_def p(1) by blast
  then show ?thesis using g(1,3) p select_spec [OF sel _ rcv] unfolding Let_def by auto
qed

definition conf_demo :: q_conf where
  "conf_demo = \<lparr>cf_link_selector = True, cf_ost_on_demand = False, cf_alice = True, cf_on_the_fly = True,
     cf_early_drop = False, cf_alice_sf = 2, cf_ssq_offset = 0\<rparr>"

definition attrs_demo :: qb_attrs where
  "attrs_demo = \<lparr>qa_slotframe = 0, qa_timeslot = 1, qa_channel_offset = 0, qa_receiver = [1, 2]\<rparr>"

theorem tsch_queue_packet_for_link_witness:
  "tsch_queue_get_packet_for_nbr conf_demo (\<lambda>t c a. (1, t, c)) (\<lambda>_. attrs_demo) tq_demo (Some 0) (Some link_demo) =
     (Some 0, tq_demo) \<and> hd (tq_pkts tq_demo 0) = 0"
proof -
  have "tsch_queue_get_packet_for_nbr conf_demo (\<lambda>t c a. (1, t, c)) (\<lambda>_. attrs_demo) tq_demo (Some 0) (Some link_demo) =
     (Some 0, tq_demo)"
    by (simp add: tsch_queue_get_packet_for_nbr_def tsch_queue_select_def conf_demo_def attrs_demo_def link_demo_def
        tq_demo_def tsch_is_locked_def tsch_queue_backoff_expired_def tsch_neighbor_init_def
        tsch_queue_backoff_reset_def packet_cell_match_def ringbufindex_peek_get_def Let_def)
  then show ?thesis using tsch_queue_packet_for_link [OF tq_demo_wf(1) tq_demo_map(1)] by blast
qed

text \<open>
  (C24) A backoff ends: a neighbor that drew a window of \<open>w\<close> slots may send on the shared link after
  exactly \<open>w\<close> of the slots in which it counts down, not before.
\<close>

theorem tsch_queue_backoff_ends:
  assumes "nbr_wf (tq_nt s)" "\<not> tq_locked s" "counts_down s a n"
  shows "tsch_queue_backoff_expired (tq_nbr (((\<lambda>t. tsch_queue_update_all_backoff_windows t a) ^^ k) s) n) \<longleftrightarrow>
    unat (tn_backoff_window (tq_nbr s n)) \<le> k"
  using window_iterate [OF assms, of k]
  by (simp add: Let_def tsch_queue_backoff_expired_def unat_eq_zero [symmetric] del: unat_eq_zero)

text \<open>The neighbor of the example with a window of three slots.\<close>

definition tq_backoff_demo :: tsch_q where
  "tq_backoff_demo = tq_set_nbr tq_demo 0 ((tq_nbr tq_demo 0)\<lparr>tn_backoff_window := 3\<rparr>)"

theorem tsch_queue_backoff_ends_witness:
  "tsch_queue_backoff_expired (tq_nbr (((\<lambda>t. tsch_queue_update_all_backoff_windows t tsch_broadcast_address) ^^ 3) tq_backoff_demo) 0) \<and>
   \<not> tsch_queue_backoff_expired (tq_nbr (((\<lambda>t. tsch_queue_update_all_backoff_windows t tsch_broadcast_address) ^^ 2) tq_backoff_demo) 0)"
proof -
  have "counts_down tq_backoff_demo tsch_broadcast_address 0"
    by (simp add: counts_down_def tq_demo_map tq_backoff_demo_def)
      (simp add: tq_demo_def tsch_neighbor_init_def tsch_neighbor_zero_def tsch_queue_backoff_reset_def Let_def)
  moreover have "unat (tn_backoff_window (tq_nbr tq_backoff_demo 0)) = 3" by (simp add: tq_backoff_demo_def)
  moreover have "nbr_wf (tq_nt tq_backoff_demo)" "\<not> tq_locked tq_backoff_demo"
    using tq_demo_wf by (simp_all add: tq_wf_def tq_backoff_demo_def)
  ultimately show ?thesis
    using tsch_queue_backoff_ends [of tq_backoff_demo tsch_broadcast_address 0 3]
      tsch_queue_backoff_ends [of tq_backoff_demo tsch_broadcast_address 0 2] by simp
qed

text \<open>
  (C25) The module starts in a state that satisfies the invariant: no packet is allocated, every queue is
  empty, and the broadcast neighbor is the one the table has for the broadcast address.
\<close>

theorem tsch_queue_init_establishes:
  assumes "nbr_wf (tq_nt s)" "\<not> nbr_registered (tq_nt s) TSCH_NBRS" "nt_num_tables (tq_nt s) < MAX_NUM_TABLES"
    and "nt_keys (tq_nt s) = []" "memb_size (tq_mem s) > 0" "\<not> tq_locked s"
  shows "tq_wf (tsch_queue_init policy s) \<and> memb_live (tq_mem (tsch_queue_init policy s)) = {} \<and>
    (\<forall>a. tq_queue (tsch_queue_init policy s) a = []) \<and>
    tq_n_broadcast (tsch_queue_init policy s) = tq_map (tsch_queue_init policy s) tsch_broadcast_address"
  using assms by (rule queue_init_spec)

theorem tsch_queue_init_establishes_witness:
  "tq_wf (tsch_queue_init None (tq_demo\<lparr>tq_nt := nbr_init 3 (\<lambda>_. 4)\<rparr>))"
proof -
  have "nbr_wf (nbr_init 3 (\<lambda>_. 4))" by (rule nbr_init_wf)
  moreover have "\<not> nbr_registered (nbr_init 3 (\<lambda>_. 4)) TSCH_NBRS" "nt_num_tables (nbr_init 3 (\<lambda>_. 4)) < MAX_NUM_TABLES"
    "nt_keys (nbr_init 3 (\<lambda>_. 4)) = []"
    by (simp_all add: nbr_registered_def nbr_init_def MAX_NUM_TABLES_def)
  ultimately show ?thesis
    using tsch_queue_init_establishes [of "tq_demo\<lparr>tq_nt := nbr_init 3 (\<lambda>_. 4)\<rparr>" None] by (simp add: tq_demo_def)
qed

end
