(* ===== verification/Tsch_Schedule.thy ===== *)
theory Tsch_Schedule
  imports Tsch_Queue
begin

text \<open>
  The schedule of \<^verbatim>\<open>os/net/mac/tsch/tsch-schedule.c\<close>: slotframes in a list, each with a list
  of links, both allocated from pools. Lists are the sequences of the addresses of their elements
  (the list contract), and a block that is allocated again still holds what it held before. The
  build options that change the code are a record; the floating-point adaptation of
  \<^verbatim>\<open>WITH_A3\<close> is not modelled.
\<close>

record tsch_slotframe =
  sf_handle :: u16
  sf_size :: asn_divisor
  sf_links :: "int list"

record sched =
  sc_q :: tsch_q
  sc_link_mem :: memb
  sc_link :: "int \<Rightarrow> tsch_link"
  sc_sf_mem :: memb
  sc_sf :: "int \<Rightarrow> tsch_slotframe"
  sc_list :: "int list"
  sc_link_handle :: nat
  sc_alice_link_handle :: nat
  sc_current_link :: "int option"
  sc_alice_current_asn :: tsch_asn
  sc_alice_lastly_asfn :: u64
  sc_alice_next_asfn :: u64

record sched_conf =
  sk_alice :: bool
  sk_dbt :: bool
  sk_ost :: bool
  sk_latest :: bool
  sk_alice_uc_handle :: u16
  sk_alice_after_handle :: u16

abbreviation sc_set_sf :: "sched \<Rightarrow> int \<Rightarrow> tsch_slotframe \<Rightarrow> sched" where
  "sc_set_sf s f x \<equiv> s\<lparr>sc_sf := (sc_sf s)(f := x)\<rparr>"

abbreviation sc_set_link :: "sched \<Rightarrow> int \<Rightarrow> tsch_link \<Rightarrow> sched" where
  "sc_set_link s l x \<equiv> s\<lparr>sc_link := (sc_link s)(l := x)\<rparr>"

section \<open>Slotframes\<close>

definition tsch_schedule_get_slotframe_by_handle :: "sched \<Rightarrow> u16 \<Rightarrow> int option" where
  "tsch_schedule_get_slotframe_by_handle s handle =
     (if \<not> tsch_is_locked (sc_q s) then find (\<lambda>f. sf_handle (sc_sf s f) = handle) (sc_list s) else None)"

definition tsch_schedule_add_slotframe :: "sched \<Rightarrow> u16 \<Rightarrow> u16 \<Rightarrow> int option \<times> sched" where
  "tsch_schedule_add_slotframe s handle size_v =
     (if size_v = 0 then (None, s)
      else if tsch_schedule_get_slotframe_by_handle s handle \<noteq> None then (None, s)
      else
        (case tsch_get_lock (sc_q s) of
           (ok, q) \<Rightarrow>
             if ok \<noteq> 0 then
               (case memb_alloc (sc_sf_mem s) of
                  (None, m) \<Rightarrow> (None, s\<lparr>sc_q := tsch_release_lock q, sc_sf_mem := m\<rparr>)
                | (Some f, m) \<Rightarrow>
                    let x = (sc_sf s f)\<lparr>sf_handle := handle, sf_size := tsch_asn_divisor_init size_v, sf_links := []\<rparr>
                    in (Some f, (sc_set_sf s f x)\<lparr>sc_q := tsch_release_lock q, sc_sf_mem := m,
                          sc_list := seq_add f (sc_list s)\<rparr>))
             else (None, s\<lparr>sc_q := q\<rparr>)))"

section \<open>Removing\<close>

text \<open>The counters of the neighbor of a removed Tx link.\<close>

definition sc_uncount :: "sched \<Rightarrow> u8 \<Rightarrow> linkaddr \<Rightarrow> sched" where
  "sc_uncount s link_options addr =
     (if link_options AND LINK_OPTION_TX \<noteq> 0 then
        (case tsch_queue_get_nbr (sc_q s) addr of
           None \<Rightarrow> s
         | Some n \<Rightarrow>
             let x = tq_nbr (sc_q s) n; x1 = x\<lparr>tn_tx_links_count := tn_tx_links_count x - 1\<rparr>;
                 x2 = (if link_options AND LINK_OPTION_SHARED = 0
                       then x1\<lparr>tn_dedicated_tx_links_count := tn_dedicated_tx_links_count x1 - 1\<rparr> else x1)
             in s\<lparr>sc_q := tq_set_nbr (sc_q s) n x2\<rparr>)
      else s)"

text \<open>Under ALICE links are removed without taking the lock, which is released all the same.\<close>

definition tsch_schedule_remove_link :: "sched_conf \<Rightarrow> sched \<Rightarrow> int option \<Rightarrow> int option \<Rightarrow> int \<times> sched" where
  "tsch_schedule_remove_link c s slotframe lp =
     (if slotframe \<noteq> None \<and> lp \<noteq> None \<and>
         lk_slotframe_handle (sc_link s (the lp)) = sf_handle (sc_sf s (the slotframe)) then
        (case (if sk_alice c then (1, sc_q s) else tsch_get_lock (sc_q s)) of
           (ok, q) \<Rightarrow>
             if ok \<noteq> 0 then
               let f = the slotframe; l = the lp;
                   link_options = lk_link_options (sc_link s l); addr = lk_addr (sc_link s l);
                   s1 = s\<lparr>sc_q := tsch_release_lock q,
                     sc_current_link := (if sc_current_link s = Some l then None else sc_current_link s)\<rparr>;
                   s2 = sc_set_sf s1 f ((sc_sf s f)\<lparr>sf_links := seq_remove l (sf_links (sc_sf s f))\<rparr>);
                   s3 = s2\<lparr>sc_link_mem := snd (memb_free (sc_link_mem s2) l)\<rparr>
               in (1, sc_uncount s3 link_options addr)
             else (0, s\<lparr>sc_q := q\<rparr>))
      else (0, s))"

partial_function (option) tsch_schedule_remove_links :: "sched_conf \<Rightarrow> sched \<Rightarrow> int \<Rightarrow> sched option" where
  "tsch_schedule_remove_links c s f =
     (if sf_links (sc_sf s f) \<noteq> []
      then tsch_schedule_remove_links c
        (snd (tsch_schedule_remove_link c s (Some f) (Some (hd (sf_links (sc_sf s f)))))) f
      else Some s)"

definition tsch_schedule_remove_slotframe :: "sched_conf \<Rightarrow> sched \<Rightarrow> int option \<Rightarrow> (int \<times> sched) option" where
  "tsch_schedule_remove_slotframe c s slotframe =
     (case slotframe of
        None \<Rightarrow> Some (0, s)
      | Some f \<Rightarrow>
          map_option (\<lambda>s1.
            (case tsch_get_lock (sc_q s1) of
               (ok, q) \<Rightarrow>
                 if ok \<noteq> 0 then
                   (1, s1\<lparr>sc_sf_mem := snd (memb_free (sc_sf_mem s1) f), sc_list := seq_remove f (sc_list s1),
                          sc_q := tsch_release_lock q\<rparr>)
                 else (0, s1\<lparr>sc_q := q\<rparr>)))
            (tsch_schedule_remove_links c s f))"

partial_function (option) tsch_schedule_remove_all_slotframes :: "sched_conf \<Rightarrow> sched \<Rightarrow> (int \<times> sched) option" where
  "tsch_schedule_remove_all_slotframes c s =
     (if sc_list s \<noteq> [] then
        Option.bind (tsch_schedule_remove_slotframe c s (Some (hd (sc_list s))))
          (\<lambda>r. if fst r = 0 then Some (0, snd r) else tsch_schedule_remove_all_slotframes c (snd r))
      else Some (1, s))"

text \<open>
  The loop reads the next link before it removes the current one, so it visits the links of the start.
\<close>

definition link_at :: "sched \<Rightarrow> u16 \<Rightarrow> u16 \<Rightarrow> int \<Rightarrow> bool" where
  "link_at s timeslot channel_offset l =
     (lk_timeslot (sc_link s l) = timeslot \<and> lk_channel_offset (sc_link s l) = channel_offset)"

fun remove_at_loop :: "sched_conf \<Rightarrow> int \<Rightarrow> u16 \<Rightarrow> u16 \<Rightarrow> int list \<Rightarrow> int \<times> sched \<Rightarrow> int \<times> sched" where
  "remove_at_loop c f timeslot channel_offset [] acc = acc"
| "remove_at_loop c f timeslot channel_offset (l # ls) (ret, s) =
     remove_at_loop c f timeslot channel_offset ls
       (if link_at s timeslot channel_offset l then
          (case tsch_schedule_remove_link c s (Some f) (Some l) of (r, s1) \<Rightarrow> (if r \<noteq> 0 then 1 else ret, s1))
        else (ret, s))"

definition tsch_schedule_remove_link_by_timeslot ::
  "sched_conf \<Rightarrow> sched \<Rightarrow> int option \<Rightarrow> u16 \<Rightarrow> u16 \<Rightarrow> int \<times> sched" where
  "tsch_schedule_remove_link_by_timeslot c s slotframe timeslot channel_offset =
     (if \<not> tsch_is_locked (sc_q s) \<and> slotframe \<noteq> None
      then remove_at_loop c (the slotframe) timeslot channel_offset (sf_links (sc_sf s (the slotframe))) (0, s)
      else (0, s))"

section \<open>Looking up\<close>

definition tsch_schedule_get_link_by_handle :: "sched \<Rightarrow> u16 \<Rightarrow> int option" where
  "tsch_schedule_get_link_by_handle s handle =
     (if \<not> tsch_is_locked (sc_q s)
      then find (\<lambda>l. lk_handle (sc_link s l) = handle) (concat (map (\<lambda>f. sf_links (sc_sf s f)) (sc_list s)))
      else None)"

definition tsch_schedule_get_link_by_timeslot :: "sched \<Rightarrow> int option \<Rightarrow> u16 \<Rightarrow> u16 \<Rightarrow> int option" where
  "tsch_schedule_get_link_by_timeslot s slotframe timeslot channel_offset =
     (if \<not> tsch_is_locked (sc_q s) \<and> slotframe \<noteq> None
      then find (link_at s timeslot channel_offset) (sf_links (sc_sf s (the slotframe)))
      else None)"

definition tsch_schedule_slotframe_head :: "sched \<Rightarrow> int option" where
  "tsch_schedule_slotframe_head s = (case sc_list s of [] \<Rightarrow> None | f # fs \<Rightarrow> Some f)"

fun list_after :: "int list \<Rightarrow> int \<Rightarrow> int option" where
  "list_after [] f = None"
| "list_after [g] f = None"
| "list_after (g # h # gs) f = (if g = f then Some h else list_after (h # gs) f)"

definition tsch_schedule_slotframe_next :: "sched \<Rightarrow> int \<Rightarrow> int option" where
  "tsch_schedule_slotframe_next s f = list_after (sc_list s) f"

section \<open>Adding links\<close>

definition sc_count :: "linkaddr option option \<Rightarrow> sched \<Rightarrow> int \<Rightarrow> sched" where
  "sc_count policy s l =
     (let x = sc_link s l in
      if lk_link_options x AND LINK_OPTION_TX \<noteq> 0 then
        (case tsch_queue_add_nbr policy (sc_q s) (lk_addr x) of
           (None, q) \<Rightarrow> s\<lparr>sc_q := q\<rparr>
         | (Some n, q) \<Rightarrow>
             let y = tq_nbr q n; y1 = y\<lparr>tn_tx_links_count := tn_tx_links_count y + 1\<rparr>;
                 y2 = (if lk_link_options x AND LINK_OPTION_SHARED = 0
                       then y1\<lparr>tn_dedicated_tx_links_count := tn_dedicated_tx_links_count y1 + 1\<rparr> else y1)
             in s\<lparr>sc_q := tq_set_nbr q n y2\<rparr>)
      else s)"

definition tsch_schedule_add_link ::
  "sched_conf \<Rightarrow> linkaddr option option \<Rightarrow> sched \<Rightarrow> int option \<Rightarrow> u8 \<Rightarrow> link_type \<Rightarrow> linkaddr option \<Rightarrow>
   u16 \<Rightarrow> u16 \<Rightarrow> bool \<Rightarrow> int option \<times> sched" where
  "tsch_schedule_add_link c policy s slotframe link_options link_type address timeslot channel_offset do_remove =
     (case slotframe of
        None \<Rightarrow> (None, s)
      | Some f \<Rightarrow>
          if uint timeslot > uint (div_val (sf_size (sc_sf s f))) - 1 then (None, s)
          else if sk_alice c \<and> channel_offset > 15 then (None, s)
          else
            let s1 = (if do_remove
                  then snd (tsch_schedule_remove_link_by_timeslot c s (Some f) timeslot channel_offset) else s);
                (ok, q) = tsch_get_lock (sc_q s1)
            in if ok = 0 then (None, s1\<lparr>sc_q := q\<rparr>)
               else
                 (case memb_alloc (sc_link_mem s1) of
                    (None, m) \<Rightarrow> (None, s1\<lparr>sc_q := tsch_release_lock q, sc_link_mem := m\<rparr>)
                  | (Some l, m) \<Rightarrow>
                      let s2 = s1\<lparr>sc_link_mem := m, sc_link_handle := sc_link_handle s1 + 1,
                            sc_sf := (sc_sf s1)(f := (sc_sf s1 f)\<lparr>sf_links := seq_add l (sf_links (sc_sf s1 f))\<rparr>)\<rparr>;
                          x = \<lparr>lk_handle = of_nat (sc_link_handle s1),
                               lk_addr = (case address of None \<Rightarrow> linkaddr_null | Some a \<Rightarrow> a),
                               lk_slotframe_handle = sf_handle (sc_sf s1 f), lk_timeslot = timeslot,
                               lk_channel_offset = channel_offset, lk_link_options = link_options,
                               lk_link_type = link_type, lk_data = 0\<rparr>;
                          s3 = (sc_set_link s2 l x)\<lparr>sc_q := tsch_release_lock q\<rparr>
                      in (Some l, sc_count policy s3 l)))"

text \<open>
  All links of the slotframe in the same cell get the union of the options seen so far, and the new
  link the union of them all.
\<close>

fun set_option_loop :: "u16 \<Rightarrow> u16 \<Rightarrow> int list \<Rightarrow> sched \<Rightarrow> u8 \<Rightarrow> u8 \<times> sched" where
  "set_option_loop timeslot channel_offset [] s link_options = (link_options, s)"
| "set_option_loop timeslot channel_offset (l # ls) s link_options =
     (if link_at s timeslot channel_offset l then
        let o1 = link_options OR lk_link_options (sc_link s l);
            x = (sc_link s l)\<lparr>lk_link_options := lk_link_options (sc_link s l) OR o1\<rparr>
        in set_option_loop timeslot channel_offset ls (sc_set_link s l x) o1
      else set_option_loop timeslot channel_offset ls s link_options)"

definition alice_tsch_schedule_set_link_option_by_ts_choff ::
  "sched \<Rightarrow> int option \<Rightarrow> u16 \<Rightarrow> u16 \<Rightarrow> u8 \<Rightarrow> u8 \<times> sched" where
  "alice_tsch_schedule_set_link_option_by_ts_choff s slotframe timeslot channel_offset link_options =
     (case slotframe of
        None \<Rightarrow> (link_options, s)
      | Some f \<Rightarrow> set_option_loop timeslot channel_offset (sf_links (sc_sf s f)) s link_options)"

text \<open>
  The new link is in the list, with what its block held before, when the options of the links in the
  cell are collected.
\<close>

definition alice_tsch_schedule_add_link ::
  "linkaddr option option \<Rightarrow> sched \<Rightarrow> int option \<Rightarrow> u8 \<Rightarrow> link_type \<Rightarrow> linkaddr option \<Rightarrow> u16 \<Rightarrow> u16 \<Rightarrow>
   int option \<times> sched" where
  "alice_tsch_schedule_add_link policy s slotframe link_options link_type address timeslot channel_offset =
     (case slotframe of
        None \<Rightarrow> (None, s)
      | Some f \<Rightarrow>
          if uint timeslot > uint (div_val (sf_size (sc_sf s f))) - 1 then (None, s)
          else if channel_offset > 15 then (None, s)
          else
            (case memb_alloc (sc_link_mem s) of
               (None, m) \<Rightarrow> (None, s\<lparr>sc_link_mem := m, sc_q := tsch_release_lock (sc_q s)\<rparr>)
             | (Some l, m) \<Rightarrow>
                 let s2 = s\<lparr>sc_link_mem := m, sc_alice_link_handle := sc_alice_link_handle s + 1,
                       sc_sf := (sc_sf s)(f := (sc_sf s f)\<lparr>sf_links := seq_add l (sf_links (sc_sf s f))\<rparr>),
                       sc_link := (sc_link s)(l := (sc_link s l)\<lparr>lk_handle := of_nat (sc_alice_link_handle s)\<rparr>)\<rparr>;
                     (opts, s3) = alice_tsch_schedule_set_link_option_by_ts_choff s2 (Some f) timeslot
                       channel_offset link_options;
                     x = (sc_link s3 l)\<lparr>lk_link_options := opts, lk_link_type := link_type,
                          lk_slotframe_handle := sf_handle (sc_sf s3 f), lk_timeslot := timeslot,
                          lk_channel_offset := channel_offset, lk_data := 0,
                          lk_addr := (case address of None \<Rightarrow> linkaddr_null | Some a \<Rightarrow> a)\<rparr>;
                     s4 = (sc_set_link s3 l x)\<lparr>sc_q := tsch_release_lock (sc_q s3)\<rparr>
                 in (Some l, sc_count policy s4 l)))"

section \<open>The next active link\<close>

definition default_tsch_link_comparator :: "sched \<Rightarrow> int \<Rightarrow> int \<Rightarrow> int" where
  "default_tsch_link_comparator s a b =
     (let x = sc_link s a; y = sc_link s b in
      if lk_link_options x AND LINK_OPTION_TX = 0 then a
      else if lk_addr x \<noteq> lk_addr y then
        let count = (\<lambda>n. case n of None \<Rightarrow> 0 | Some i \<Rightarrow> ringbufindex_elements (tn_tx_ringbuf (tq_nbr (sc_q s) i)))
        in if count (tsch_queue_get_nbr (sc_q s) (lk_addr x)) \<ge> count (tsch_queue_get_nbr (sc_q s) (lk_addr y))
           then a else b
      else a)"

text \<open>Computed as \<^verbatim>\<open>int\<close>, stored in 16 bits.\<close>

definition time_to_timeslot :: "u16 \<Rightarrow> u16 \<Rightarrow> u16 \<Rightarrow> u16" where
  "time_to_timeslot link_timeslot timeslot size_v =
     (if link_timeslot > timeslot then link_timeslot - timeslot else size_v + link_timeslot - timeslot)"

text \<open>The slotframe number: the ASN of the start of the slotframe divided by its length.\<close>

definition alice_asfn :: "tsch_asn \<Rightarrow> asn_divisor \<Rightarrow> u64" where
  "alice_asfn asn d =
     (let temp_asn = tsch_asn_copy asn; mod1 = of_nat (tsch_asn_mod temp_asn d) :: u16
      in tsch_asn_division (tsch_asn_dec temp_asn (ucast mod1)) d)"

definition alice_tsch_schedule_get_current_asfn :: "tsch_asn \<Rightarrow> tsch_slotframe \<Rightarrow> u16" where
  "alice_tsch_schedule_get_current_asfn current_asn sf = ucast (alice_asfn current_asn (sf_size sf))"

text \<open>The time, best and backup link so far.\<close>

record best_link =
  bl_time :: u16
  bl_best :: "int option"
  bl_backup :: "int option"

text \<open>Of two links in the same slot, which is better; \<open>None\<close> keeps the current one.\<close>

definition better_link :: "sched_conf \<Rightarrow> sched \<Rightarrow> int \<Rightarrow> int \<Rightarrow> int option" where
  "better_link c s curr_best l =
     (let b = sc_link s curr_best; x = sc_link s l in
      if (lk_link_options b AND LINK_OPTION_TX) = (lk_link_options x AND LINK_OPTION_TX) then
        if sk_ost c \<and> lk_slotframe_handle b = 1 \<and> lk_link_options b AND LINK_OPTION_TX \<noteq> 0 \<and>
           lk_slotframe_handle x = 2 then Some l
        else if lk_slotframe_handle x \<noteq> lk_slotframe_handle b then
          (if lk_slotframe_handle x < lk_slotframe_handle b then Some l else None)
        else Some (default_tsch_link_comparator s curr_best l)
      else if lk_link_options x AND LINK_OPTION_TX \<noteq> 0 then Some l else None)"

definition backup_link_after :: "sched_conf \<Rightarrow> sched \<Rightarrow> int \<Rightarrow> int \<Rightarrow> int option \<Rightarrow> int option \<Rightarrow> int option" where
  "backup_link_after c s curr_best l new_best curr_backup =
     (let rx = (\<lambda>k. lk_link_options (sc_link s k) AND LINK_OPTION_RX \<noteq> 0);
          lower = (\<lambda>k b. case b of None \<Rightarrow> True
            | Some j \<Rightarrow> lk_slotframe_handle (sc_link s k) < lk_slotframe_handle (sc_link s j))
      in if sk_latest c then
           let b1 = (if new_best \<noteq> Some l \<and> rx l \<and> lower l curr_backup then Some l else curr_backup)
           in if new_best \<noteq> Some curr_best \<and> rx curr_best \<and> lower curr_best b1 then Some curr_best else b1
         else if curr_backup = None then
           let b1 = (if new_best \<noteq> Some l \<and> rx l then Some l else None)
           in if new_best \<noteq> Some curr_best \<and> rx curr_best then Some curr_best else b1
         else curr_backup)"

definition active_link_step :: "sched_conf \<Rightarrow> sched \<Rightarrow> u64 \<Rightarrow> u16 \<Rightarrow> int \<Rightarrow> best_link \<Rightarrow> int \<Rightarrow> best_link" where
  "active_link_step c s alice_current_asfn timeslot f acc l =
     (let sf = sc_sf s f; x = sc_link s l;
          t0 = time_to_timeslot (lk_timeslot x) timeslot (div_val (sf_size sf));
          t = (if sk_alice c \<and> sf_handle sf = sk_alice_uc_handle c \<and>
                  alice_current_asfn \<noteq> sc_alice_lastly_asfn s \<and> lk_timeslot x > timeslot
               then t0 + div_val (sf_size sf) else t0)
      in case bl_best acc of
           None \<Rightarrow> \<lparr>bl_time = t, bl_best = Some l, bl_backup = None\<rparr>
         | Some b \<Rightarrow>
             if t < bl_time acc then \<lparr>bl_time = t, bl_best = Some l, bl_backup = None\<rparr>
             else if t = bl_time acc then
               let new_best = better_link c s b l
               in acc\<lparr>bl_backup := backup_link_after c s b l new_best (bl_backup acc),
                      bl_best := (case new_best of None \<Rightarrow> Some b | Some n \<Rightarrow> Some n)\<rparr>
             else acc)"

text \<open>
  ALICE computes the unicast links of the next slotframe when no link of the current one is left;
  \<open>atvs\<close> is \<^verbatim>\<open>ALICE_TIME_VARYING_SCHEDULING\<close>.
\<close>

definition alice_maybe_reschedule :: "sched_conf \<Rightarrow> (sched \<Rightarrow> sched) \<Rightarrow> u64 \<Rightarrow> tsch_asn \<Rightarrow> int \<Rightarrow> sched \<Rightarrow> sched" where
  "alice_maybe_reschedule c atvs alice_current_asfn asn f s =
     (let d = sf_size (sc_sf s f); cur = sc_alice_current_asn s;
          later = (\<lambda>a. list_ex (\<lambda>l. lk_timeslot (sc_link s l) > of_nat (tsch_asn_mod a d)) (sf_links (sc_sf s f)));
          next_asn = tsch_asn_inc (tsch_asn_copy cur) (ucast (div_val d));
          after_asn = tsch_asn_inc next_asn (ucast (div_val d))
      in if \<not> later cur \<or> \<not> later asn \<or> alice_asfn asn d \<noteq> alice_current_asfn then
           let alice_next_asfn = alice_asfn next_asn d in
           if alice_next_asfn \<noteq> sc_alice_lastly_asfn s then
             atvs (s\<lparr>sc_alice_lastly_asfn := alice_next_asfn,
               sc_alice_next_asfn := (if sk_dbt c then alice_asfn after_asn d else sc_alice_next_asfn s)\<rparr>)
           else s
         else s)"

fun active_slotframes ::
  "sched_conf \<Rightarrow> (sched \<Rightarrow> sched) \<Rightarrow> u64 \<Rightarrow> tsch_asn \<Rightarrow> int list \<Rightarrow> sched \<Rightarrow> best_link \<Rightarrow> best_link \<times> sched" where
  "active_slotframes c atvs asfn asn [] s acc = (acc, s)"
| "active_slotframes c atvs asfn asn (f # fs) s acc =
     (let h = sf_handle (sc_sf s f);
          s1 = (if sk_alice c \<and> h = sk_alice_uc_handle c then alice_maybe_reschedule c atvs asfn asn f s else s)
      in if sk_alice c \<and> h \<noteq> sk_alice_uc_handle c \<and> sk_dbt c \<and> h = sk_alice_after_handle c
         then active_slotframes c atvs asfn asn fs s1 acc
         else active_slotframes c atvs asfn asn fs s1
           (foldl (active_link_step c s1 asfn (of_nat (tsch_asn_mod asn (sf_size (sc_sf s1 f)))) f) acc
             (sf_links (sc_sf s1 f))))"

text \<open>
  \<open>None\<close>: ALICE reads the size of its unicast slotframe through a null pointer, before it looks at
  the lock (the look-up answers NULL under the lock).
\<close>

definition tsch_schedule_get_next_active_link ::
  "sched_conf \<Rightarrow> (sched \<Rightarrow> sched) \<Rightarrow> sched \<Rightarrow> tsch_asn \<Rightarrow> (best_link \<times> sched) option" where
  "tsch_schedule_get_next_active_link c atvs s asn =
     (let uc = tsch_schedule_get_slotframe_by_handle s (sk_alice_uc_handle c);
          start = \<lparr>bl_time = 0, bl_best = None, bl_backup = None\<rparr>
      in if sk_alice c \<and> uc = None then None
         else
           let asfn = (if sk_alice c then alice_asfn (sc_alice_current_asn s) (sf_size (sc_sf s (the uc))) else 0)
           in if \<not> tsch_is_locked (sc_q s) then Some (active_slotframes c atvs asfn asn (sc_list s) s start)
              else Some (start, s))"

section \<open>The distance to the next slot in use\<close>

text \<open>\<open>Inl\<close>: the next slot is taken, the function returns at once.\<close>

fun earliest_loop :: "(tsch_link \<Rightarrow> u16 option) \<Rightarrow> tsch_link list \<Rightarrow> u16 \<Rightarrow> u16 + u16" where
  "earliest_loop tt [] m = Inr m"
| "earliest_loop tt (x # xs) m =
     (case tt x of
        None \<Rightarrow> earliest_loop tt xs m
      | Some t \<Rightarrow>
          let m1 = (if m = 0 \<or> t < m then t else m) in
          if t = 1 then Inl m1 else earliest_loop tt xs m1)"

definition slotframe_distance :: "sched_conf \<Rightarrow> sched \<Rightarrow> u64 \<Rightarrow> u16 \<Rightarrow> tsch_slotframe \<Rightarrow> tsch_link \<Rightarrow> u16 option" where
  "slotframe_distance c s dbt_current_asfn timeslot sf x =
     (let size_v = div_val (sf_size sf); h = sf_handle sf; lt = lk_timeslot x;
          later = (if lt > timeslot then Some (lt - timeslot) else None)
      in if \<not> sk_alice c \<or> h \<noteq> sk_alice_uc_handle c \<and> h \<noteq> sk_alice_after_handle c
         then Some (time_to_timeslot lt timeslot size_v)
         else if dbt_current_asfn \<noteq> sc_alice_lastly_asfn s \<and> dbt_current_asfn \<noteq> sc_alice_next_asfn s then
           (if h = sk_alice_uc_handle c then Some (size_v + lt - timeslot)
            else Some (2 * size_v + lt - timeslot))
         else if dbt_current_asfn = sc_alice_lastly_asfn s then
           (if h = sk_alice_uc_handle c then later else Some (size_v + lt - timeslot))
         else (if h = sk_alice_uc_handle c then None else later))"

fun available_loop :: "sched_conf \<Rightarrow> sched \<Rightarrow> u64 \<Rightarrow> tsch_asn \<Rightarrow> int list \<Rightarrow> u16 \<Rightarrow> u16 + u16" where
  "available_loop c s asfn asn [] m = Inr m"
| "available_loop c s asfn asn (f # fs) m =
     (case earliest_loop (slotframe_distance c s asfn (of_nat (tsch_asn_mod asn (sf_size (sc_sf s f)))) (sc_sf s f))
         (map (sc_link s) (sf_links (sc_sf s f))) m of
        Inl t \<Rightarrow> Inl t
      | Inr m1 \<Rightarrow> available_loop c s asfn asn fs m1)"

definition tsch_schedule_get_next_timeslot_available_or_not ::
  "sched_conf \<Rightarrow> sched \<Rightarrow> tsch_asn \<Rightarrow> (u8 \<times> u16) option" where
  "tsch_schedule_get_next_timeslot_available_or_not c s asn =
     (let uc = tsch_schedule_get_slotframe_by_handle s (sk_alice_uc_handle c) in
      if sk_alice c \<and> uc = None then None
      else
        let asfn = (if sk_alice c then alice_asfn asn (sf_size (sc_sf s (the uc))) else 0)
        in if \<not> tsch_is_locked (sc_q s) then
             (case available_loop c s asfn asn (sc_list s) 0 of
                Inl t \<Rightarrow> Some (0, t) | Inr t \<Rightarrow> Some (1, t))
           else Some (0, 0))"

section \<open>Start and the minimal schedule\<close>

definition tsch_schedule_init :: "sched \<Rightarrow> int \<times> sched" where
  "tsch_schedule_init s =
     (case tsch_get_lock (sc_q s) of
        (ok, q) \<Rightarrow>
          if ok \<noteq> 0 then (1, s\<lparr>sc_link_mem := memb_init (sc_link_mem s), sc_sf_mem := memb_init (sc_sf_mem s),
            sc_list := [], sc_q := tsch_release_lock q\<rparr>)
          else (0, s\<lparr>sc_q := q\<rparr>))"

definition TSCH_SCHEDULE_DEFAULT_LENGTH :: u16 where "TSCH_SCHEDULE_DEFAULT_LENGTH = 7"

definition tsch_schedule_create_minimal :: "sched_conf \<Rightarrow> linkaddr option option \<Rightarrow> sched \<Rightarrow> sched option" where
  "tsch_schedule_create_minimal c policy s =
     map_option (\<lambda>(r, s1).
       (case tsch_schedule_add_slotframe s1 0 TSCH_SCHEDULE_DEFAULT_LENGTH of
          (sf_min, s2) \<Rightarrow>
            snd (tsch_schedule_add_link c policy s2 sf_min
              (LINK_OPTION_RX OR LINK_OPTION_TX OR LINK_OPTION_SHARED OR LINK_OPTION_TIME_KEEPING)
              LINK_TYPE_ADVERTISING (Some tsch_broadcast_address) 0 0 True)))
       (tsch_schedule_remove_all_slotframes c s)"

section \<open>The hashes of ALICE\<close>

text \<open>Thomas Wang's integer mixing functions; \<open>modulus\<close> is not zero.\<close>

definition alice_real_hash :: "u32 \<Rightarrow> u16 \<Rightarrow> u16" where
  "alice_real_hash v modulus =
     (let a = v; a = (a XOR 61) XOR drop_bit 16 a; a = a + push_bit 3 a; a = a XOR drop_bit 4 a;
          a = a * 0x27d4eb2d; a = a XOR drop_bit 15 a
      in ucast (a mod ucast modulus))"

definition alice_real_hash5 :: "u32 \<Rightarrow> u16 \<Rightarrow> u16" where
  "alice_real_hash5 v modulus =
     (let a = v; a = (((a + drop_bit 16 a) XOR drop_bit 9 a) XOR push_bit 3 a) XOR drop_bit 5 a
      in ucast (a mod ucast modulus))"

end
