(* ===== verification/Tsch_Schedule_Correct.thy ===== *)
theory Tsch_Schedule_Correct
  imports Tsch_Schedule Tsch_Queue_Correct
begin

text \<open>
  The schedule: its structural invariant, what adding and removing do to it, the options of the links that ALICE adds,
  and when the look-up of the next active link goes through a null pointer.
\<close>

section \<open>The structure of the schedule\<close>

definition sf_ok :: "sched \<Rightarrow> int \<Rightarrow> bool" where
  "sf_ok s f \<longleftrightarrow> (\<exists>v. v \<noteq> 0 \<and> sf_size (sc_sf s f) = tsch_asn_divisor_init v \<and>
       (\<forall>l \<in> set (sf_links (sc_sf s f)). lk_timeslot (sc_link s l) < v)) \<and>
     distinct (sf_links (sc_sf s f)) \<and> set (sf_links (sc_sf s f)) \<subseteq> memb_live (sc_link_mem s) \<and>
     (\<forall>l \<in> set (sf_links (sc_sf s f)). lk_slotframe_handle (sc_link s l) = sf_handle (sc_sf s f))"

definition sc_wf :: "sched \<Rightarrow> bool" where
  "sc_wf s \<longleftrightarrow> memb_wf (sc_link_mem s) \<and> memb_wf (sc_sf_mem s) \<and> distinct (sc_list s) \<and>
     set (sc_list s) \<subseteq> memb_live (sc_sf_mem s) \<and> (\<forall>f \<in> set (sc_list s). sf_ok s f) \<and>
     (\<forall>f \<in> set (sc_list s). \<forall>g \<in> set (sc_list s). f \<noteq> g \<longrightarrow>
        sf_handle (sc_sf s f) \<noteq> sf_handle (sc_sf s g) \<and> set (sf_links (sc_sf s f)) \<inter> set (sf_links (sc_sf s g)) = {})"

abbreviation sc_locked :: "sched \<Rightarrow> bool" where
  "sc_locked s \<equiv> tq_locked (sc_q s)"

lemma sc_wf_cong:
  assumes "sc_link_mem s' = sc_link_mem s" "sc_link s' = sc_link s" "sc_sf_mem s' = sc_sf_mem s"
    "sc_sf s' = sc_sf s" "sc_list s' = sc_list s"
  shows "sc_wf s' = sc_wf s"
  using assms by (simp add: sc_wf_def sf_ok_def)

lemma sc_wf_q [simp]:
  "sc_wf (s\<lparr>sc_q := q\<rparr>) = sc_wf s" "sc_wf (s\<lparr>sc_current_link := k\<rparr>) = sc_wf s"
  "sc_wf (s\<lparr>sc_link_handle := n\<rparr>) = sc_wf s" "sc_wf (s\<lparr>sc_alice_link_handle := n\<rparr>) = sc_wf s"
  by (rule sc_wf_cong; simp)+

lemma release_get_lock:
  "\<not> tq_locked q \<Longrightarrow> tsch_get_lock q = (1, q') \<Longrightarrow> \<not> tq_locked (tsch_release_lock q')"
  by (simp add: tsch_release_lock_def)

lemma release_unlocked [simp]: "\<not> tq_locked (tsch_release_lock q)"
  by (simp add: tsch_release_lock_def)

lemma uncount_q:
  obtains q where "sc_uncount s opts a = s\<lparr>sc_q := q\<rparr>" "tq_locked q = sc_locked s"
proof -
  have "\<exists>q. sc_uncount s opts a = s\<lparr>sc_q := q\<rparr> \<and> tq_locked q = sc_locked s"
    by (rule exI [of _ "sc_q (sc_uncount s opts a)"]) (simp add: sc_uncount_def Let_def split: option.splits)
  then show thesis using that by blast
qed

lemma add_nbr_unlocked:
  assumes "\<not> tq_locked q" "tsch_queue_add_nbr policy q a = (r, q')"
  shows "\<not> tq_locked q'"
  using assms
  by (auto simp: tsch_queue_add_nbr_def get_lock_unlocked split: option.splits prod.splits)

lemma count_q:
  assumes "\<not> sc_locked s"
  obtains q where "sc_count policy s l = s\<lparr>sc_q := q\<rparr>" "\<not> tq_locked q"
proof -
  obtain r q' where add: "tsch_queue_add_nbr policy (sc_q s) (lk_addr (sc_link s l)) = (r, q')" by fastforce
  have q': "\<not> tq_locked q'" using add_nbr_unlocked [OF assms add] .
  have "\<exists>q. sc_count policy s l = s\<lparr>sc_q := q\<rparr> \<and> \<not> tq_locked q"
  proof (cases "lk_link_options (sc_link s l) AND LINK_OPTION_TX = 0")
    case True
    then show ?thesis using assms by (intro exI [of _ "sc_q s"]) (simp add: sc_count_def)
  next
    case False
    then show ?thesis using add q' by (cases r) (auto simp: sc_count_def Let_def)
  qed
  then show thesis using that by blast
qed

section \<open>Removing\<close>

definition link_dropped :: "sched \<Rightarrow> int \<Rightarrow> int \<Rightarrow> sched \<Rightarrow> bool" where
  "link_dropped s f l s' \<longleftrightarrow> sc_list s' = sc_list s \<and> sc_sf_mem s' = sc_sf_mem s \<and> sc_link s' = sc_link s \<and>
     sc_sf s' = (sc_sf s)(f := (sc_sf s f)\<lparr>sf_links := seq_remove l (sf_links (sc_sf s f))\<rparr>) \<and>
     memb_wf (sc_link_mem s') \<and> memb_live (sc_link_mem s') = memb_live (sc_link_mem s) - {l}"

lemma remove_link_spec:
  assumes wf: "sc_wf s" and un: "\<not> sc_locked s" and f: "f \<in> set (sc_list s)" and l: "l \<in> set (sf_links (sc_sf s f))"
    and rm: "tsch_schedule_remove_link c s (Some f) (Some l) = (r, s')"
  shows "r = 1" "\<not> sc_locked s'" "link_dropped s f l s'" "sc_current_link s' \<noteq> Some l"
proof -
  have h: "lk_slotframe_handle (sc_link s l) = sf_handle (sc_sf s f)" "memb_wf (sc_link_mem s)"
    using wf f l by (auto simp: sc_wf_def sf_ok_def)
  obtain q where q: "(if sk_alice c then (1, sc_q s) else tsch_get_lock (sc_q s)) = (1, q)"
    using un by (cases "sk_alice c") (auto simp: get_lock_unlocked)
  define s3 where "s3 = (sc_set_sf (s\<lparr>sc_q := tsch_release_lock q,
      sc_current_link := (if sc_current_link s = Some l then None else sc_current_link s)\<rparr>) f
      ((sc_sf s f)\<lparr>sf_links := seq_remove l (sf_links (sc_sf s f))\<rparr>))\<lparr>sc_link_mem := snd (memb_free (sc_link_mem s) l)\<rparr>"
  have rs: "r = 1" "s' = sc_uncount s3 (lk_link_options (sc_link s l)) (lk_addr (sc_link s l))"
    using rm h(1) q by (simp_all add: tsch_schedule_remove_link_def s3_def Let_def)
  from uncount_q [of s3 "lk_link_options (sc_link s l)" "lk_addr (sc_link s l)"] rs(2)
  obtain q' where s': "s' = s3\<lparr>sc_q := q'\<rparr>" "tq_locked q' = sc_locked s3" by metis
  show "r = 1" by (fact rs)
  show "\<not> sc_locked s'" using s' by (simp add: s3_def)
  show "link_dropped s f l s'"
    using pool.free_inv [OF h(2), of l] by (simp add: link_dropped_def s'(1) s3_def)
  show "sc_current_link s' \<noteq> Some l" by (simp add: s'(1) s3_def)
qed

lemma link_dropped_wf:
  assumes wf: "sc_wf s" and f: "f \<in> set (sc_list s)" and l: "l \<in> set (sf_links (sc_sf s f))" and d: "link_dropped s f l s'"
  shows "sc_wf s'"
proof -
  note d' = d [unfolded link_dropped_def]
  have links: "set (sf_links (sc_sf s' g)) = (if g = f then set (sf_links (sc_sf s f)) - {l} else set (sf_links (sc_sf s g)))" for g
    using d' by simp
  have same: "sf_handle (sc_sf s' g) = sf_handle (sc_sf s g)" "sf_size (sc_sf s' g) = sf_size (sc_sf s g)" for g
    using d' by simp_all
  have notin: "l \<notin> set (sf_links (sc_sf s g))" if "g \<in> set (sc_list s)" "g \<noteq> f" for g
    using wf f l that unfolding sc_wf_def by blast
  have "sf_ok s' g" if g: "g \<in> set (sc_list s)" for g
  proof -
    have ok: "sf_ok s g" using wf g by (simp add: sc_wf_def)
    have "distinct (sf_links (sc_sf s' g))" using ok d' by (cases "g = f") (simp_all add: sf_ok_def)
    moreover have "set (sf_links (sc_sf s' g)) \<subseteq> memb_live (sc_link_mem s) - {l}"
      using ok notin [OF g] unfolding links sf_ok_def by auto
    moreover have "set (sf_links (sc_sf s' g)) \<subseteq> set (sf_links (sc_sf s g))" unfolding links by auto
    ultimately show ?thesis using ok d' unfolding sf_ok_def same by (metis subset_iff)
  qed
  moreover have "set (sf_links (sc_sf s' g)) \<inter> set (sf_links (sc_sf s' k)) = {}"
    if "g \<in> set (sc_list s)" "k \<in> set (sc_list s)" "g \<noteq> k" for g k
  proof -
    have "set (sf_links (sc_sf s g)) \<inter> set (sf_links (sc_sf s k)) = {}" using wf that by (simp add: sc_wf_def)
    then show ?thesis unfolding links by auto
  qed
  ultimately show ?thesis using wf d' unfolding sc_wf_def same by metis
qed

lemma remove_links_spec:
  assumes "sc_wf s" "\<not> sc_locked s" "f \<in> set (sc_list s)"
  shows "\<exists>s'. tsch_schedule_remove_links c s f = Some s' \<and> sc_wf s' \<and> \<not> sc_locked s' \<and> sc_list s' = sc_list s \<and>
    sc_sf_mem s' = sc_sf_mem s \<and> sc_sf s' = (sc_sf s)(f := (sc_sf s f)\<lparr>sf_links := []\<rparr>) \<and> sc_link s' = sc_link s \<and>
    memb_live (sc_link_mem s') = memb_live (sc_link_mem s) - set (sf_links (sc_sf s f))"
  using assms
proof (induction "sf_links (sc_sf s f)" arbitrary: s)
  case Nil
  then have "tsch_schedule_remove_links c s f = Some s" by (subst tsch_schedule_remove_links.simps) simp
  then show ?case using Nil by (metis Diff_empty empty_set fun_upd_triv tsch_slotframe.surjective tsch_slotframe.update_convs(3))
next
  case (Cons l ls)
  let ?ls = "sf_links (sc_sf s f)"
  obtain r s1 where rm: "tsch_schedule_remove_link c s (Some f) (Some l) = (r, s1)" by fastforce
  have l: "l \<in> set ?ls" using Cons.hyps(2) by (metis list.set_intros(1))
  note sp = remove_link_spec [OF Cons.prems l rm]
  have d: "sc_list s1 = sc_list s" "sc_sf_mem s1 = sc_sf_mem s" "sc_link s1 = sc_link s"
    "sc_sf s1 = (sc_sf s)(f := (sc_sf s f)\<lparr>sf_links := seq_remove l ?ls\<rparr>)"
    "memb_live (sc_link_mem s1) = memb_live (sc_link_mem s) - {l}" using sp(3) by (simp_all add: link_dropped_def)
  have "distinct ?ls" using Cons.prems(1,3) by (simp add: sc_wf_def sf_ok_def)
  then have "seq_remove l ?ls = ls" using Cons.hyps(2) [symmetric] by simp
  then have ls: "ls = sf_links (sc_sf s1 f)" by (simp add: d(4))
  have "sc_wf s1" by (rule link_dropped_wf [OF Cons.prems(1,3) l sp(3)])
  from Cons.hyps(1) [OF ls this sp(2)] Cons.prems(3) d obtain s' where s': "tsch_schedule_remove_links c s1 f = Some s'"
    "sc_wf s'" "\<not> sc_locked s'" "sc_list s' = sc_list s" "sc_sf_mem s' = sc_sf_mem s"
    "sc_sf s' = (sc_sf s)(f := (sc_sf s f)\<lparr>sf_links := []\<rparr>)" "sc_link s' = sc_link s"
    "memb_live (sc_link_mem s') = memb_live (sc_link_mem s) - {l} - set ls"
    using ls by auto
  have "tsch_schedule_remove_links c s f = Some s'"
    using s'(1) rm Cons.hyps(2) [symmetric] by (subst tsch_schedule_remove_links.simps) simp
  moreover have "memb_live (sc_link_mem s') = memb_live (sc_link_mem s) - set ?ls"
    using s'(8) Cons.hyps(2) [symmetric] by auto
  ultimately show ?case using s' by blast
qed

lemma memb_free_live:
  "memb_wf m \<Longrightarrow> memb_wf (snd (memb_free m p)) \<and> memb_live (snd (memb_free m p)) = memb_live m - {p}"
  using pool.free_inv [of m p] by blast

lemma remove_slotframe_spec:
  assumes wf: "sc_wf s" and un: "\<not> sc_locked s" and f: "f \<in> set (sc_list s)"
  shows "\<exists>s'. tsch_schedule_remove_slotframe c s (Some f) = Some (1, s') \<and> sc_wf s' \<and> \<not> sc_locked s' \<and>
    sc_list s' = seq_remove f (sc_list s) \<and>
    (\<forall>g. g \<noteq> f \<longrightarrow> sc_sf s' g = sc_sf s g) \<and> sc_link s' = sc_link s \<and>
    memb_live (sc_sf_mem s') = memb_live (sc_sf_mem s) - {f} \<and>
    memb_live (sc_link_mem s') = memb_live (sc_link_mem s) - set (sf_links (sc_sf s f))"
proof -
  from remove_links_spec [OF assms] obtain s1 where s1: "tsch_schedule_remove_links c s f = Some s1" "sc_wf s1"
    "\<not> sc_locked s1" "sc_list s1 = sc_list s" "sc_sf_mem s1 = sc_sf_mem s"
    "sc_sf s1 = (sc_sf s)(f := (sc_sf s f)\<lparr>sf_links := []\<rparr>)" "sc_link s1 = sc_link s"
    "memb_live (sc_link_mem s1) = memb_live (sc_link_mem s) - set (sf_links (sc_sf s f))" by blast
  define s2 where "s2 = s1\<lparr>sc_sf_mem := snd (memb_free (sc_sf_mem s1) f), sc_list := seq_remove f (sc_list s1),
    sc_q := tsch_release_lock (sc_q s1\<lparr>tq_locked := True, tq_lock_requested := False\<rparr>)\<rparr>"
  have res: "tsch_schedule_remove_slotframe c s (Some f) = Some (1, s2)"
    using s1(1,3) by (simp add: tsch_schedule_remove_slotframe_def get_lock_unlocked s2_def)
  have m: "memb_wf (sc_sf_mem s2)" "memb_live (sc_sf_mem s2) = memb_live (sc_sf_mem s1) - {f}"
    using memb_free_live [of "sc_sf_mem s1" f] s1(2) by (simp_all add: s2_def sc_wf_def)
  have ok: "sf_ok s2 g = sf_ok s1 g" for g by (simp add: sf_ok_def s2_def)
  have "sc_wf s2"
    unfolding sc_wf_def
  proof (intro conjI)
    show "memb_wf (sc_sf_mem s2)" by (fact m)
    show "set (sc_list s2) \<subseteq> memb_live (sc_sf_mem s2)" using s1(2) unfolding m(2) by (auto simp: sc_wf_def s2_def)
    show "\<forall>g \<in> set (sc_list s2). sf_ok s2 g" using s1(2) unfolding ok by (simp add: sc_wf_def s2_def)
  qed (use s1(2) in \<open>simp_all add: sc_wf_def s2_def\<close>)
  then show ?thesis using res s1 m by (auto simp: s2_def)
qed

lemma remove_all_spec:
  assumes "sc_wf s" "\<not> sc_locked s"
  shows "\<exists>s'. tsch_schedule_remove_all_slotframes c s = Some (1, s') \<and> sc_wf s' \<and> \<not> sc_locked s' \<and> sc_list s' = [] \<and>
    memb_live (sc_sf_mem s') = memb_live (sc_sf_mem s) - set (sc_list s) \<and>
    memb_live (sc_link_mem s') = memb_live (sc_link_mem s) - (\<Union>f \<in> set (sc_list s). set (sf_links (sc_sf s f)))"
  using assms
proof (induction "sc_list s" arbitrary: s)
  case Nil
  then have "tsch_schedule_remove_all_slotframes c s = Some (1, s)"
    by (subst tsch_schedule_remove_all_slotframes.simps) simp
  then show ?case using Nil by (metis Diff_empty UN_empty empty_set)
next
  case (Cons f fs)
  have f: "f \<in> set (sc_list s)" using Cons.hyps(2) by (metis list.set_intros(1))
  from remove_slotframe_spec [OF Cons.prems f, of c] obtain s1 where s1:
    "tsch_schedule_remove_slotframe c s (Some f) = Some (1, s1)" "sc_wf s1" "\<not> sc_locked s1"
    "sc_list s1 = seq_remove f (sc_list s)" "\<And>g. g \<noteq> f \<Longrightarrow> sc_sf s1 g = sc_sf s g"
    "memb_live (sc_sf_mem s1) = memb_live (sc_sf_mem s) - {f}"
    "memb_live (sc_link_mem s1) = memb_live (sc_link_mem s) - set (sf_links (sc_sf s f))" by blast
  have dist: "distinct (sc_list s)" using Cons.prems(1) by (simp add: sc_wf_def)
  then have fs: "fs = sc_list s1" "f \<notin> set fs" using s1(4) Cons.hyps(2) [symmetric] by auto
  from Cons.hyps(1) [OF fs(1) s1(2,3)] obtain s' where s': "tsch_schedule_remove_all_slotframes c s1 = Some (1, s')"
    "sc_wf s'" "\<not> sc_locked s'" "sc_list s' = []"
    "memb_live (sc_sf_mem s') = memb_live (sc_sf_mem s1) - set fs"
    "memb_live (sc_link_mem s') = memb_live (sc_link_mem s1) - (\<Union>g \<in> set fs. set (sf_links (sc_sf s1 g)))"
    using fs(1) by auto
  have "tsch_schedule_remove_all_slotframes c s = Some (1, s')"
    using s'(1) s1(1) Cons.hyps(2) [symmetric] by (subst tsch_schedule_remove_all_slotframes.simps) simp
  moreover have same: "sc_sf s1 g = sc_sf s g" if "g \<in> set fs" for g using that s1(5) [of g] fs(2) by (cases "g = f") auto
  have "(\<Union>g \<in> set fs. set (sf_links (sc_sf s1 g))) = (\<Union>g \<in> set fs. set (sf_links (sc_sf s g)))"
    by (simp add: same)
  then have "memb_live (sc_link_mem s') = memb_live (sc_link_mem s) - (\<Union>g \<in> set (sc_list s). set (sf_links (sc_sf s g)))"
    "memb_live (sc_sf_mem s') = memb_live (sc_sf_mem s) - set (sc_list s)"
    using s'(5,6) s1(6,7) Cons.hyps(2) [symmetric] by auto
  ultimately show ?case using s' by blast
qed

lemma remove_at_spec:
  assumes "sc_wf s" "\<not> sc_locked s" "f \<in> set (sc_list s)" "distinct ls" "set ls \<subseteq> set (sf_links (sc_sf s f))"
    and "remove_at_loop c f ts ch ls (ret, s) = (r, s')"
  shows "sc_wf s' \<and> \<not> sc_locked s' \<and> sc_list s' = sc_list s \<and> sc_sf_mem s' = sc_sf_mem s \<and> sc_link s' = sc_link s \<and>
    sc_sf s' = (sc_sf s)(f := (sc_sf s f)\<lparr>sf_links := filter (\<lambda>l. l \<notin> set ls \<or> \<not> link_at s ts ch l) (sf_links (sc_sf s f))\<rparr>)"
  using assms
proof (induction ls arbitrary: s ret)
  case Nil
  have "filter (\<lambda>l. l \<notin> set [] \<or> \<not> link_at s ts ch l) (sf_links (sc_sf s f)) = sf_links (sc_sf s f)" by simp
  then show ?case using Nil by simp
next
  case (Cons l ls)
  show ?case
  proof (cases "link_at s ts ch l")
    case False
    then have "remove_at_loop c f ts ch ls (ret, s) = (r, s')" using Cons.prems(6) by simp
    moreover have "(\<lambda>k. k \<notin> set (l # ls) \<or> \<not> link_at s ts ch k) = (\<lambda>k. k \<notin> set ls \<or> \<not> link_at s ts ch k)"
      using False by (auto simp: fun_eq_iff)
    ultimately show ?thesis using Cons.IH [OF Cons.prems(1-3)] Cons.prems(4,5) by (simp only: distinct.simps list.set insert_subset simp_thms)
  next
    case True
    obtain k s1 where rm: "tsch_schedule_remove_link c s (Some f) (Some l) = (k, s1)" by fastforce
    have l: "l \<in> set (sf_links (sc_sf s f))" using Cons.prems(5) by simp
    note sp = remove_link_spec [OF Cons.prems(1-3) l rm]
    have d: "sc_list s1 = sc_list s" "sc_sf_mem s1 = sc_sf_mem s" "sc_link s1 = sc_link s"
      "sc_sf s1 = (sc_sf s)(f := (sc_sf s f)\<lparr>sf_links := seq_remove l (sf_links (sc_sf s f))\<rparr>)"
      using sp(3) by (simp_all add: link_dropped_def)
    have wf1: "sc_wf s1" by (rule link_dropped_wf [OF Cons.prems(1,3) l sp(3)])
    have rest: "remove_at_loop c f ts ch ls (1, s1) = (r, s')" using Cons.prems(6) True rm sp(1) by simp
    have f1: "f \<in> set (sc_list s1)" "distinct ls" "set ls \<subseteq> set (sf_links (sc_sf s1 f))"
      using Cons.prems(3-5) d by auto
    have at: "link_at s1 ts ch = link_at s ts ch" by (simp add: link_at_def d(3) fun_eq_iff)
    have "filter (\<lambda>k. k \<notin> set ls \<or> \<not> link_at s1 ts ch k) (sf_links (sc_sf s1 f)) =
        filter (\<lambda>k. k \<notin> set (l # ls) \<or> \<not> link_at s ts ch k) (sf_links (sc_sf s f))"
      unfolding at d(4) using True by (auto simp: seq_remove_def intro!: filter_cong)
    then show ?thesis using Cons.IH [OF wf1 sp(2) f1 rest] d by (simp add: fun_eq_iff)
  qed
qed

section \<open>Adding\<close>

lemma get_slotframe_unlocked:
  "\<not> sc_locked s \<Longrightarrow> tsch_schedule_get_slotframe_by_handle s h = find (\<lambda>f. sf_handle (sc_sf s f) = h) (sc_list s)"
  by (simp add: tsch_schedule_get_slotframe_by_handle_def tsch_is_locked_def)

lemma add_slotframe_cases:
  assumes wf: "sc_wf s" and un: "\<not> sc_locked s" and add: "tsch_schedule_add_slotframe s h v = (r, s')"
  obtains (failed) "r = None" "sc_wf s'" "\<not> sc_locked s'" "sc_list s' = sc_list s" "sc_sf s' = sc_sf s"
      "v = 0 \<or> (\<exists>f \<in> set (sc_list s). sf_handle (sc_sf s f) = h) \<or> card (memb_live (sc_sf_mem s)) = memb_num (sc_sf_mem s)"
  | (added) f where "r = Some f" "sc_wf s'" "\<not> sc_locked s'" "sc_list s' = sc_list s @ [f]" "f \<notin> set (sc_list s)"
      "sc_sf s' = (sc_sf s)(f := (sc_sf s f)\<lparr>sf_handle := h, sf_size := tsch_asn_divisor_init v, sf_links := []\<rparr>)"
      "v \<noteq> 0" "\<forall>g \<in> set (sc_list s). sf_handle (sc_sf s g) \<noteq> h" "sc_link s' = sc_link s"
proof -
  consider (bad) "v = 0 \<or> find (\<lambda>f. sf_handle (sc_sf s f) = h) (sc_list s) \<noteq> None"
    | (ok) "v \<noteq> 0" "find (\<lambda>f. sf_handle (sc_sf s f) = h) (sc_list s) = None" by blast
  then show thesis
  proof cases
    case bad
    then have "r = None" "s' = s" using add un by (auto simp: tsch_schedule_add_slotframe_def get_slotframe_unlocked split: if_splits)
    then show thesis using wf un bad by (intro failed) (auto simp: find_None_set)
  next
    case ok
    have fresh_h: "\<forall>g \<in> set (sc_list s). sf_handle (sc_sf s g) \<noteq> h" using ok(2) by (simp add: find_None_set)
    have "memb_wf (sc_sf_mem s)" using wf by (simp add: sc_wf_def)
    then show thesis
    proof (cases rule: pool.alloc_cases)
      case full
      have "r = None" "\<exists>q. s' = s\<lparr>sc_q := tsch_release_lock q, sc_sf_mem := sc_sf_mem s\<rparr>"
        using add un ok full by (auto simp: tsch_schedule_add_slotframe_def get_slotframe_unlocked get_lock_unlocked)
      then obtain q where "r = None" "s' = s\<lparr>sc_q := tsch_release_lock q, sc_sf_mem := sc_sf_mem s\<rparr>" by blast
      then show thesis using wf full by (intro failed) (auto intro: sc_wf_cong [THEN iffD2])
    next
      case (fresh f m)
      define x where "x = (sc_sf s f)\<lparr>sf_handle := h, sf_size := tsch_asn_divisor_init v, sf_links := []\<rparr>"
      have f: "f \<notin> set (sc_list s)" using wf fresh(2) by (auto simp: sc_wf_def)
      have s': "r = Some f" "\<exists>q. s' = (sc_set_sf s f x)\<lparr>sc_q := tsch_release_lock q, sc_sf_mem := m, sc_list := seq_add f (sc_list s)\<rparr>"
        using add un ok fresh(1) by (auto simp: tsch_schedule_add_slotframe_def get_slotframe_unlocked get_lock_unlocked x_def Let_def)
      then obtain q where s'': "s' = (sc_set_sf s f x)\<lparr>sc_q := tsch_release_lock q, sc_sf_mem := m, sc_list := sc_list s @ [f]\<rparr>"
        using f by (auto simp: seq_add_def)
      have old: "sf_ok s' g" if "g \<in> set (sc_list s)" for g
        using that wf f by (auto simp: sc_wf_def sf_ok_def s'')
      have new: "sf_ok s' f" using ok(1) by (auto simp: sf_ok_def s'' x_def)
      have "sc_wf s'"
        using wf fresh(3,4) f fresh_h old new unfolding sc_wf_def
        by (auto simp: s'' x_def)
      then show thesis using s' s'' f ok(1) fresh_h by (intro added [of f]) (auto simp: x_def)
    qed
  qed
qed

text \<open>A new link at the end of its slotframe; the other links keep their cell.\<close>

definition link_added :: "sched \<Rightarrow> int \<Rightarrow> int \<Rightarrow> sched \<Rightarrow> bool" where
  "link_added s f l s' \<longleftrightarrow> l \<notin> memb_live (sc_link_mem s) \<and> memb_wf (sc_link_mem s') \<and>
     memb_live (sc_link_mem s') = insert l (memb_live (sc_link_mem s)) \<and>
     sc_list s' = sc_list s \<and> sc_sf_mem s' = sc_sf_mem s \<and>
     sc_sf s' = (sc_sf s)(f := (sc_sf s f)\<lparr>sf_links := sf_links (sc_sf s f) @ [l]\<rparr>) \<and>
     (\<forall>k. k \<noteq> l \<longrightarrow> (\<exists>opts. sc_link s' k = (sc_link s k)\<lparr>lk_link_options := opts\<rparr>)) \<and>
     lk_slotframe_handle (sc_link s' l) = sf_handle (sc_sf s f) \<and>
     lk_timeslot (sc_link s' l) < div_val (sf_size (sc_sf s f))"

lemma same_options [simp]: "\<exists>opts. x = x\<lparr>lk_link_options := opts\<rparr>" for x :: tsch_link
  by (rule exI [of _ "lk_link_options x"]) simp

lemma link_added_wf:
  assumes wf: "sc_wf s" and f: "f \<in> set (sc_list s)" and a: "link_added s f l s'"
  shows "sc_wf s'"
proof -
  note a' = a [unfolded link_added_def]
  have links: "set (sf_links (sc_sf s' g)) = (if g = f then insert l (set (sf_links (sc_sf s f))) else set (sf_links (sc_sf s g)))" for g
    using a' by simp
  have same: "sf_handle (sc_sf s' g) = sf_handle (sc_sf s g)" "sf_size (sc_sf s' g) = sf_size (sc_sf s g)" for g
    using a' by simp_all
  have new: "l \<notin> set (sf_links (sc_sf s g))" if "g \<in> set (sc_list s)" for g
    using wf that a' by (auto simp: sc_wf_def sf_ok_def)
  have old: "lk_slotframe_handle (sc_link s' k) = lk_slotframe_handle (sc_link s k)"
    "lk_timeslot (sc_link s' k) = lk_timeslot (sc_link s k)" if ne: "k \<noteq> l" for k
  proof -
    obtain opts where "sc_link s' k = (sc_link s k)\<lparr>lk_link_options := opts\<rparr>" using a' ne by blast
    then show "lk_slotframe_handle (sc_link s' k) = lk_slotframe_handle (sc_link s k)"
      "lk_timeslot (sc_link s' k) = lk_timeslot (sc_link s k)" by simp_all
  qed
  have "sf_ok s' g" if g: "g \<in> set (sc_list s)" for g
  proof -
    have ok: "sf_ok s g" using wf g by (simp add: sc_wf_def)
    then obtain v where v: "v \<noteq> 0" "sf_size (sc_sf s g) = tsch_asn_divisor_init v"
      "\<forall>k \<in> set (sf_links (sc_sf s g)). lk_timeslot (sc_link s k) < v" by (auto simp: sf_ok_def)
    have "distinct (sf_links (sc_sf s' g))" using ok a' new [OF g] by (cases "g = f") (simp_all add: sf_ok_def)
    moreover have "set (sf_links (sc_sf s' g)) \<subseteq> memb_live (sc_link_mem s')"
      using ok a' unfolding links sf_ok_def by auto
    moreover have "lk_timeslot (sc_link s' k) < v \<and> lk_slotframe_handle (sc_link s' k) = sf_handle (sc_sf s g)"
      if k: "k \<in> set (sf_links (sc_sf s' g))" for k
    proof (cases "k = l")
      case True
      then have "g = f" using k new [OF g] by (auto simp: links split: if_splits)
      moreover have "div_val (tsch_asn_divisor_init v) = v" by (simp add: tsch_asn_divisor_init_def)
      ultimately show ?thesis using a' True v(2) by auto
    next
      case False
      then have "k \<in> set (sf_links (sc_sf s g))" using k by (auto simp: links split: if_splits)
      then show ?thesis using old [OF False] v(3) ok by (auto simp: sf_ok_def)
    qed
    ultimately show ?thesis using v(1,2) unfolding sf_ok_def same by blast
  qed
  moreover have "set (sf_links (sc_sf s' g)) \<inter> set (sf_links (sc_sf s' k)) = {}"
    if "g \<in> set (sc_list s)" "k \<in> set (sc_list s)" "g \<noteq> k" for g k
  proof -
    have "set (sf_links (sc_sf s g)) \<inter> set (sf_links (sc_sf s k)) = {}" using wf that by (simp add: sc_wf_def)
    then show ?thesis using new that unfolding links by auto
  qed
  ultimately show ?thesis using wf a' unfolding sc_wf_def same by metis
qed

lemma timeslot_valid:
  assumes "sc_wf s" "f \<in> set (sc_list s)" "\<not> uint (timeslot :: u16) > uint (div_val (sf_size (sc_sf s f))) - 1"
  shows "timeslot < div_val (sf_size (sc_sf s f))"
proof -
  have "0 < uint (div_val (sf_size (sc_sf s f)))"
    using assms(1,2) by (auto simp: sc_wf_def sf_ok_def tsch_asn_divisor_init_def uint_0_iff less_le)
  then show ?thesis using assms(3) by (simp add: word_less_def)
qed

lemma seq_add_fresh: "l \<notin> set xs \<Longrightarrow> seq_add l xs = xs @ [l]"
  by (simp add: seq_add_def)

lemma links_live: "sc_wf s \<Longrightarrow> f \<in> set (sc_list s) \<Longrightarrow> set (sf_links (sc_sf s f)) \<subseteq> memb_live (sc_link_mem s)"
  by (simp add: sc_wf_def sf_ok_def)

lemma add_link_spec:
  assumes wf: "sc_wf s" and un: "\<not> sc_locked s" and f: "f \<in> set (sc_list s)"
    and add: "tsch_schedule_add_link c policy s (Some f) opts ty addr ts ch rm = (r, s')"
  obtains (failed) "r = None" "sc_wf s'" "\<not> sc_locked s'"
  | (added) l s1 where "r = Some l" "\<not> sc_locked s'" "sc_wf s1" "f \<in> set (sc_list s1)" "link_added s1 f l s'"
      "sc_list s1 = sc_list s" "sc_link s1 = sc_link s"
      "sc_sf s1 = (sc_sf s)(f := (sc_sf s f)\<lparr>sf_links := filter (\<lambda>l. \<not> rm \<or> \<not> link_at s ts ch l) (sf_links (sc_sf s f))\<rparr>)"
      "sc_link s' = (sc_link s)(l := \<lparr>lk_handle = of_nat (sc_link_handle s1),
         lk_addr = (case addr of None \<Rightarrow> linkaddr_null | Some a \<Rightarrow> a), lk_slotframe_handle = sf_handle (sc_sf s f),
         lk_timeslot = ts, lk_channel_offset = ch, lk_link_options = opts, lk_link_type = ty, lk_data = 0\<rparr>)"
proof -
  consider (bad) "uint ts > uint (div_val (sf_size (sc_sf s f))) - 1 \<or> sk_alice c \<and> ch > 15"
    | (ok) "\<not> uint ts > uint (div_val (sf_size (sc_sf s f))) - 1" "\<not> (sk_alice c \<and> ch > 15)" by blast
  then show thesis
  proof cases
    case bad
    then have "tsch_schedule_add_link c policy s (Some f) opts ty addr ts ch rm = (None, s)"
      by (auto simp: tsch_schedule_add_link_def)
    then have "r = None" "s' = s" using add by simp_all
    then show thesis using wf un by (intro failed) simp_all
  next
    case ok
    define s1 where "s1 = (if rm then snd (tsch_schedule_remove_link_by_timeslot c s (Some f) ts ch) else s)"
    have s1: "sc_wf s1 \<and> \<not> sc_locked s1 \<and> sc_list s1 = sc_list s \<and> sc_link s1 = sc_link s \<and>
      sc_sf s1 = (sc_sf s)(f := (sc_sf s f)\<lparr>sf_links := filter (\<lambda>l. \<not> rm \<or> \<not> link_at s ts ch l) (sf_links (sc_sf s f))\<rparr>)"
    proof (cases rm)
      case True
      obtain k t where "remove_at_loop c f ts ch (sf_links (sc_sf s f)) (0, s) = (k, t)" by fastforce
      note * = remove_at_spec [OF wf un f _ subset_refl this]
      have "distinct (sf_links (sc_sf s f))" using wf f by (simp add: sc_wf_def sf_ok_def)
      note * = * [OF this]
      have "filter (\<lambda>l. l \<notin> set (sf_links (sc_sf s f)) \<or> \<not> link_at s ts ch l) (sf_links (sc_sf s f)) =
          filter (\<lambda>l. \<not> rm \<or> \<not> link_at s ts ch l) (sf_links (sc_sf s f))" using True by (auto intro!: filter_cong)
      then show ?thesis using * un True \<open>remove_at_loop _ _ _ _ _ _ = _\<close>
        by (simp add: s1_def tsch_schedule_remove_link_by_timeslot_def tsch_is_locked_def)
    qed (use wf un in \<open>simp add: s1_def\<close>)
    have add': "(case memb_alloc (sc_link_mem s1) of
        (None, m) \<Rightarrow> (None, s1\<lparr>sc_q := tsch_release_lock (sc_q s1\<lparr>tq_locked := True, tq_lock_requested := False\<rparr>), sc_link_mem := m\<rparr>)
      | (Some l, m) \<Rightarrow>
          let s2 = s1\<lparr>sc_link_mem := m, sc_link_handle := sc_link_handle s1 + 1,
                sc_sf := (sc_sf s1)(f := (sc_sf s1 f)\<lparr>sf_links := seq_add l (sf_links (sc_sf s1 f))\<rparr>)\<rparr>;
              x = \<lparr>lk_handle = of_nat (sc_link_handle s1),
                lk_addr = (case addr of None \<Rightarrow> linkaddr_null | Some a \<Rightarrow> a),
                lk_slotframe_handle = sf_handle (sc_sf s1 f), lk_timeslot = ts, lk_channel_offset = ch,
                lk_link_options = opts, lk_link_type = ty, lk_data = 0\<rparr>;
              s3 = (sc_set_link s2 l x)\<lparr>sc_q := tsch_release_lock (sc_q s1\<lparr>tq_locked := True, tq_lock_requested := False\<rparr>)\<rparr>
          in (Some l, sc_count policy s3 l)) = (r, s')"
      using add ok s1 by (simp add: tsch_schedule_add_link_def s1_def [symmetric] get_lock_unlocked Let_def)
    have f1: "f \<in> set (sc_list s1)" "sf_handle (sc_sf s1 f) = sf_handle (sc_sf s f)"
      "sf_size (sc_sf s1 f) = sf_size (sc_sf s f)" using f s1 by auto
    have "memb_wf (sc_link_mem s1)" using s1 by (simp add: sc_wf_def)
    then show thesis
    proof (cases rule: pool.alloc_cases)
      case full
      then have "r = None" "\<exists>q. s' = s1\<lparr>sc_q := tsch_release_lock q, sc_link_mem := sc_link_mem s1\<rparr>" using add' by auto
      then obtain q where rs: "r = None" "s' = s1\<lparr>sc_q := tsch_release_lock q, sc_link_mem := sc_link_mem s1\<rparr>" by blast
      have "sc_wf s' = sc_wf s1" by (rule sc_wf_cong) (simp_all add: rs(2))
      then show thesis using rs s1 by (intro failed) simp_all
    next
      case (fresh l m)
      have new: "l \<notin> set (sf_links (sc_sf s1 f))" using links_live [of s1 f] s1 f1(1) fresh(2) by blast
      define x where "x = \<lparr>lk_handle = of_nat (sc_link_handle s1),
        lk_addr = (case addr of None \<Rightarrow> linkaddr_null | Some a \<Rightarrow> a), lk_slotframe_handle = sf_handle (sc_sf s f),
        lk_timeslot = ts, lk_channel_offset = ch, lk_link_options = opts, lk_link_type = ty, lk_data = 0\<rparr>"
      define s3 where "s3 = (sc_set_link (s1\<lparr>sc_link_mem := m, sc_link_handle := sc_link_handle s1 + 1,
          sc_sf := (sc_sf s1)(f := (sc_sf s1 f)\<lparr>sf_links := sf_links (sc_sf s1 f) @ [l]\<rparr>)\<rparr>) l x)
          \<lparr>sc_q := tsch_release_lock (sc_q s1\<lparr>tq_locked := True, tq_lock_requested := False\<rparr>)\<rparr>"
      have rs: "r = Some l" "s' = sc_count policy s3 l"
        using add' fresh(1) new f1(2) by (auto simp: s3_def x_def seq_add_fresh Let_def)
      have "\<not> sc_locked s3" by (simp add: s3_def)
      from count_q [OF this, of policy l] rs(2) obtain q where s': "s' = s3\<lparr>sc_q := q\<rparr>" "\<not> tq_locked q" by metis
      have "link_added s1 f l s'"
        using fresh timeslot_valid [OF wf f ok(1)] f1(2,3)
        by (auto simp: link_added_def s'(1) s3_def x_def)
      then show thesis
        using s1 s' f1(1) rs(1) by (intro added [of l s1]) (simp_all add: s3_def x_def)
    qed
  qed
qed

section \<open>The options of the links in a cell\<close>

definition cell_options :: "sched \<Rightarrow> u16 \<Rightarrow> u16 \<Rightarrow> int list \<Rightarrow> u8" where
  "cell_options s ts ch ls = foldr (\<lambda>l o'. lk_link_options (sc_link s l) OR o') (filter (link_at s ts ch) ls) 0"

lemma fold_options:
  "foldr (\<lambda>l o'. lk_link_options (sc_link s l) OR o') ls z = foldr (\<lambda>l o'. lk_link_options (sc_link s l) OR o') ls 0 OR z"
  by (induction ls) (simp_all add: or.assoc)

lemma set_option_loop_spec:
  assumes "distinct ls" "set_option_loop ts ch ls s opts = (r, s')"
  shows "r = opts OR cell_options s ts ch ls \<and>
    (\<exists>g. s' = s\<lparr>sc_link := g\<rparr> \<and> (\<forall>k. \<exists>o'. g k = (sc_link s k)\<lparr>lk_link_options := o'\<rparr>) \<and>
      (\<forall>k. k \<notin> set ls \<longrightarrow> g k = sc_link s k))"
  using assms
proof (induction ls arbitrary: s opts)
  case Nil
  then show ?case by (auto simp: cell_options_def intro!: exI [of _ "sc_link s"])
next
  case (Cons l ls)
  show ?case
  proof (cases "link_at s ts ch l")
    case False
    then have "set_option_loop ts ch ls s opts = (r, s')" using Cons.prems(2) by simp
    moreover have "cell_options s ts ch (l # ls) = cell_options s ts ch ls" using False by (simp add: cell_options_def)
    ultimately show ?thesis using Cons.IH [of s opts] Cons.prems(1) by auto
  next
    case True
    let ?o = "opts OR lk_link_options (sc_link s l)"
    let ?x = "(sc_link s l)\<lparr>lk_link_options := lk_link_options (sc_link s l) OR ?o\<rparr>"
    let ?s1 = "sc_set_link s l ?x"
    have rest: "set_option_loop ts ch ls ?s1 ?o = (r, s')" using Cons.prems(2) True by (simp add: Let_def)
    have l: "l \<notin> set ls" "distinct ls" using Cons.prems(1) by auto
    have same: "cell_options ?s1 ts ch ls = cell_options s ts ch ls"
    proof -
      have "filter (link_at ?s1 ts ch) ls = filter (link_at s ts ch) ls"
        using l(1) by (auto simp: link_at_def intro!: filter_cong)
      moreover have "lk_link_options (sc_link ?s1 k) = lk_link_options (sc_link s k)" if "k \<in> set ls" for k
        using that l(1) by auto
      ultimately show ?thesis unfolding cell_options_def by (auto intro!: foldr_cong)
    qed
    from Cons.IH [OF l(2) rest] obtain g where g: "r = ?o OR cell_options s ts ch ls" "s' = ?s1\<lparr>sc_link := g\<rparr>"
      "\<And>k. \<exists>o'. g k = (sc_link ?s1 k)\<lparr>lk_link_options := o'\<rparr>" "\<And>k. k \<notin> set ls \<Longrightarrow> g k = sc_link ?s1 k"
      using same by auto
    have "r = opts OR cell_options s ts ch (l # ls)"
      using g(1) True by (simp add: cell_options_def or.assoc)
    moreover have "\<exists>o'. g k = (sc_link s k)\<lparr>lk_link_options := o'\<rparr>" for k
      using g(3) [of k] by (cases "k = l") auto
    moreover have "k \<notin> set (l # ls) \<longrightarrow> g k = sc_link s k" for k using g(4) [of k] by auto
    ultimately show ?thesis using g(2) by (intro conjI exI [of _ g]) auto
  qed
qed

lemma alice_add_link_spec:
  assumes wf: "sc_wf s" and un: "\<not> sc_locked s" and f: "f \<in> set (sc_list s)"
    and add: "alice_tsch_schedule_add_link policy s (Some f) opts ty addr ts ch = (r, s')"
  obtains (failed) "r = None" "sc_wf s'" "\<not> sc_locked s'"
      "sc_list s' = sc_list s" "sc_sf s' = sc_sf s" "sc_link s' = sc_link s"
  | (added) l where "r = Some l" "\<not> sc_locked s'" "link_added s f l s'" "lk_timeslot (sc_link s' l) = ts"
      "lk_channel_offset (sc_link s' l) = ch"
      "lk_link_options (sc_link s' l) = opts OR cell_options s ts ch (sf_links (sc_sf s f) @ [l])"
      "\<And>k. k \<notin> set (sf_links (sc_sf s f)) \<Longrightarrow> k \<noteq> l \<Longrightarrow> sc_link s' k = sc_link s k"
proof -
  consider (bad) "uint ts > uint (div_val (sf_size (sc_sf s f))) - 1 \<or> ch > 15"
    | (ok) "\<not> uint ts > uint (div_val (sf_size (sc_sf s f))) - 1" "\<not> ch > 15" by blast
  then show thesis
  proof cases
    case bad
    then have "alice_tsch_schedule_add_link policy s (Some f) opts ty addr ts ch = (None, s)"
      by (auto simp: alice_tsch_schedule_add_link_def)
    then show thesis using wf un add by (intro failed) simp_all
  next
    case ok
    have "memb_wf (sc_link_mem s)" using wf by (simp add: sc_wf_def)
    then show thesis
    proof (cases rule: pool.alloc_cases)
      case full
      then have rs: "r = None" "s' = s\<lparr>sc_link_mem := sc_link_mem s, sc_q := tsch_release_lock (sc_q s)\<rparr>"
        using add ok by (simp_all add: alice_tsch_schedule_add_link_def)
      have "sc_wf s' = sc_wf s" by (rule sc_wf_cong) (simp_all add: rs(2))
      then show thesis using rs wf by (intro failed) simp_all
    next
      case (fresh l m)
      have new: "l \<notin> set (sf_links (sc_sf s f))" using links_live [OF wf f] fresh(2) by blast
      define s2 where "s2 = s\<lparr>sc_link_mem := m, sc_alice_link_handle := Suc (sc_alice_link_handle s),
        sc_sf := (sc_sf s)(f := (sc_sf s f)\<lparr>sf_links := sf_links (sc_sf s f) @ [l]\<rparr>),
        sc_link := (sc_link s)(l := (sc_link s l)\<lparr>lk_handle := of_nat (sc_alice_link_handle s)\<rparr>)\<rparr>"
      have dist: "distinct (sf_links (sc_sf s f) @ [l])" using new wf f by (simp add: sc_wf_def sf_ok_def)
      obtain o' s3 where loop: "set_option_loop ts ch (sf_links (sc_sf s f) @ [l]) s2 opts = (o', s3)" by fastforce
      from set_option_loop_spec [OF dist loop] obtain g where g: "o' = opts OR cell_options s2 ts ch (sf_links (sc_sf s f) @ [l])"
        "s3 = s2\<lparr>sc_link := g\<rparr>" "\<And>k. \<exists>o'. g k = (sc_link s2 k)\<lparr>lk_link_options := o'\<rparr>"
        "\<And>k. k \<notin> set (sf_links (sc_sf s f) @ [l]) \<Longrightarrow> g k = sc_link s2 k" by auto
      have opt: "cell_options s2 ts ch ls = cell_options s ts ch ls" for ls
      proof -
        have "link_at s2 ts ch = link_at s ts ch" by (auto simp: link_at_def s2_def fun_eq_iff)
        moreover have "lk_link_options (sc_link s2 k) = lk_link_options (sc_link s k)" for k by (simp add: s2_def)
        ultimately show ?thesis by (simp add: cell_options_def)
      qed
      define x where "x = (g l)\<lparr>lk_link_options := o', lk_link_type := ty, lk_slotframe_handle := sf_handle (sc_sf s f),
        lk_timeslot := ts, lk_channel_offset := ch, lk_data := 0,
        lk_addr := (case addr of None \<Rightarrow> linkaddr_null | Some a \<Rightarrow> a)\<rparr>"
      define s4 where "s4 = (sc_set_link s3 l x)\<lparr>sc_q := tsch_release_lock (sc_q s3)\<rparr>"
      have sf: "sf_links (sc_sf s2 f) = sf_links (sc_sf s f) @ [l]" "sf_handle (sc_sf s3 f) = sf_handle (sc_sf s f)"
        "sc_link s3 = g" by (simp_all add: s2_def g(2))
      have sa: "seq_add l (sf_links (sc_sf s f)) = sf_links (sc_sf s f) @ [l]" using new by (rule seq_add_fresh)
      have "alice_tsch_schedule_add_link policy s (Some f) opts ty addr ts ch = (Some l, sc_count policy s4 l)"
        using fresh(1) ok loop sf
        by (simp add: alice_tsch_schedule_add_link_def sa alice_tsch_schedule_set_link_option_by_ts_choff_def
            s4_def x_def flip: s2_def)
      then have rs: "r = Some l" "s' = sc_count policy s4 l" using add by simp_all
      have "\<not> sc_locked s4" by (simp add: s4_def)
      from count_q [OF this, of policy l] rs(2) obtain q where s': "s' = s4\<lparr>sc_q := q\<rparr>" "\<not> tq_locked q" by metis
      have "\<exists>o'. sc_link s' k = (sc_link s k)\<lparr>lk_link_options := o'\<rparr>" if "k \<noteq> l" for k
        using g(3) [of k] that by (simp add: s'(1) s4_def g(2) s2_def)
      then have "link_added s f l s'"
        using fresh timeslot_valid [OF wf f ok(1)]
        by (simp add: link_added_def s'(1) s4_def x_def g(2)) (simp add: s2_def)
      moreover have "sc_link s' k = sc_link s k" if "k \<notin> set (sf_links (sc_sf s f))" "k \<noteq> l" for k
        using g(4) [of k] that by (simp add: s'(1) s4_def g(2)) (simp add: s2_def)
      ultimately show thesis using s' rs(1) g(1) opt by (intro added [of l]) (simp_all add: s4_def x_def)
    qed
  qed
qed

section \<open>Everything the schedule can become\<close>

text \<open>
  The operations that change the schedule, with any arguments (slotframes and links as the callers
  have them: slotframes in the list, links of theirs) and any answer of the removal policy.
\<close>

inductive sched_step :: "sched_conf \<Rightarrow> sched \<Rightarrow> sched \<Rightarrow> bool" for c where
  add_slotframe: "tsch_schedule_add_slotframe s h v = (r, s') \<Longrightarrow> sched_step c s s'"
| add_link: "f \<in> set (sc_list s) \<Longrightarrow> tsch_schedule_add_link c policy s (Some f) opts ty addr ts ch rm = (r, s') \<Longrightarrow>
    sched_step c s s'"
| alice_add_link: "f \<in> set (sc_list s) \<Longrightarrow>
    alice_tsch_schedule_add_link policy s (Some f) opts ty addr ts ch = (r, s') \<Longrightarrow> sched_step c s s'"
| remove_link: "f \<in> set (sc_list s) \<Longrightarrow> l \<in> set (sf_links (sc_sf s f)) \<Longrightarrow>
    tsch_schedule_remove_link c s (Some f) (Some l) = (i, s') \<Longrightarrow> sched_step c s s'"
| remove_at: "f \<in> set (sc_list s) \<Longrightarrow>
    tsch_schedule_remove_link_by_timeslot c s (Some f) ts ch = (i, s') \<Longrightarrow> sched_step c s s'"
| remove_slotframe: "f \<in> set (sc_list s) \<Longrightarrow>
    tsch_schedule_remove_slotframe c s (Some f) = Some (i, s') \<Longrightarrow> sched_step c s s'"
| remove_all: "tsch_schedule_remove_all_slotframes c s = Some (i, s') \<Longrightarrow> sched_step c s s'"

lemma sched_step_wf: "sched_step c s s' \<Longrightarrow> sc_wf s \<Longrightarrow> \<not> sc_locked s \<Longrightarrow> sc_wf s' \<and> \<not> sc_locked s'"
proof (induction rule: sched_step.induct)
  case (add_slotframe s h v r s')
  then show ?case by (auto elim: add_slotframe_cases)
next
  case (add_link f s policy opts ty addr ts ch rm r s')
  from add_link.prems add_link.hyps show ?case
    by (rule add_link_spec) (use link_added_wf in blast)+
next
  case (alice_add_link f s policy opts ty addr ts ch r s')
  from alice_add_link.prems alice_add_link.hyps show ?case
    by (rule alice_add_link_spec) (use link_added_wf alice_add_link in blast)+
next
  case (remove_link f s l i s')
  then show ?case using remove_link_spec [of s f l c i s'] link_dropped_wf by blast
next
  case (remove_at f s ts ch i s')
  then have "distinct (sf_links (sc_sf s f))" by (simp add: sc_wf_def sf_ok_def)
  moreover have "remove_at_loop c f ts ch (sf_links (sc_sf s f)) (0, s) = (i, s')"
    using remove_at by (simp add: tsch_schedule_remove_link_by_timeslot_def tsch_is_locked_def)
  ultimately show ?case using remove_at_spec [OF remove_at.prems remove_at.hyps(1) _ subset_refl] by blast
next
  case (remove_slotframe f s i s')
  then show ?case using remove_slotframe_spec [of s f c] by auto
next
  case (remove_all s i s')
  then show ?case using remove_all_spec [of s c] by auto
qed

inductive sched_reach :: "sched_conf \<Rightarrow> sched \<Rightarrow> sched \<Rightarrow> bool" for c s0 where
  start: "sched_reach c s0 s0"
| more: "sched_reach c s0 s \<Longrightarrow> sched_step c s s' \<Longrightarrow> sched_reach c s0 s'"

lemma init_wf:
  assumes "\<not> sc_locked s" "memb_size (sc_link_mem s) > 0" "memb_size (sc_sf_mem s) > 0"
  shows "sc_wf (snd (tsch_schedule_init s))" "\<not> sc_locked (snd (tsch_schedule_init s))"
  using assms memb_init_wf by (simp_all add: tsch_schedule_init_def get_lock_unlocked sc_wf_def)

lemma sched_reach_wf:
  "sched_reach c s0 s \<Longrightarrow> sc_wf s0 \<Longrightarrow> \<not> sc_locked s0 \<Longrightarrow> sc_wf s \<and> \<not> sc_locked s"
  by (induction rule: sched_reach.induct) (use sched_step_wf in blast)+

section \<open>Properties\<close>

definition conf_plain :: sched_conf where
  "conf_plain = \<lparr>sk_alice = False, sk_dbt = False, sk_ost = False, sk_latest = True, sk_alice_uc_handle = 2,
     sk_alice_after_handle = 3\<rparr>"

definition link_of :: "u16 \<Rightarrow> u16 \<Rightarrow> u8 \<Rightarrow> tsch_link" where
  "link_of h ts opts = \<lparr>lk_handle = 0, lk_addr = [1, 2], lk_slotframe_handle = h, lk_timeslot = ts,
     lk_channel_offset = 0, lk_link_options = opts, lk_link_type = LINK_TYPE_NORMAL, lk_data = 0\<rparr>"

text \<open>
  Two slotframes of one slot: a shared Tx/Rx link in the first, an Rx link in the second. One link
  block and one slotframe block are free.
\<close>

definition sched_demo :: sched where
  "sched_demo =
     \<lparr>sc_q = tq_demo,
      sc_link_mem = \<lparr>memb_size = 1, memb_num = 3, memb_used = [True, True, False], memb_mem = 0, memb_data = []\<rparr>,
      sc_link = (\<lambda>l. if l = 0 then link_of 0 0 7 else link_of 1 0 2),
      sc_sf_mem = \<lparr>memb_size = 1, memb_num = 3, memb_used = [True, True, False], memb_mem = 0, memb_data = []\<rparr>,
      sc_sf = (\<lambda>f. if f = 0 then \<lparr>sf_handle = 0, sf_size = tsch_asn_divisor_init 1, sf_links = [0]\<rparr>
                   else \<lparr>sf_handle = 1, sf_size = tsch_asn_divisor_init 1, sf_links = [1]\<rparr>),
      sc_list = [0, 1], sc_link_handle = 0, sc_alice_link_handle = 0, sc_current_link = None,
      sc_alice_current_asn = tsch_asn_init 0 0, sc_alice_lastly_asfn = 0, sc_alice_next_asfn = 0\<rparr>"

lemma sched_demo_wf: "sc_wf sched_demo" "\<not> sc_locked sched_demo"
proof -
  have "{i. i < 3 \<and> [True, True, False] ! i} = {0, 1 :: nat}"
  proof -
    have "i = 0 \<or> i = 1 \<or> i = 2" if "i < 3" for i :: nat using that by arith
    then show ?thesis by fastforce
  qed
  then have "memb_live (sc_link_mem sched_demo) = {0, 1}" "memb_live (sc_sf_mem sched_demo) = {0, 1}"
    by (simp_all add: sched_demo_def memb_live_def memb_addr_def)
  moreover have "memb_wf (sc_link_mem sched_demo)" "memb_wf (sc_sf_mem sched_demo)"
    by (simp_all add: sched_demo_def memb_wf_def)
  moreover have "\<exists>v. v \<noteq> 0 \<and> tsch_asn_divisor_init 1 = tsch_asn_divisor_init v \<and> (0 :: u16) < v"
    by (rule exI [of _ 1]) simp
  ultimately show "sc_wf sched_demo"
    by (simp add: sc_wf_def sf_ok_def) (simp add: sched_demo_def link_of_def)
  show "\<not> sc_locked sched_demo" by (simp add: sched_demo_def tq_demo_def)
qed

text \<open>
  (C26) Whatever is added to and removed from the schedule, it stays well-formed: slotframe handles are
  unique, lengths are not zero, every link lies in one slotframe only, within its length, carries its
  handle and is allocated in the pool. The lock is free after each operation.
\<close>

theorem schedule_always_well_formed:
  assumes "\<not> sc_locked s" "memb_size (sc_link_mem s) > 0" "memb_size (sc_sf_mem s) > 0"
    and "sched_reach c (snd (tsch_schedule_init s)) s'"
  shows "sc_wf s' \<and> \<not> sc_locked s'"
  using sched_reach_wf [OF assms(4) init_wf [OF assms(1-3)]] .

theorem schedule_always_well_formed_witness:
  "sc_wf (snd (tsch_schedule_add_slotframe (snd (tsch_schedule_init sched_demo)) 5 7))"
proof -
  let ?s = "snd (tsch_schedule_init sched_demo)"
  have "sched_step conf_plain ?s (snd (tsch_schedule_add_slotframe ?s 5 7))"
    by (rule sched_step.add_slotframe [OF prod.collapse [symmetric]])
  then have "sched_reach conf_plain ?s (snd (tsch_schedule_add_slotframe ?s 5 7))"
    by (rule sched_reach.more [OF sched_reach.start])
  moreover have "memb_size (sc_link_mem sched_demo) > 0" "memb_size (sc_sf_mem sched_demo) > 0"
    by (simp_all add: sched_demo_def)
  ultimately show ?thesis using schedule_always_well_formed [OF sched_demo_wf(2)] by blast
qed

text \<open>
  (C28) Emptying the schedule ends and gives back every slotframe and every link of the
  schedule to their pools, and nothing else.
\<close>

theorem schedule_remove_all_ends:
  assumes "sc_wf s" "\<not> sc_locked s"
  shows "\<exists>s'. tsch_schedule_remove_all_slotframes c s = Some (1, s') \<and> sc_wf s' \<and> \<not> sc_locked s' \<and> sc_list s' = [] \<and>
    memb_live (sc_sf_mem s') = memb_live (sc_sf_mem s) - set (sc_list s) \<and>
    memb_live (sc_link_mem s') = memb_live (sc_link_mem s) - (\<Union>f \<in> set (sc_list s). set (sf_links (sc_sf s f)))"
  using assms by (rule remove_all_spec)

theorem schedule_remove_all_ends_witness:
  "\<exists>s'. tsch_schedule_remove_all_slotframes conf_plain sched_demo = Some (1, s') \<and> sc_list s' = []"
  using schedule_remove_all_ends [OF sched_demo_wf] by blast

text \<open>
  (C29) A link that was added with \<^verbatim>\<open>do_remove\<close> is the one found in its cell, and is the only one there:
  older links of the slotframe in the cell are gone, all others are kept. It has the options and
  address it was added with.
\<close>

theorem schedule_add_then_get:
  assumes "sc_wf s" "\<not> sc_locked s" "f \<in> set (sc_list s)"
    and "tsch_schedule_add_link c policy s (Some f) opts ty (Some a) ts ch True = (Some l, s')"
  shows "tsch_schedule_get_link_by_timeslot s' (Some f) ts ch = Some l \<and>
    lk_link_options (sc_link s' l) = opts \<and> lk_addr (sc_link s' l) = a \<and>
    sf_links (sc_sf s' f) = filter (\<lambda>k. \<not> link_at s ts ch k) (sf_links (sc_sf s f)) @ [l]"
  using assms
proof (cases rule: add_link_spec)
  case (added l' s1)
  have links: "sf_links (sc_sf s1 f) = filter (\<lambda>k. \<not> link_at s ts ch k) (sf_links (sc_sf s f))"
    using added(8) by simp
  have l: "l' = l" "l \<notin> set (sf_links (sc_sf s1 f))"
    using added(1,5) links_live [OF added(3,4)] by (auto simp: link_added_def)
  have s': "sf_links (sc_sf s' f) = sf_links (sc_sf s1 f) @ [l]" using added(5) l(1) by (simp add: link_added_def)
  have "find (link_at s' ts ch) (sf_links (sc_sf s1 f)) = None"
    using l unfolding find_None_set links by (auto simp: link_at_def added(9))
  moreover have "link_at s' ts ch l" using l(1) by (simp add: link_at_def added(9))
  moreover have "find P (xs @ [x]) = Some x" if "find P xs = None" "P x" for P and xs :: "int list" and x
    using that by (induction xs) (auto split: if_splits)
  ultimately show ?thesis
    using added(2,9) s' links l(1) by (simp add: tsch_schedule_get_link_by_timeslot_def tsch_is_locked_def)
qed simp

theorem schedule_add_then_get_witness:
  "fst (tsch_schedule_add_link conf_plain None sched_demo (Some 1) 2 LINK_TYPE_NORMAL (Some [9, 9]) 0 3 True) = Some 2 \<and>
   tsch_schedule_get_link_by_timeslot
     (snd (tsch_schedule_add_link conf_plain None sched_demo (Some 1) 2 LINK_TYPE_NORMAL (Some [9, 9]) 0 3 True))
     (Some 1) 0 3 = Some 2"
proof -
  obtain r s' where add: "tsch_schedule_add_link conf_plain None sched_demo (Some 1) 2 LINK_TYPE_NORMAL (Some [9, 9]) 0 3 True = (r, s')"
    by fastforce
  have "fst (tsch_schedule_add_link conf_plain None sched_demo (Some 1) 2 LINK_TYPE_NORMAL (Some [9, 9]) 0 3 True) = Some 2"
    by (simp add: tsch_schedule_add_link_def sched_demo_def conf_plain_def tsch_schedule_remove_link_by_timeslot_def
        tsch_is_locked_def tq_demo_def link_at_def link_of_def get_lock_unlocked memb_alloc_def
        tsch_asn_divisor_init_def numeral_3_eq_3 Let_def)
  with add have r: "r = Some 2" by simp
  have "1 \<in> set (sc_list sched_demo)" by (simp add: sched_demo_def)
  from schedule_add_then_get [OF sched_demo_wf this add [unfolded r]] show ?thesis unfolding add r by simp
qed

text \<open>
  (C32) With ALICE, \<^verbatim>\<open>tsch_schedule_get_next_active_link\<close> dereferences a null pointer exactly when TSCH is
  locked or there is no unicast slotframe: the size is read before the lock is looked at, and the
  look-up of the slotframe answers NULL under the lock.
\<close>

theorem next_active_link_null_deref:
  "tsch_schedule_get_next_active_link c atvs s asn = None \<longleftrightarrow>
     sk_alice c \<and> \<not> (\<not> sc_locked s \<and> sk_alice_uc_handle c \<in> (\<lambda>f. sf_handle (sc_sf s f)) ` set (sc_list s))"
proof -
  have "find (\<lambda>f. sf_handle (sc_sf s f) = h) fs = None \<longleftrightarrow> h \<notin> (\<lambda>f. sf_handle (sc_sf s f)) ` set fs" for h fs
    by (auto simp: find_None_set)
  then show ?thesis
    by (simp add: tsch_schedule_get_next_active_link_def tsch_schedule_get_slotframe_by_handle_def Let_def
        tsch_is_locked_def del: not_None_eq)
qed

text \<open>
  (C31) A link that ALICE adds has its own options and those of the links of its slotframe in the same cell; but the
  new link is in the list already when these are collected, so if its recycled block
  last held a link in the same cell, the options of that deleted link are added as well.
\<close>

theorem alice_link_options_collected:
  assumes "sc_wf s" "\<not> sc_locked s" "f \<in> set (sc_list s)"
    and "alice_tsch_schedule_add_link policy s (Some f) opts ty addr ts ch = (Some l, s')"
  shows "l \<notin> memb_live (sc_link_mem s) \<and> lk_link_options (sc_link s' l) =
    opts OR cell_options s ts ch (sf_links (sc_sf s f)) OR
      (if link_at s ts ch l then lk_link_options (sc_link s l) else 0)"
  using assms
proof (cases rule: alice_add_link_spec)
  case (added l')
  have "cell_options s ts ch (xs @ [k]) = cell_options s ts ch xs OR
      (if link_at s ts ch k then lk_link_options (sc_link s k) else 0)" for xs k
    using fold_options [of s "filter (link_at s ts ch) xs" "lk_link_options (sc_link s k)"]
    by (simp add: cell_options_def)
  then show ?thesis using added by (simp add: link_added_def or.assoc)
qed simp

theorem alice_link_options_collected_witness:
  "lk_link_options (sc_link sched_demo 2) = 2 \<and>
   lk_link_options (sc_link (snd (alice_tsch_schedule_add_link None sched_demo (Some 0) 1 LINK_TYPE_NORMAL (Some [9, 9]) 0 0)) 2) = 7"
proof -
  obtain r s' where add: "alice_tsch_schedule_add_link None sched_demo (Some 0) 1 LINK_TYPE_NORMAL (Some [9, 9]) 0 0 = (r, s')"
    by fastforce
  have "fst (alice_tsch_schedule_add_link None sched_demo (Some 0) 1 LINK_TYPE_NORMAL (Some [9, 9]) 0 0) = Some 2"
    by (simp add: alice_tsch_schedule_add_link_def sched_demo_def memb_alloc_def tsch_asn_divisor_init_def numeral_3_eq_3
        Let_def split: prod.splits)
  with add have r: "r = Some 2" by simp
  have f: "0 \<in> set (sc_list sched_demo)" by (simp add: sched_demo_def)
  have "cell_options sched_demo 0 0 (sf_links (sc_sf sched_demo 0)) = 7" "link_at sched_demo 0 0 2"
    "lk_link_options (sc_link sched_demo 2) = 2"
    by (simp_all add: cell_options_def sched_demo_def link_at_def link_of_def)
  with alice_link_options_collected [OF sched_demo_wf f add [unfolded r]] show ?thesis unfolding add r by simp
qed

end
