(* ===== verification/Tsch_Schedule_Select.thy ===== *)
theory Tsch_Schedule_Select
  imports Tsch_Schedule_Correct
begin

text \<open>
  The selection of the next active link, for all three schedulers (Orchestra, ALICE and OST): which link it picks, what
  the backup is, what the time offset means when ALICE installs the links of the next slotframe, and what the
  rescheduling of ALICE leaves alone. Then the distance to the next slot in use.
\<close>

section \<open>Which of two links in the same slot wins\<close>

abbreviation lk_tx :: "sched \<Rightarrow> int \<Rightarrow> bool" where
  "lk_tx s l \<equiv> lk_link_options (sc_link s l) AND LINK_OPTION_TX \<noteq> 0"

abbreviation lk_rx :: "sched \<Rightarrow> int \<Rightarrow> bool" where
  "lk_rx s l \<equiv> lk_link_options (sc_link s l) AND LINK_OPTION_RX \<noteq> 0"

abbreviation lk_sf :: "sched \<Rightarrow> int \<Rightarrow> u16" where
  "lk_sf s l \<equiv> lk_slotframe_handle (sc_link s l)"

lemma tx_bit_eq: "(x AND LINK_OPTION_TX = y AND LINK_OPTION_TX) \<longleftrightarrow>
    (x AND LINK_OPTION_TX \<noteq> 0 \<longleftrightarrow> y AND LINK_OPTION_TX \<noteq> 0)" for x y :: u8
  by (simp add: LINK_OPTION_TX_def and_one_eq mod_2_eq_odd)

lemma comparator_choice: "default_tsch_link_comparator s a b = a \<or> default_tsch_link_comparator s a b = b"
  by (auto simp: default_tsch_link_comparator_def Let_def)

text \<open>
  The rank of a link among those with the same Tx option is the handle of its slotframe, lowest first; OST lets its
  broadcast slotframe (handle 2) go before its unicast slotframe (handle 1) when both transmit.
\<close>

definition link_rank :: "sched_conf \<Rightarrow> sched \<Rightarrow> int \<Rightarrow> u16" where
  "link_rank c s l =
     (if sk_ost c \<and> lk_tx s l \<and> lk_sf s l = 1 then 2
      else if sk_ost c \<and> lk_tx s l \<and> lk_sf s l = 2 then 1 else lk_sf s l)"

lemma u16_less_3: "(x :: u16) \<noteq> 0 \<Longrightarrow> x \<noteq> 1 \<Longrightarrow> x \<noteq> 2 \<Longrightarrow> 1 < x \<and> 2 < x"
  by unat_arith

definition link_winner :: "sched_conf \<Rightarrow> sched \<Rightarrow> int \<Rightarrow> int \<Rightarrow> int" where
  "link_winner c s b l = (case better_link c s b l of None \<Rightarrow> b | Some n \<Rightarrow> n)"

lemma link_rank_less:
  assumes "lk_tx s b = lk_tx s l" "lk_sf s l \<noteq> lk_sf s b" "\<not> (sk_ost c \<and> lk_sf s b = 2 \<and> lk_sf s l = 1)"
  shows "link_rank c s l < link_rank c s b \<longleftrightarrow>
    sk_ost c \<and> lk_sf s b = 1 \<and> lk_tx s b \<and> lk_sf s l = 2 \<or> lk_sf s l < lk_sf s b"
    and "link_rank c s l \<noteq> link_rank c s b"
proof -
  have small: "(x :: u16) = 0 \<or> x = 1 \<or> x = 2 \<or> 1 < x \<and> 2 < x" for x using u16_less_3 by blast
  have "(link_rank c s l < link_rank c s b \<longleftrightarrow>
    sk_ost c \<and> lk_sf s b = 1 \<and> lk_tx s b \<and> lk_sf s l = 2 \<or> lk_sf s l < lk_sf s b) \<and> link_rank c s l \<noteq> link_rank c s b"
  proof (cases "sk_ost c \<and> lk_tx s b")
    case False
    then show ?thesis using assms(1,2) by (auto simp: link_rank_def)
  next
    case True
    then show ?thesis
      using assms small [of "lk_sf s l"] small [of "lk_sf s b"] by (elim disjE) (auto simp: link_rank_def)
  qed
  then show "link_rank c s l < link_rank c s b \<longleftrightarrow>
    sk_ost c \<and> lk_sf s b = 1 \<and> lk_tx s b \<and> lk_sf s l = 2 \<or> lk_sf s l < lk_sf s b"
    "link_rank c s l \<noteq> link_rank c s b" by blast+
qed

lemma link_winner_eq:
  assumes "\<not> (sk_ost c \<and> lk_sf s b = 2 \<and> lk_sf s l = 1)"
  shows "link_winner c s b l =
    (if lk_tx s b \<noteq> lk_tx s l then (if lk_tx s l then l else b)
     else if link_rank c s l < link_rank c s b then l
     else if link_rank c s b < link_rank c s l then b
     else default_tsch_link_comparator s b l)"
proof (cases "lk_tx s b = lk_tx s l")
  case tx: True
  then have same: "lk_link_options (sc_link s b) AND LINK_OPTION_TX = lk_link_options (sc_link s l) AND LINK_OPTION_TX"
    using tx_bit_eq by blast
  show ?thesis
  proof (cases "lk_sf s l = lk_sf s b")
    case True
    then have "better_link c s b l = Some (default_tsch_link_comparator s b l)"
      using same by (auto simp: better_link_def Let_def)
    moreover have "link_rank c s l = link_rank c s b" using True tx by (simp add: link_rank_def)
    ultimately show ?thesis using tx by (simp add: link_winner_def)
  next
    case False
    note r = link_rank_less [OF tx False assms]
    then have "better_link c s b l = (if link_rank c s l < link_rank c s b then Some l else None)"
      using same False by (auto simp: better_link_def Let_def)
    then show ?thesis using r(2) tx by (auto simp: link_winner_def not_less)
  qed
next
  case False
  then have "lk_link_options (sc_link s b) AND LINK_OPTION_TX \<noteq> lk_link_options (sc_link s l) AND LINK_OPTION_TX"
    using tx_bit_eq by blast
  then have "better_link c s b l = (if lk_tx s l then Some l else None)"
    by (simp add: better_link_def Let_def)
  then show ?thesis using False by (simp add: link_winner_def)
qed

lemma better_link_other: "lk_sf s b \<noteq> lk_sf s l \<Longrightarrow> better_link c s b l = None \<or> better_link c s b l = Some l"
  by (simp add: better_link_def Let_def)

lemma winner_order:
  fixes h :: "int \<Rightarrow> 'a::linorder"
  assumes w: "w = (if t b \<noteq> t l then (if t l then l else b) else if h l < h b then l else if h b < h l then b else d)"
    and d: "d = b \<or> d = l"
  shows "w = b \<or> w = l" and "t b \<or> t l \<Longrightarrow> t w" and "t b = t w \<Longrightarrow> h w \<le> h b" and "t l = t w \<Longrightarrow> h w \<le> h l"
proof -
  have "(w = b \<or> w = l) \<and> (t b \<or> t l \<longrightarrow> t w) \<and> (t b = t w \<longrightarrow> h w \<le> h b) \<and> (t l = t w \<longrightarrow> h w \<le> h l)"
  proof (cases "t b = t l")
    case False
    then have "w = (if t l then l else b)" using w by simp
    then show ?thesis using False by (cases "t l") simp_all
  next
    case True
    consider "h l < h b" | "h b < h l" | "h b = h l" by (rule linorder_cases)
    then show ?thesis
    proof cases
      case 2
      then have "w = b" using w True by auto
      then show ?thesis using True 2 by simp
    next
      case 3
      then have "w = d" using w True by simp
      then show ?thesis using d True 3 by auto
    qed (use w True in simp_all)
  qed
  then show "w = b \<or> w = l" "t b \<or> t l \<Longrightarrow> t w" "t b = t w \<Longrightarrow> h w \<le> h b" "t l = t w \<Longrightarrow> h w \<le> h l"
    by blast+
qed

text \<open>
  The choice is made in a state \<open>t\<close> that may differ from the final state \<open>s\<close> in the links that ALICE exchanges later.
\<close>

lemma link_winner_spec:
  assumes order: "\<not> (sk_ost c \<and> lk_sf s b = 2 \<and> lk_sf s l = 1)"
    and same: "sc_link t b = sc_link s b" "sc_link t l = sc_link s l"
  defines "w \<equiv> link_winner c t b l"
  shows "w = b \<or> w = l"
    and "lk_tx s b \<or> lk_tx s l \<Longrightarrow> lk_tx s w"
    and "lk_tx s b = lk_tx s w \<Longrightarrow> link_rank c s w \<le> link_rank c s b"
    and "lk_tx s l = lk_tx s w \<Longrightarrow> link_rank c s w \<le> link_rank c s l"
proof -
  have "link_winner c t b l =
    (if lk_tx s b \<noteq> lk_tx s l then (if lk_tx s l then l else b)
     else if link_rank c s l < link_rank c s b then l
     else if link_rank c s b < link_rank c s l then b
     else default_tsch_link_comparator t b l)"
    using link_winner_eq [of c t b l] order unfolding link_rank_def same by simp
  note o = winner_order [where t = "lk_tx s" and h = "link_rank c s", OF this comparator_choice, folded w_def]
  show "w = b \<or> w = l" "lk_tx s b \<or> lk_tx s l \<Longrightarrow> lk_tx s w"
    "lk_tx s b = lk_tx s w \<Longrightarrow> link_rank c s w \<le> link_rank c s b"
    "lk_tx s l = lk_tx s w \<Longrightarrow> link_rank c s w \<le> link_rank c s l" by (fact o)+
qed

text \<open>The best link of a set of links in the same slot.\<close>

definition best_of :: "sched_conf \<Rightarrow> sched \<Rightarrow> int set \<Rightarrow> int \<Rightarrow> bool" where
  "best_of c s L b \<longleftrightarrow> b \<in> L \<and>
     (\<forall>l \<in> L. (lk_tx s l \<longrightarrow> lk_tx s b) \<and> (lk_tx s l = lk_tx s b \<longrightarrow> link_rank c s b \<le> link_rank c s l))"

lemma best_of_insert:
  assumes b: "best_of c s L b" and order: "\<not> (sk_ost c \<and> lk_sf s b = 2 \<and> lk_sf s l = 1)"
    and same: "sc_link t b = sc_link s b" "sc_link t l = sc_link s l"
  shows "best_of c s (insert l L) (link_winner c t b l)"
proof -
  define w where "w = link_winner c t b l"
  note W = link_winner_spec [OF order same, folded w_def]
  have bL: "b \<in> L" using b by (simp add: best_of_def)
  have tx: "lk_tx s k \<Longrightarrow> lk_tx s w" if "k \<in> insert l L" for k
    using b that W(2) unfolding best_of_def by blast
  have sf: "link_rank c s w \<le> link_rank c s k" if k: "k \<in> insert l L" "lk_tx s k = lk_tx s w" for k
  proof (cases "k = l")
    case False
    then have kL: "k \<in> L" using k(1) by simp
    show ?thesis
    proof (cases "lk_tx s b = lk_tx s w")
      case True
      then have "link_rank c s b \<le> link_rank c s k" using b kL k(2) unfolding best_of_def by metis
      then show ?thesis using W(3) [OF True] by order
    next
      case False
      then have "lk_tx s w" "\<not> lk_tx s b" using W(2) by blast+
      then have "lk_tx s k" "\<not> lk_tx s k" using k(2) b kL unfolding best_of_def by blast+
      then show ?thesis by blast
    qed
  qed (use W(4) k(2) in metis)
  have "w \<in> insert l L" using W(1) bL by (metis insert_iff)
  then show ?thesis using tx sf unfolding best_of_def w_def by blast
qed

section \<open>The backup\<close>

text \<open>The backup is a loser with the Rx option, if there is one.\<close>

lemma backup_spec:
  assumes k: "backup_link_after c s b l nb bk = Some k"
  shows "bk = Some k \<or> k = l \<and> nb \<noteq> Some l \<and> lk_rx s l \<or> k = b \<and> nb \<noteq> Some b \<and> lk_rx s b"
  using k unfolding backup_link_after_def Let_def by (auto split: if_splits)

lemma backup_none:
  assumes "backup_link_after c s b l nb bk = None"
  shows "bk = None" "nb \<noteq> Some l \<Longrightarrow> \<not> lk_rx s l" "nb \<noteq> Some b \<Longrightarrow> \<not> lk_rx s b"
  using assms unfolding backup_link_after_def Let_def by (auto split: if_splits)

definition backup_of :: "sched \<Rightarrow> int set \<Rightarrow> int \<Rightarrow> int option \<Rightarrow> bool" where
  "backup_of s L b k \<longleftrightarrow> (case k of None \<Rightarrow> \<forall>l \<in> L. lk_rx s l \<longrightarrow> l = b
     | Some j \<Rightarrow> j \<in> L \<and> lk_rx s j)"

lemma backup_of_insert:
  assumes b: "b \<in> L" and bk: "backup_of s L b k" and same: "sc_link t b = sc_link s b" "sc_link t l = sc_link s l"
  shows "backup_of s (insert l L) (link_winner c t b l) (backup_link_after c t b l (better_link c t b l) k)"
proof -
  let ?nb = "better_link c t b l" and ?w = "link_winner c t b l"
  have w: "?nb = Some j \<Longrightarrow> ?w = j" for j by (simp add: link_winner_def)
  show ?thesis
  proof (cases "backup_link_after c t b l ?nb k")
    case None
    note n = backup_none [OF None, unfolded same]
    have "\<forall>j \<in> L. lk_rx s j \<longrightarrow> j = b" using bk n(1) by (simp add: backup_of_def)
    moreover have "lk_rx s l \<Longrightarrow> ?w = l" "lk_rx s b \<Longrightarrow> ?w = b" using n(2,3) w by blast+
    ultimately have "\<And>j. j \<in> insert l L \<Longrightarrow> lk_rx s j \<Longrightarrow> j = ?w" by (metis insert_iff)
    then show ?thesis unfolding None backup_of_def by simp
  next
    case (Some j)
    have "j \<in> insert l L \<and> lk_rx s j"
      using backup_spec [OF Some, unfolded same]
    proof (elim disjE conjE)
      assume "k = Some j"
      then show ?thesis using bk by (simp add: backup_of_def)
    qed (use b in simp_all)
    then show ?thesis unfolding Some by (simp add: backup_of_def)
  qed
qed

text \<open>A link of the set with the lowest slotframe handle, none when the set is empty.\<close>

definition lowest :: "sched \<Rightarrow> int set \<Rightarrow> int option \<Rightarrow> bool" where
  "lowest s C k \<longleftrightarrow> (case k of None \<Rightarrow> C = {} | Some j \<Rightarrow> j \<in> C \<and> (\<forall>l \<in> C. lk_sf s j \<le> lk_sf s l))"

definition lower_handle :: "sched \<Rightarrow> int \<Rightarrow> int option \<Rightarrow> bool" where
  "lower_handle s k b \<longleftrightarrow> (case b of None \<Rightarrow> True | Some j \<Rightarrow> lk_sf s k < lk_sf s j)"

lemma lowest_consider:
  assumes "lowest s C k"
  shows "lowest s (if P then insert x C else C) (if P \<and> lower_handle s x k then Some x else k)"
  using assms by (cases k) (auto simp: lowest_def lower_handle_def)

lemma backup_latest:
  assumes "sk_latest c"
  shows "backup_link_after c s b l nb k =
    (let k1 = (if (nb \<noteq> Some l \<and> lk_rx s l) \<and> lower_handle s l k then Some l else k)
     in if (nb \<noteq> Some b \<and> lk_rx s b) \<and> lower_handle s b k1 then Some b else k1)"
  using assms unfolding backup_link_after_def lower_handle_def Let_def by (simp only: if_True conj_assoc)

text \<open>
  With links of different slotframes the latest variant considers every link but the best one, and the best one as well
  once another link has come after it.
\<close>

definition backup_candidates :: "sched \<Rightarrow> int list \<Rightarrow> int \<Rightarrow> int set" where
  "backup_candidates s ls b = {l \<in> set ls. lk_rx s l \<and> (l \<noteq> b \<or> l \<noteq> last ls)}"

lemma backup_lowest_step:
  assumes c: "sk_latest c" and b: "b \<in> set ls" and k: "lowest s (backup_candidates s ls b) k"
    and dist: "distinct (map (lk_sf s) (ls @ [l]))"
    and same: "\<And>j. j \<in> insert l (set ls) \<Longrightarrow> sc_link t j = sc_link s j"
  shows "lowest s (backup_candidates s (ls @ [l]) (link_winner c t b l))
    (backup_link_after c t b l (better_link c t b l) k)"
proof -
  have ne: "lk_sf s b \<noteq> lk_sf s l" using dist b by (auto simp: image_iff)
  then have bl: "b \<noteq> l" "l \<notin> set ls" using dist by auto
  have sb: "sc_link t b = sc_link s b" "sc_link t l = sc_link s l" using same b by simp_all
  have kin: "j \<in> insert l (set ls)" if "k = Some j" for j using k that by (simp add: lowest_def backup_candidates_def)
  have low: "lower_handle t j k = lower_handle s j k" if "j = l \<or> j = b" for j
    using that sb same [OF kin] by (cases k) (auto simp: lower_handle_def)
  from better_link_other [of t b l c] ne sb consider "better_link c t b l = None" | "better_link c t b l = Some l"
    by metis
  then show ?thesis
  proof cases
    case 1
    let ?k1 = "if lk_rx s l \<and> lower_handle s l k then Some l else k"
    let ?C1 = "if lk_rx s l then insert l (backup_candidates s ls b) else backup_candidates s ls b"
    have "backup_link_after c t b l (better_link c t b l) k =
        (if lk_rx s b \<and> lower_handle s b ?k1 then Some b else ?k1)"
      unfolding backup_latest [OF c] 1 using sb low by (auto simp: Let_def lower_handle_def)
    moreover have "lowest s (if lk_rx s b then insert b ?C1 else ?C1)
        (if lk_rx s b \<and> lower_handle s b ?k1 then Some b else ?k1)"
      by (rule lowest_consider [OF lowest_consider [OF k]])
    moreover have "backup_candidates s (ls @ [l]) b = (if lk_rx s b then insert b ?C1 else ?C1)"
      using b bl by (auto simp: backup_candidates_def)
    ultimately show ?thesis using 1 by (simp add: link_winner_def)
  next
    case 2
    have "backup_link_after c t b l (better_link c t b l) k = (if lk_rx s b \<and> lower_handle s b k then Some b else k)"
      unfolding backup_latest [OF c] 2 using sb low bl(1) by (auto simp: Let_def)
    moreover have "lowest s (if lk_rx s b then insert b (backup_candidates s ls b) else backup_candidates s ls b)
        (if lk_rx s b \<and> lower_handle s b k then Some b else k)"
      by (rule lowest_consider [OF k])
    moreover have "backup_candidates s (ls @ [l]) l =
        (if lk_rx s b then insert b (backup_candidates s ls b) else backup_candidates s ls b)"
      using b bl by (auto simp: backup_candidates_def)
    ultimately show ?thesis using 2 by (simp add: link_winner_def)
  qed
qed

section \<open>The time of a link\<close>

text \<open>The time to the next occurrence of a link of a slotframe, in slots.\<close>

definition link_time :: "sched \<Rightarrow> tsch_asn \<Rightarrow> int \<times> int \<Rightarrow> u16" where
  "link_time s asn = (\<lambda>(f, l). time_to_timeslot (lk_timeslot (sc_link s l))
     (of_nat (tsch_asn_mod asn (sf_size (sc_sf s f)))) (div_val (sf_size (sc_sf s f))))"

text \<open>
  When the unicast links that ALICE has installed are not those of the current slotframe, those behind the current
  slot have to wait for the next slotframe.
\<close>

definition link_waits :: "sched_conf \<Rightarrow> sched \<Rightarrow> u64 \<Rightarrow> int \<Rightarrow> bool" where
  "link_waits c s asfn f \<longleftrightarrow>
     sk_alice c \<and> sf_handle (sc_sf s f) = sk_alice_uc_handle c \<and> asfn \<noteq> sc_alice_lastly_asfn s"

definition link_delay :: "sched_conf \<Rightarrow> sched \<Rightarrow> u64 \<Rightarrow> tsch_asn \<Rightarrow> int \<times> int \<Rightarrow> u16" where
  "link_delay c s asfn asn = (\<lambda>(f, l).
     if link_waits c s asfn f \<and> lk_timeslot (sc_link s l) > of_nat (tsch_asn_mod asn (sf_size (sc_sf s f)))
     then link_time s asn (f, l) + div_val (sf_size (sc_sf s f)) else link_time s asn (f, l))"

lemma time_value:
  fixes asn :: tsch_asn
  assumes "sf_size (sc_sf s f) = tsch_asn_divisor_init v" "v \<noteq> 0" "lk_timeslot (sc_link s l) < v"
  defines "a \<equiv> asn_val asn mod unat v" and "t \<equiv> unat (lk_timeslot (sc_link s l))"
  shows "unat (link_time s asn (f, l)) = (if a < t then t - a else unat v + t - a)"
    and "unat (of_nat (tsch_asn_mod asn (sf_size (sc_sf s f))) :: u16) = a" "a < unat v" "t < unat v"
proof -
  have v: "div_val (tsch_asn_divisor_init v) = v" by (simp add: tsch_asn_divisor_init_def)
  have m: "0 < unat v" using assms(2) by (simp add: unat_gt_0)
  show a: "a < unat v" using m by (simp add: a_def)
  then have "a < 65536" using u16_less [of v] by linarith
  then have ta: "unat (of_nat a :: u16) = a" by (rule unat_of_nat_u16)
  show t: "t < unat v" using assms(3) by (simp add: word_less_nat_alt t_def)
  show "unat (of_nat (tsch_asn_mod asn (sf_size (sc_sf s f))) :: u16) = a"
    using ta by (simp add: assms(1) asn_mod_val [OF assms(2)] a_def)
  have time: "link_time s asn (f, l) = time_to_timeslot (lk_timeslot (sc_link s l)) (of_nat a) v"
    by (simp add: link_time_def assms(1) asn_mod_val [OF assms(2)] v a_def)
  show "unat (link_time s asn (f, l)) = (if a < t then t - a else unat v + t - a)"
  proof (cases "a < t")
    case True
    then have "unat (lk_timeslot (sc_link s l) - of_nat a) = t - a"
      using ta by (subst unat_sub) (simp_all add: word_le_nat_alt t_def)
    then show ?thesis using True ta by (simp add: time time_to_timeslot_def word_less_nat_alt t_def)
  next
    case False
    have w: "v + lk_timeslot (sc_link s l) - of_nat a = v - (of_nat a - lk_timeslot (sc_link s l))" by simp
    have i: "unat (of_nat a - lk_timeslot (sc_link s l)) = a - t"
      using False ta by (subst unat_sub) (simp_all add: word_le_nat_alt t_def)
    have "unat (v - (of_nat a - lk_timeslot (sc_link s l))) = unat v - (a - t)"
      using i a by (subst unat_sub) (simp_all add: word_le_nat_alt)
    then have "unat (v + lk_timeslot (sc_link s l) - of_nat a) = unat v + t - a"
      unfolding w using False a by linarith
    then show ?thesis using False ta by (simp add: time time_to_timeslot_def word_less_nat_alt t_def)
  qed
qed

lemma mod_of_distance:
  fixes n :: nat
  assumes "n mod m < m" "t < m"
  shows "n mod m < t \<Longrightarrow> (n + (t - n mod m)) div m = n div m \<and> (n + (t - n mod m)) mod m = t"
    and "0 < k \<Longrightarrow> (n + (k * m + t - n mod m)) div m = n div m + k \<and> (n + (k * m + t - n mod m)) mod m = t"
proof -
  have *: "(q * m + t) div m = q \<and> (q * m + t) mod m = t" for q using assms(2) by simp
  have n: "n div m * m + n mod m = n" by simp
  show "(n + (t - n mod m)) div m = n div m \<and> (n + (t - n mod m)) mod m = t" if "n mod m < t"
  proof -
    have "n + (t - n mod m) = n div m * m + t" using n that by linarith
    then show ?thesis using * by metis
  qed
  show "(n + (k * m + t - n mod m)) div m = n div m + k \<and> (n + (k * m + t - n mod m)) mod m = t" if "0 < k"
  proof -
    have "m \<le> k * m" using that by simp
    then have "n + (k * m + t - n mod m) = n div m * m + k * m + t" using n assms(1) by linarith
    then have "n + (k * m + t - n mod m) = (n div m + k) * m + t" by (simp add: add_mult_distrib)
    then show ?thesis using * by metis
  qed
qed

text \<open>
  The slot of a link: its timeslot comes next after the time, in the next slotframe if the link has to wait, and within
  the length of the slotframe otherwise.
\<close>

lemma delay_meaning:
  fixes asn :: tsch_asn
  assumes f: "sf_size (sc_sf s f) = tsch_asn_divisor_init v" "v \<noteq> 0" "lk_timeslot (sc_link s l) < v"
    and big: "link_waits c s asfn f \<Longrightarrow> 2 * unat v \<le> 65536"
  defines "d \<equiv> unat (link_delay c s asfn asn (f, l))"
  shows "0 < d" "(asn_val asn + d) mod unat v = unat (lk_timeslot (sc_link s l))"
    "if link_waits c s asfn f then (asn_val asn + d) div unat v = asn_val asn div unat v + 1 else d \<le> unat v"
proof -
  let ?a = "asn_val asn mod unat v" and ?t = "unat (lk_timeslot (sc_link s l))" and ?n = "asn_val asn"
  note T = time_value(1-3) [OF f, of asn] time_value(4) [OF f]
  have v: "div_val (tsch_asn_divisor_init v) = v" by (simp add: tsch_asn_divisor_init_def)
  have ts: "of_nat (tsch_asn_mod asn (sf_size (sc_sf s f))) < lk_timeslot (sc_link s l) \<longleftrightarrow> ?a < ?t"
    using T(2) by (simp add: word_less_nat_alt)
  have d: "d = (if ?a < ?t \<and> \<not> link_waits c s asfn f then ?t - ?a else unat v + ?t - ?a)"
  proof (cases "link_waits c s asfn f \<and> ?a < ?t")
    case True
    have "unat (link_time s asn (f, l) + v) = unat (link_time s asn (f, l)) + unat v"
      using T True big by (subst unat_add_lem [symmetric]) (auto simp: less_diff_conv)
    then show ?thesis using True ts T(1) by (simp add: d_def link_delay_def f(1) v)
  next
    case False
    then have "link_delay c s asfn asn (f, l) = link_time s asn (f, l)" using ts by (auto simp: link_delay_def)
    then show ?thesis using False T(1) by (auto simp: d_def)
  qed
  note M = mod_of_distance [OF T(3,4)]
  have "d = ?t - ?a \<and> ?a < ?t \<or> d = unat v + ?t - ?a" using d by (simp split: if_splits)
  then show "0 < d" using T(3) by linarith
  have *: "if ?a < ?t \<and> \<not> link_waits c s asfn f then (?n + d) div unat v = ?n div unat v \<and> (?n + d) mod unat v = ?t
    else (?n + d) div unat v = ?n div unat v + 1 \<and> (?n + d) mod unat v = ?t"
  proof (cases "?a < ?t \<and> \<not> link_waits c s asfn f")
    case True
    show ?thesis unfolding if_P [OF True] d using M(1) True by blast
  next
    case False
    show ?thesis unfolding if_not_P [OF False] d using M(2) [of 1] by simp
  qed
  then show "(?n + d) mod unat v = ?t" by (simp split: if_splits)
  show "if link_waits c s asfn f then (?n + d) div unat v = ?n div unat v + 1 else d \<le> unat v"
  proof (cases "link_waits c s asfn f")
    case True
    then show ?thesis using * by simp
  next
    case False
    have "d \<le> unat v" using False d T(3,4) by (simp split: if_splits)
    then show ?thesis using False by simp
  qed
qed

section \<open>Going through the links\<close>

text \<open>The slotframe of the links after the next slotframe is passed over.\<close>

definition sf_skipped :: "sched_conf \<Rightarrow> sched \<Rightarrow> int \<Rightarrow> bool" where
  "sf_skipped c s f \<longleftrightarrow> sk_alice c \<and> sf_handle (sc_sf s f) \<noteq> sk_alice_uc_handle c \<and> sk_dbt c \<and>
     sf_handle (sc_sf s f) = sk_alice_after_handle c"

definition links_of :: "sched_conf \<Rightarrow> sched \<Rightarrow> int list \<Rightarrow> (int \<times> int) list" where
  "links_of c s fs = concat (map (\<lambda>f. map (Pair f) (sf_links (sc_sf s f))) (filter (\<lambda>f. \<not> sf_skipped c s f) fs))"

definition active_links :: "sched_conf \<Rightarrow> sched \<Rightarrow> (int \<times> int) list" where
  "active_links c s = links_of c s (sc_list s)"

definition delay_fold :: "sched_conf \<Rightarrow> sched \<Rightarrow> u64 \<Rightarrow> tsch_asn \<Rightarrow> best_link \<Rightarrow> int \<times> int \<Rightarrow> best_link" where
  "delay_fold c s asfn asn acc = (\<lambda>(f, l).
     active_link_step c s asfn (of_nat (tsch_asn_mod asn (sf_size (sc_sf s f)))) f acc l)"

lemma foldl_delay: "foldl (active_link_step c s asfn (of_nat (tsch_asn_mod asn (sf_size (sc_sf s f)))) f) acc xs =
    foldl (delay_fold c s asfn asn) acc (map (Pair f) xs)"
  by (induction xs arbitrary: acc) (auto simp: delay_fold_def)

abbreviation alice_uc :: "sched_conf \<Rightarrow> sched \<Rightarrow> int \<Rightarrow> bool" where
  "alice_uc c s f \<equiv> sk_alice c \<and> sf_handle (sc_sf s f) = sk_alice_uc_handle c"

lemma active_slotframes_other:
  "(\<And>f. f \<in> set fs \<Longrightarrow> \<not> alice_uc c s f) \<Longrightarrow>
   active_slotframes c atvs asfn asn fs s acc = (foldl (delay_fold c s asfn asn) acc (links_of c s fs), s)"
proof (induction fs arbitrary: acc)
  case (Cons f fs)
  then have "\<not> alice_uc c s f" by simp
  then show ?case
    using Cons by (auto simp: links_of_def sf_skipped_def foldl_delay Let_def)
qed (simp add: links_of_def)

lemma active_slotframes_append:
  "active_slotframes c atvs asfn asn (fs @ gs) s acc =
    (case active_slotframes c atvs asfn asn fs s acc of (acc1, s1) \<Rightarrow> active_slotframes c atvs asfn asn gs s1 acc1)"
  by (induction fs arbitrary: s acc) (auto simp: Let_def)

text \<open>With the unicast slotframe in the list, the links before it are seen before the rescheduling, the others after it.\<close>

lemma active_slotframes_alice:
  assumes uc: "alice_uc c s u" and xs: "\<And>f. f \<in> set xs \<Longrightarrow> \<not> alice_uc c s f"
    and s': "s' = alice_maybe_reschedule c atvs asfn asn u s" and u': "alice_uc c s' u"
    and ys: "\<And>f. f \<in> set ys \<Longrightarrow> \<not> alice_uc c s' f"
  shows "active_slotframes c atvs asfn asn (xs @ u # ys) s acc =
    (foldl (delay_fold c s' asfn asn) (foldl (delay_fold c s asfn asn) acc (links_of c s xs)) (links_of c s' (u # ys)), s')"
proof -
  have "active_slotframes c atvs asfn asn (u # ys) s a =
      (foldl (delay_fold c s' asfn asn) a (links_of c s' (u # ys)), s')" for a
  proof -
    have "links_of c s' (u # ys) = map (Pair u) (sf_links (sc_sf s' u)) @ links_of c s' ys"
      using u' by (simp add: links_of_def sf_skipped_def)
    then show ?thesis
      using uc active_slotframes_other [where c = c, OF ys] by (simp add: foldl_delay Let_def flip: s')
  qed
  then show ?thesis by (simp add: active_slotframes_append active_slotframes_other [where c = c, OF xs])
qed

section \<open>The best link so far\<close>

text \<open>The links of a list in the slot that comes after \<open>t\<close> slots, in the order of the list.\<close>

definition in_slot :: "sched_conf \<Rightarrow> sched \<Rightarrow> u64 \<Rightarrow> tsch_asn \<Rightarrow> (int \<times> int) list \<Rightarrow> u16 \<Rightarrow> int list" where
  "in_slot c s asfn asn xs t = map snd (filter (\<lambda>x. link_delay c s asfn asn x = t) xs)"

lemma in_slot_snoc: "in_slot c s asfn asn (xs @ [x]) t =
    (if link_delay c s asfn asn x = t then in_slot c s asfn asn xs t @ [snd x] else in_slot c s asfn asn xs t)"
  by (simp add: in_slot_def)

definition slot_choice :: "sched_conf \<Rightarrow> sched \<Rightarrow> int list \<Rightarrow> int \<Rightarrow> int option \<Rightarrow> bool" where
  "slot_choice c s ls b k \<longleftrightarrow> best_of c s (set ls) b \<and> backup_of s (set ls) b k \<and>
     (sk_latest c \<and> distinct (map (lk_sf s) ls) \<longrightarrow> lowest s (backup_candidates s ls b) k)"

lemma slot_choice_first: "slot_choice c s [l] l None"
  by (auto simp: slot_choice_def best_of_def backup_of_def lowest_def backup_candidates_def)

lemma slot_choice_step:
  assumes ch: "slot_choice c s ls b k"
    and order: "\<And>j. j \<in> set ls \<Longrightarrow> \<not> (sk_ost c \<and> lk_sf s j = 2 \<and> lk_sf s l = 1)"
    and same: "\<And>j. j \<in> insert l (set ls) \<Longrightarrow> sc_link t j = sc_link s j"
  shows "slot_choice c s (ls @ [l]) (link_winner c t b l) (backup_link_after c t b l (better_link c t b l) k)"
proof -
  have b: "best_of c s (set ls) b" "backup_of s (set ls) b k" "b \<in> set ls"
    using ch by (simp_all add: slot_choice_def best_of_def)
  have sb: "sc_link t b = sc_link s b" "sc_link t l = sc_link s l" using same b(3) by simp_all
  have "lowest s (backup_candidates s (ls @ [l]) (link_winner c t b l))
      (backup_link_after c t b l (better_link c t b l) k)"
    if d: "sk_latest c" "distinct (map (lk_sf s) (ls @ [l]))"
    using ch d by (intro backup_lowest_step [OF d(1) b(3) _ d(2) same]) (auto simp: slot_choice_def)
  then show ?thesis
    using best_of_insert [OF b(1) order [OF b(3)] sb] backup_of_insert [OF b(3,2) sb]
    by (simp add: slot_choice_def)
qed

definition best_inv ::
  "sched_conf \<Rightarrow> sched \<Rightarrow> u64 \<Rightarrow> tsch_asn \<Rightarrow> (int \<times> int) list \<Rightarrow> best_link \<Rightarrow> bool" where
  "best_inv c s asfn asn xs acc \<longleftrightarrow>
     (case bl_best acc of
        None \<Rightarrow> xs = []
      | Some b \<Rightarrow> slot_choice c s (in_slot c s asfn asn xs (bl_time acc)) b (bl_backup acc) \<and>
          (\<forall>x \<in> set xs. bl_time acc \<le> link_delay c s asfn asn x))"

lemma best_inv_step:
  assumes inv: "best_inv c s asfn asn xs acc"
    and order: "\<And>j. j \<in> snd ` set xs \<Longrightarrow> \<not> (sk_ost c \<and> lk_sf s j = 2 \<and> lk_sf s (snd x) = 1)"
    and same: "\<And>j. j \<in> snd ` set (xs @ [x]) \<Longrightarrow> sc_link t j = sc_link s j"
    and delay: "link_delay c t asfn asn x = link_delay c s asfn asn x"
  shows "best_inv c s asfn asn (xs @ [x]) (delay_fold c t asfn asn acc x)"
proof -
  obtain f l where x: "x = (f, l)" by fastforce
  let ?d = "link_delay c s asfn asn" and ?slot = "in_slot c s asfn asn"
  let ?new = "\<lparr>bl_time = ?d x, bl_best = Some l, bl_backup = None\<rparr>"
  have step: "delay_fold c t asfn asn acc x = (case bl_best acc of
      None \<Rightarrow> ?new
    | Some b \<Rightarrow> if ?d x < bl_time acc then ?new
        else if ?d x = bl_time acc then acc\<lparr>bl_backup := backup_link_after c t b l (better_link c t b l) (bl_backup acc),
          bl_best := Some (link_winner c t b l)\<rparr>
        else acc)"
    unfolding delay [symmetric]
    by (simp add: x delay_fold_def active_link_step_def link_delay_def link_time_def link_waits_def link_winner_def Let_def
        split: option.splits)
  have fresh: "best_inv c s asfn asn (xs @ [x]) ?new" if lt: "\<And>y. y \<in> set xs \<Longrightarrow> ?d x < ?d y"
  proof -
    have "?d y \<noteq> ?d x" if "y \<in> set xs" for y using lt [OF that] by simp
    then have "filter (\<lambda>y. ?d y = ?d x) xs = []" by (simp add: filter_empty_conv)
    then have "?slot (xs @ [x]) (?d x) = [l]" by (simp add: in_slot_def x)
    then show ?thesis using lt slot_choice_first by (simp add: best_inv_def less_imp_le)
  qed
  show ?thesis
  proof (cases "bl_best acc")
    case None
    then have "xs = []" using inv by (simp add: best_inv_def)
    then show ?thesis using fresh None step by simp
  next
    case (Some b)
    then have IH: "slot_choice c s (?slot xs (bl_time acc)) b (bl_backup acc)" "\<And>y. y \<in> set xs \<Longrightarrow> bl_time acc \<le> ?d y"
      using inv by (simp_all add: best_inv_def)
    consider (less) "?d x < bl_time acc" | (same) "?d x = bl_time acc" | (more) "bl_time acc < ?d x" by (rule linorder_cases)
    then show ?thesis
    proof cases
      case less
      then have "?d x < ?d y" if "y \<in> set xs" for y using IH(2) [OF that] by order
      then show ?thesis using Some step less fresh by simp
    next
      case same': same
      have "set (?slot xs (bl_time acc)) \<subseteq> snd ` set xs" by (auto simp: in_slot_def)
      then have "slot_choice c s (?slot xs (bl_time acc) @ [l]) (link_winner c t b l)
          (backup_link_after c t b l (better_link c t b l) (bl_backup acc))"
        using order same by (intro slot_choice_step [OF IH(1)]) (auto simp: x)
      then show ?thesis using Some step same' IH(2) by (simp add: best_inv_def in_slot_snoc x)
    next
      case more
      then have "?slot (xs @ [x]) (bl_time acc) = ?slot xs (bl_time acc)" by (auto simp: in_slot_snoc)
      then show ?thesis using Some step more IH by (auto simp: best_inv_def)
    qed
  qed
qed

text \<open>A list of links none of which OST would have to put before an earlier one.\<close>

definition ost_sorted :: "sched_conf \<Rightarrow> sched \<Rightarrow> int list \<Rightarrow> bool" where
  "ost_sorted c s = sorted_wrt (\<lambda>j l. \<not> (sk_ost c \<and> lk_sf s j = 2 \<and> lk_sf s l = 1))"

lemma best_fold_inv:
  assumes "best_inv c s asfn asn ws acc" "ost_sorted c s (map snd (ws @ xs))"
    and "\<And>j. j \<in> snd ` set (ws @ xs) \<Longrightarrow> sc_link t j = sc_link s j"
    and "\<And>x. x \<in> set xs \<Longrightarrow> link_delay c t asfn asn x = link_delay c s asfn asn x"
  shows "best_inv c s asfn asn (ws @ xs) (foldl (delay_fold c t asfn asn) acc xs)"
  using assms
proof (induction xs rule: rev_induct)
  case (snoc x xs)
  have "best_inv c s asfn asn (ws @ xs) (foldl (delay_fold c t asfn asn) acc xs)"
    using snoc.prems by (intro snoc.IH) (auto simp: ost_sorted_def sorted_wrt_append)
  then have "best_inv c s asfn asn ((ws @ xs) @ [x]) (delay_fold c t asfn asn (foldl (delay_fold c t asfn asn) acc xs) x)"
    using snoc.prems(2-4) by (intro best_inv_step) (auto simp: ost_sorted_def sorted_wrt_append)
  then show ?case by simp
qed simp

section \<open>What the rescheduling of ALICE may do\<close>

text \<open>
  \<^verbatim>\<open>alice_time_varying_scheduling\<close> exchanges links of the unicast slotframe and, with bursts, of the slotframe for the
  links after it (\<^verbatim>\<open>alice_schedule_unicast_slotframe\<close> in \<^verbatim>\<open>os/services/alice\<close>): it removes links of these
  slotframes and adds links to them, in any number and order.
\<close>

definition alice_edited :: "sched_conf \<Rightarrow> sched \<Rightarrow> int \<Rightarrow> bool" where
  "alice_edited c s f \<longleftrightarrow> sf_handle (sc_sf s f) = sk_alice_uc_handle c \<or>
     sk_dbt c \<and> sf_handle (sc_sf s f) = sk_alice_after_handle c"

inductive alice_edits :: "sched_conf \<Rightarrow> sched \<Rightarrow> sched \<Rightarrow> bool" for c s where
  unchanged: "alice_edits c s s"
| remove: "alice_edits c s s1 \<Longrightarrow> f \<in> set (sc_list s1) \<Longrightarrow> alice_edited c s1 f \<Longrightarrow> l \<in> set (sf_links (sc_sf s1 f)) \<Longrightarrow>
    tsch_schedule_remove_link c s1 (Some f) (Some l) = (i, s2) \<Longrightarrow> alice_edits c s s2"
| add: "alice_edits c s s1 \<Longrightarrow> f \<in> set (sc_list s1) \<Longrightarrow> alice_edited c s1 f \<Longrightarrow>
    alice_tsch_schedule_add_link policy s1 (Some f) opts ty addr ts ch = (r, s2) \<Longrightarrow> alice_edits c s s2"

definition alice_keeps :: "sched_conf \<Rightarrow> sched \<Rightarrow> sched \<Rightarrow> bool" where
  "alice_keeps c s s' \<longleftrightarrow> sc_wf s' \<and> \<not> sc_locked s' \<and> sc_list s' = sc_list s \<and>
     (\<forall>f \<in> set (sc_list s). sf_handle (sc_sf s' f) = sf_handle (sc_sf s f) \<and> sf_size (sc_sf s' f) = sf_size (sc_sf s f) \<and>
        (\<not> alice_edited c s f \<longrightarrow> sf_links (sc_sf s' f) = sf_links (sc_sf s f) \<and>
           (\<forall>l \<in> set (sf_links (sc_sf s f)). sc_link s' l = sc_link s l)))"

lemma alice_keeps_refl: "sc_wf s \<Longrightarrow> \<not> sc_locked s \<Longrightarrow> alice_keeps c s s"
  by (simp add: alice_keeps_def)

lemma alice_keeps_trans: "alice_keeps c s s1 \<Longrightarrow> alice_keeps c s1 s2 \<Longrightarrow> alice_keeps c s s2"
  by (simp add: alice_keeps_def alice_edited_def)

lemma links_apart:
  "sc_wf s \<Longrightarrow> f \<in> set (sc_list s) \<Longrightarrow> g \<in> set (sc_list s) \<Longrightarrow> g \<noteq> f \<Longrightarrow> l \<in> set (sf_links (sc_sf s g)) \<Longrightarrow>
   l \<notin> set (sf_links (sc_sf s f)) \<and> l \<in> memb_live (sc_link_mem s)"
  using links_live [of s g] unfolding sc_wf_def by (blast dest: subsetD)

lemma alice_remove_keeps:
  assumes wf: "sc_wf s" "\<not> sc_locked s" and f: "f \<in> set (sc_list s)" "alice_edited c s f" "l \<in> set (sf_links (sc_sf s f))"
    and rm: "tsch_schedule_remove_link c s (Some f) (Some l) = (i, s')"
  shows "alice_keeps c s s'"
proof -
  note r = remove_link_spec [OF wf f(1,3) rm]
  have "sc_wf s'" by (rule link_dropped_wf [OF wf(1) f(1,3) r(3)])
  then show ?thesis using r(2,3) f(2) by (auto simp: alice_keeps_def link_dropped_def)
qed

lemma alice_add_keeps:
  assumes wf: "sc_wf s" "\<not> sc_locked s" and f: "f \<in> set (sc_list s)" "alice_edited c s f"
    and add: "alice_tsch_schedule_add_link policy s (Some f) opts ty addr ts ch = (r, s')"
  shows "alice_keeps c s s'"
  using wf f(1) add
proof (cases rule: alice_add_link_spec)
  case failed
  then show ?thesis by (simp add: alice_keeps_def)
next
  case (added l)
  have "sc_link s' k = sc_link s k" if "g \<in> set (sc_list s)" "g \<noteq> f" "k \<in> set (sf_links (sc_sf s g))" for g k
    using links_apart [OF wf(1) f(1) that] added(3,7) by (metis link_added_def)
  then show ?thesis
    using added(2,3) link_added_wf [OF wf(1) f(1) added(3)] f(2) by (auto simp: alice_keeps_def link_added_def)
qed

lemma alice_edits_keep: "alice_edits c s s' \<Longrightarrow> sc_wf s \<Longrightarrow> \<not> sc_locked s \<Longrightarrow> alice_keeps c s s'"
proof (induction rule: alice_edits.induct)
  case (remove s1 f l i s2)
  then have "alice_keeps c s s1" "sc_wf s1" "\<not> sc_locked s1" by (auto simp: alice_keeps_def)
  then show ?case using alice_remove_keeps remove.hyps alice_keeps_trans by blast
next
  case (add s1 f policy opts ty addr ts ch r s2)
  then have "alice_keeps c s s1" "sc_wf s1" "\<not> sc_locked s1" by (auto simp: alice_keeps_def)
  then show ?case using alice_add_keeps add.hyps alice_keeps_trans by blast
qed (use alice_keeps_refl in blast)

lemma reschedule_keeps:
  assumes "sc_wf s" "\<not> sc_locked s" "\<And>t. alice_edits c t (atvs t)"
  shows "alice_keeps c s (alice_maybe_reschedule c atvs asfn asn u s)"
proof -
  have keep: "alice_keeps c s (atvs (s\<lparr>sc_alice_lastly_asfn := a, sc_alice_next_asfn := b\<rparr>))" for a b
  proof -
    let ?t = "s\<lparr>sc_alice_lastly_asfn := a, sc_alice_next_asfn := b\<rparr>"
    have "sc_wf ?t" using assms(1) sc_wf_cong [of ?t s] by simp
    then have "alice_keeps c ?t (atvs ?t)" using assms(2,3) by (intro alice_edits_keep) simp_all
    then show ?thesis by (simp add: alice_keeps_def alice_edited_def)
  qed
  show ?thesis
    using keep alice_keeps_refl [OF assms(1,2)] unfolding alice_maybe_reschedule_def Let_def by (simp only: split: if_split) blast
qed

section \<open>The selection\<close>

text \<open>No slotframe with handle 2 is before one with handle 1 (OST adds its slotframes by rising handle).\<close>

definition ost_order :: "sched_conf \<Rightarrow> sched \<Rightarrow> bool" where
  "ost_order c s = sorted_wrt (\<lambda>f g. \<not> (sk_ost c \<and> sf_handle (sc_sf s f) = 2 \<and> sf_handle (sc_sf s g) = 1)) (sc_list s)"

lemma link_handle: "sc_wf s \<Longrightarrow> (f, l) \<in> set (links_of c s fs) \<Longrightarrow> set fs \<subseteq> set (sc_list s) \<Longrightarrow>
    lk_sf s l = sf_handle (sc_sf s f) \<and> f \<in> set fs \<and> l \<in> set (sf_links (sc_sf s f)) \<and> \<not> sf_skipped c s f"
  by (auto simp: links_of_def sc_wf_def sf_ok_def)

lemma sorted_wrt_all: "(\<And>x y. x \<in> set xs \<Longrightarrow> y \<in> set xs \<Longrightarrow> P x y) \<Longrightarrow> sorted_wrt P xs"
  by (induction xs) simp_all

lemma links_ost_sorted:
  assumes wf: "sc_wf s" and o: "sorted_wrt (\<lambda>f g. \<not> (sk_ost c \<and> sf_handle (sc_sf s f) = 2 \<and> sf_handle (sc_sf s g) = 1)) fs"
    and fs: "set fs \<subseteq> set (sc_list s)"
  shows "ost_sorted c s (map snd (links_of c s fs))"
  using o fs
proof (induction fs)
  case (Cons f fs)
  then have IH: "ost_sorted c s (map snd (links_of c s fs))" by simp
  let ?ls = "if sf_skipped c s f then [] else sf_links (sc_sf s f)"
  have split: "map snd (links_of c s (f # fs)) = ?ls @ map snd (links_of c s fs)"
    by (simp add: links_of_def comp_def)
  have h: "lk_sf s l = sf_handle (sc_sf s f)" if "l \<in> set ?ls" for l
    using that wf Cons.prems(2) by (auto simp: sc_wf_def sf_ok_def split: if_splits)
  have "\<not> (sk_ost c \<and> lk_sf s j = 2 \<and> lk_sf s l = 1)" if "j \<in> set ?ls" "l \<in> snd ` set (links_of c s fs)" for j l
  proof -
    from that(2) obtain g where "(g, l) \<in> set (links_of c s fs)" by force
    then have "lk_sf s l = sf_handle (sc_sf s g)" "g \<in> set fs" using link_handle [OF wf, of g l c fs] Cons.prems(2) by auto
    then show ?thesis using Cons.prems(1) h [OF that(1)] by auto
  qed
  moreover have "ost_sorted c s ?ls"
    unfolding ost_sorted_def by (rule sorted_wrt_all) (simp add: h)
  ultimately show ?case using IH unfolding ost_sorted_def split by (simp add: sorted_wrt_append)
qed (simp add: links_of_def ost_sorted_def)

text \<open>The number of the slotframe of ALICE's unicast slotframe that an ASN is in.\<close>

definition alice_at :: "sched_conf \<Rightarrow> sched \<Rightarrow> tsch_asn \<Rightarrow> u64" where
  "alice_at c s asn = (if sk_alice c
     then alice_asfn asn (sf_size (sc_sf s (the (tsch_schedule_get_slotframe_by_handle s (sk_alice_uc_handle c)))))
     else 0)"

abbreviation alice_now :: "sched_conf \<Rightarrow> sched \<Rightarrow> u64" where
  "alice_now c s \<equiv> alice_at c s (sc_alice_current_asn s)"

text \<open>What the links before the unicast slotframe look like is not changed by the rescheduling.\<close>

lemma links_before_kept:
  assumes keep: "alice_keeps c s s'" and fs: "set fs \<subseteq> set (sc_list s)" "\<And>f. f \<in> set fs \<Longrightarrow> \<not> alice_uc c s f" and a: "sk_alice c"
  shows "links_of c s fs = links_of c s' fs"
    and "x \<in> set (links_of c s fs) \<Longrightarrow> sc_link s (snd x) = sc_link s' (snd x)"
    and "x \<in> set (links_of c s fs) \<Longrightarrow> link_delay c s asfn asn x = link_delay c s' asfn asn x"
proof -
  have same: "sf_handle (sc_sf s' f) = sf_handle (sc_sf s f)" "sf_size (sc_sf s' f) = sf_size (sc_sf s f)"
    "sf_skipped c s' f = sf_skipped c s f" if "f \<in> set fs" for f
    using keep fs(1) that by (auto simp: alice_keeps_def sf_skipped_def)
  have links: "sf_links (sc_sf s' f) = sf_links (sc_sf s f)" "\<And>l. l \<in> set (sf_links (sc_sf s f)) \<Longrightarrow> sc_link s' l = sc_link s l"
    if f: "f \<in> set fs" "\<not> sf_skipped c s f" for f
  proof -
    have "\<not> alice_edited c s f" using f fs(2) [OF f(1)] a by (auto simp: alice_edited_def sf_skipped_def)
    then show "sf_links (sc_sf s' f) = sf_links (sc_sf s f)" "\<And>l. l \<in> set (sf_links (sc_sf s f)) \<Longrightarrow> sc_link s' l = sc_link s l"
      using keep fs(1) f(1) by (auto simp: alice_keeps_def)
  qed
  have "map (\<lambda>f. map (Pair f) (sf_links (sc_sf s f))) (filter (\<lambda>f. \<not> sf_skipped c s f) fs) =
      map (\<lambda>f. map (Pair f) (sf_links (sc_sf s' f))) (filter (\<lambda>f. \<not> sf_skipped c s' f) fs)"
    using links(1) same(3) by (intro map_cong filter_cong) auto
  then show "links_of c s fs = links_of c s' fs" by (simp only: links_of_def)
  assume "x \<in> set (links_of c s fs)"
  then obtain f l where x: "x = (f, l)" "f \<in> set fs" "\<not> sf_skipped c s f" "l \<in> set (sf_links (sc_sf s f))"
    by (auto simp: links_of_def)
  show l: "sc_link s (snd x) = sc_link s' (snd x)" using links(2) [OF x(2,3,4)] by (simp add: x(1))
  show "link_delay c s asfn asn x = link_delay c s' asfn asn x"
    using fs(2) [OF x(2)] a l same(1,2) [OF x(2)] by (simp add: x(1) link_delay_def link_time_def link_waits_def)
qed

lemma best_inv_start: "best_inv c s asfn asn [] \<lparr>bl_time = 0, bl_best = None, bl_backup = None\<rparr>"
  by (simp add: best_inv_def)

lemma select_plain:
  assumes "sc_wf s" "ost_order c s" "\<not> sk_alice c"
  shows "\<exists>r. active_slotframes c atvs asfn asn (sc_list s) s \<lparr>bl_time = 0, bl_best = None, bl_backup = None\<rparr> = (r, s) \<and>
    best_inv c s asfn asn (active_links c s) r"
proof -
  have "ost_sorted c s (map snd ([] @ active_links c s))"
    using links_ost_sorted [OF assms(1) assms(2) [unfolded ost_order_def] subset_refl] by (simp add: active_links_def)
  from best_fold_inv [OF best_inv_start this refl refl] show ?thesis
    using active_slotframes_other [of "sc_list s" c s atvs asfn asn] assms(3) by (simp add: active_links_def)
qed

lemma select_alice:
  assumes wf: "sc_wf s" "\<not> sc_locked s" and o: "ost_order c s" and a: "sk_alice c"
    and u: "u \<in> set (sc_list s)" "sf_handle (sc_sf s u) = sk_alice_uc_handle c" and at: "\<And>t. alice_edits c t (atvs t)"
  shows "\<exists>r s'. active_slotframes c atvs asfn asn (sc_list s) s \<lparr>bl_time = 0, bl_best = None, bl_backup = None\<rparr> = (r, s') \<and>
    alice_keeps c s s' \<and> best_inv c s' asfn asn (active_links c s') r"
proof -
  define s' where "s' = alice_maybe_reschedule c atvs asfn asn u s"
  have keep: "alice_keeps c s s'" unfolding s'_def by (rule reschedule_keeps [OF wf at])
  then have k: "sc_wf s'" "sc_list s' = sc_list s" "\<And>f. f \<in> set (sc_list s) \<Longrightarrow> sf_handle (sc_sf s' f) = sf_handle (sc_sf s f)"
    by (simp_all add: alice_keeps_def)
  from u(1) obtain xs ys where list: "sc_list s = xs @ u # ys" by (meson split_list)
  have other: "sf_handle (sc_sf s f) \<noteq> sk_alice_uc_handle c" if "f \<in> set xs \<union> set ys" for f
  proof -
    have "f \<in> set (sc_list s)" "f \<noteq> u" using that wf(1) list by (auto simp: sc_wf_def)
    then show ?thesis using wf(1) u by (metis sc_wf_def)
  qed
  have xs: "\<not> alice_uc c s f" if "f \<in> set xs" for f using other that by simp
  have ys: "\<not> alice_uc c s' f" if "f \<in> set ys" for f using other [of f] that k(3) list by simp
  let ?start = "\<lparr>bl_time = 0, bl_best = None, bl_backup = None\<rparr>"
  let ?r1 = "foldl (delay_fold c s asfn asn) ?start (links_of c s xs)"
  let ?r = "foldl (delay_fold c s' asfn asn) ?r1 (links_of c s' (u # ys))"
  have run: "active_slotframes c atvs asfn asn (sc_list s) s ?start = (?r, s')"
    unfolding list using a u k(3) by (intro active_slotframes_alice xs ys s'_def) simp_all
  have sub: "set xs \<subseteq> set (sc_list s)" using list by auto
  have before: "links_of c s xs = links_of c s' xs"
    "\<And>x. x \<in> set (links_of c s xs) \<Longrightarrow> sc_link s (snd x) = sc_link s' (snd x)"
    "\<And>x. x \<in> set (links_of c s xs) \<Longrightarrow> link_delay c s asfn asn x = link_delay c s' asfn asn x"
    by (rule links_before_kept [OF keep sub xs a]; assumption)+
  have app: "active_links c s' = links_of c s xs @ links_of c s' (u # ys)"
    unfolding active_links_def k(2) list before(1) by (simp add: links_of_def)
  have "sorted_wrt (\<lambda>f g. \<not> (sk_ost c \<and> sf_handle (sc_sf s' f) = 2 \<and> sf_handle (sc_sf s' g) = 1)) (sc_list s)"
    using o unfolding ost_order_def by (rule sorted_wrt_mono_rel [rotated]) (simp add: k(3))
  then have "ost_sorted c s' (map snd (active_links c s'))"
    unfolding active_links_def k(2) by (rule links_ost_sorted [OF k(1)]) (simp add: k(2))
  then have sorted: "ost_sorted c s' (map snd (links_of c s xs @ links_of c s' (u # ys)))"
    and "ost_sorted c s' (map snd ([] @ links_of c s xs))"
    unfolding app ost_sorted_def by (simp_all add: sorted_wrt_append)
  then have "best_inv c s' asfn asn ([] @ links_of c s xs) ?r1"
    using before(2,3) by (intro best_fold_inv [OF best_inv_start]) auto
  then have "best_inv c s' asfn asn (links_of c s xs) ?r1" by simp
  from best_fold_inv [OF this sorted refl refl] have "best_inv c s' asfn asn (active_links c s') ?r" unfolding app .
  then show ?thesis using run keep by blast
qed

lemma select_spec_all:
  assumes wf: "sc_wf s" "\<not> sc_locked s" and o: "ost_order c s" and at: "\<And>t. alice_edits c t (atvs t)"
    and uc: "sk_alice c \<Longrightarrow> sk_alice_uc_handle c \<in> (\<lambda>f. sf_handle (sc_sf s f)) ` set (sc_list s)"
  obtains r s' where "tsch_schedule_get_next_active_link c atvs s asn = Some (r, s')" "alice_keeps c s s'"
    "\<not> sk_alice c \<Longrightarrow> s' = s" "best_inv c s' (alice_now c s) asn (active_links c s') r"
proof (cases "sk_alice c")
  case False
  then have "tsch_schedule_get_next_active_link c atvs s asn =
      Some (active_slotframes c atvs (alice_now c s) asn (sc_list s) s \<lparr>bl_time = 0, bl_best = None, bl_backup = None\<rparr>)"
    using wf(2) by (simp add: tsch_schedule_get_next_active_link_def tsch_is_locked_def alice_at_def Let_def)
  with select_plain [OF wf(1) o False, of atvs "alice_now c s" asn] show thesis
    using alice_keeps_refl [OF wf] that by auto
next
  case True
  from uc [OF True] obtain u where u: "u \<in> set (sc_list s)" "sf_handle (sc_sf s u) = sk_alice_uc_handle c" by auto
  then have "tsch_schedule_get_slotframe_by_handle s (sk_alice_uc_handle c) \<noteq> None"
    using wf(2) by (auto simp: tsch_schedule_get_slotframe_by_handle_def tsch_is_locked_def find_None_set)
  then have "tsch_schedule_get_next_active_link c atvs s asn =
      Some (active_slotframes c atvs (alice_now c s) asn (sc_list s) s \<lparr>bl_time = 0, bl_best = None, bl_backup = None\<rparr>)"
    using wf(2) True by (simp add: tsch_schedule_get_next_active_link_def tsch_is_locked_def alice_at_def Let_def)
  with select_alice [OF wf o True u at, of "alice_now c s" asn] show thesis using that True by auto
qed

lemma active_link_in:
  assumes "alice_keeps c s s'" "(f, l) \<in> set (active_links c s')"
  obtains v where "f \<in> set (sc_list s)" "v \<noteq> 0" "sf_size (sc_sf s' f) = tsch_asn_divisor_init v"
    "div_val (sf_size (sc_sf s f)) = v" "div_val (sf_size (sc_sf s' f)) = v" "sf_handle (sc_sf s f) = sf_handle (sc_sf s' f)"
    "lk_timeslot (sc_link s' l) < v"
proof -
  from assms have f: "f \<in> set (sc_list s)" "l \<in> set (sf_links (sc_sf s' f))" "sf_ok s' f"
    and same: "sf_size (sc_sf s' f) = sf_size (sc_sf s f)" "sf_handle (sc_sf s' f) = sf_handle (sc_sf s f)"
    by (auto simp: active_links_def links_of_def alice_keeps_def sc_wf_def)
  then obtain v where "v \<noteq> 0" "sf_size (sc_sf s' f) = tsch_asn_divisor_init v" "lk_timeslot (sc_link s' l) < v"
    by (auto simp: sf_ok_def)
  then show thesis using f(1) same by (intro that [of v]) (simp_all add: tsch_asn_divisor_init_def)
qed

lemma active_delay_meaning:
  fixes asn :: tsch_asn and asfn :: u64
  assumes keep: "alice_keeps c s s'" and l: "(f, l) \<in> set (active_links c s')"
    and big: "\<And>u. u \<in> set (sc_list s) \<Longrightarrow> alice_uc c s u \<Longrightarrow> 2 * unat (div_val (sf_size (sc_sf s u))) \<le> 65536"
  defines "d \<equiv> unat (link_delay c s' asfn asn (f, l))" and "n \<equiv> unat (div_val (sf_size (sc_sf s' f)))"
  shows "0 < d \<and> (asn_val asn + d) mod n = unat (lk_timeslot (sc_link s' l)) \<and>
    (if link_waits c s' asfn f then (asn_val asn + d) div n = asn_val asn div n + 1 else d \<le> n)"
proof -
  from active_link_in [OF keep l] obtain v where v: "f \<in> set (sc_list s)" "v \<noteq> 0"
    "sf_size (sc_sf s' f) = tsch_asn_divisor_init v" "div_val (sf_size (sc_sf s f)) = v" "div_val (sf_size (sc_sf s' f)) = v"
    "sf_handle (sc_sf s f) = sf_handle (sc_sf s' f)" "lk_timeslot (sc_link s' l) < v" .
  have "2 * unat v \<le> 65536" if "link_waits c s' asfn f"
    using big [OF v(1)] that v(4,6) by (simp add: link_waits_def)
  from delay_meaning [OF v(3,2,7) this, where asn = asn] show ?thesis unfolding d_def n_def v(5) by blast
qed

section \<open>The distance to the next slot in use\<close>

text \<open>
  The slots, as ASNs after the current one, in which a link is used. With ALICE the links of the unicast slotframe and of
  the one after it are each installed for one round of the slotframe, counted from the current one; none for a round
  that is over.
\<close>

definition installed_round :: "sched_conf \<Rightarrow> sched \<Rightarrow> u64 \<Rightarrow> int \<Rightarrow> nat option" where
  "installed_round c s asfn f =
     (if sf_handle (sc_sf s f) = sk_alice_uc_handle c
      then (if asfn = sc_alice_lastly_asfn s then Some 0 else if asfn = sc_alice_next_asfn s then None else Some 1)
      else (if asfn = sc_alice_lastly_asfn s then Some 1 else if asfn = sc_alice_next_asfn s then Some 0 else Some 2))"

definition alice_sf :: "sched_conf \<Rightarrow> sched \<Rightarrow> int \<Rightarrow> bool" where
  "alice_sf c s f \<longleftrightarrow> sk_alice c \<and>
     (sf_handle (sc_sf s f) = sk_alice_uc_handle c \<or> sf_handle (sc_sf s f) = sk_alice_after_handle c)"

definition link_slots :: "sched_conf \<Rightarrow> sched \<Rightarrow> u64 \<Rightarrow> nat \<Rightarrow> int \<times> int \<Rightarrow> nat set" where
  "link_slots c s asfn n = (\<lambda>(f, l). let m = unat (div_val (sf_size (sc_sf s f))) in
     {k. n < k \<and> k mod m = unat (lk_timeslot (sc_link s l)) \<and>
         (alice_sf c s f \<longrightarrow> (\<exists>j. installed_round c s asfn f = Some j \<and> k div m = n div m + j))})"

definition sc_links :: "sched \<Rightarrow> (int \<times> int) list" where
  "sc_links s = concat (map (\<lambda>f. map (Pair f) (sf_links (sc_sf s f))) (sc_list s))"

definition sched_slots :: "sched_conf \<Rightarrow> sched \<Rightarrow> u64 \<Rightarrow> nat \<Rightarrow> nat set" where
  "sched_slots c s asfn n = (\<Union>x \<in> set (sc_links s). link_slots c s asfn n x)"

lemma in_round:
  fixes n m t :: nat
  assumes "t < m"
  shows "{k. n < k \<and> k mod m = t \<and> k div m = n div m + j} =
    (if j = 0 \<and> \<not> n mod m < t then {} else {n + (j * m + t - n mod m)})"
proof -
  have a: "n mod m < m" using assms by simp
  note M = mod_of_distance [OF a assms]
  have only: "k = n + (j * m + t - n mod m)" if "k mod m = t" "k div m = n div m + j" "n < k" for k
  proof -
    have "k = (n div m + j) * m + t" "n = n div m * m + n mod m" using that by (metis div_mult_mod_eq)+
    then have "k = n div m * m + j * m + t" "n = n div m * m + n mod m" by (simp_all only: add_mult_distrib)
    then show ?thesis using that(3) by linarith
  qed
  let ?c = "n + (j * m + t - n mod m)"
  have c: "n < ?c \<and> ?c mod m = t \<and> ?c div m = n div m + j" if "j \<noteq> 0 \<or> n mod m < t"
  proof (cases "j = 0")
    case True
    then show ?thesis using M(1) that by simp
  next
    case False
    then have "m \<le> j * m" by simp
    then have "n < ?c" using a by linarith
    then show ?thesis using M(2) [of j] False by simp
  qed
  show ?thesis
  proof (cases "j = 0 \<and> \<not> n mod m < t")
    case True
    have "\<not> (n < k \<and> k mod m = t \<and> k div m = n div m + j)" for k using only [of k] True by auto
    then show ?thesis using True by simp
  next
    case False
    then show ?thesis unfolding if_not_P [OF False] using only c by blast
  qed
qed

lemma next_slot_least:
  fixes n m t :: nat
  assumes "t < m" "n < k" "k mod m = t"
  shows "n + (if n mod m < t then t - n mod m else m + t - n mod m) \<le> k"
proof -
  have k: "k = k div m * m + t" and n: "n = n div m * m + n mod m" using assms(3) by (metis div_mult_mod_eq)+
  have a: "n mod m < m" using assms(1) by simp
  have le: "n div m \<le> k div m" using assms(2) by (simp add: div_le_mono)
  show ?thesis
  proof (cases "n mod m < t")
    case True
    have "n div m * m \<le> k div m * m" using le by simp
    then show ?thesis unfolding if_P [OF True] using k n True by linarith
  next
    case False
    have "n div m \<noteq> k div m"
    proof
      assume "n div m = k div m"
      from k [folded this] n False assms(2) show False by linarith
    qed
    then have "(n div m + 1) * m \<le> k div m * m" using le by (intro mult_le_mono1) simp
    then have "n div m * m + m \<le> k div m * m" by (simp add: add_mult_distrib)
    then show ?thesis unfolding if_not_P [OF False] using k n False a by linarith
  qed
qed

lemma distance_in_round:
  assumes "alice_sf c s f"
  shows "slotframe_distance c s asfn ts (sc_sf s f) x = (case installed_round c s asfn f of None \<Rightarrow> None
    | Some j \<Rightarrow> if j = 0 \<and> \<not> ts < lk_timeslot x then None
        else Some (of_nat j * div_val (sf_size (sc_sf s f)) + lk_timeslot x - ts))"
  using assms
  by (auto simp: slotframe_distance_def installed_round_def alice_sf_def Let_def)

lemma round_value:
  fixes v ts t :: u16
  assumes "ts < v" "t < v" "j \<le> 2" "3 * unat v \<le> 65536" "j = 0 \<longrightarrow> ts < t"
  shows "unat (of_nat j * v + t - ts) = j * unat v + unat t - unat ts"
proof -
  have lt: "unat ts < unat v" "unat t < unat v" using assms(1,2) by (simp_all add: word_less_nat_alt)
  have "j = 0 \<or> j = 1 \<or> j = 2" using assms(3) by linarith
  then have small: "j * unat v + unat t < 65536" using assms(4) lt(2) by (elim disjE) simp_all
  have "unat (of_nat (j * unat v + unat t) :: u16) = j * unat v + unat t" using small by (rule unat_of_nat_u16)
  then have sum: "unat (of_nat j * v + t) = j * unat v + unat t" by simp
  have "unat ts \<le> j * unat v + unat t"
  proof (cases "j = 0")
    case True
    then show ?thesis using assms(5) by (simp add: word_less_nat_alt)
  next
    case False
    then have "unat v \<le> j * unat v" by simp
    then show ?thesis using lt by linarith
  qed
  then have "ts \<le> of_nat j * v + t" unfolding word_le_nat_alt sum .
  then show ?thesis by (subst unat_sub) (simp_all add: sum)
qed

text \<open>The distance of one link leads to the first of its slots, and there is no distance when it has none.\<close>

definition first_slot :: "nat set \<Rightarrow> nat \<Rightarrow> u16 option \<Rightarrow> bool" where
  "first_slot K n d \<longleftrightarrow> (case d of None \<Rightarrow> K = {}
     | Some t \<Rightarrow> 0 < unat t \<and> n + unat t \<in> K \<and> (\<forall>k \<in> K. n + unat t \<le> k))"

lemma distance_slots:
  assumes f: "sf_size (sc_sf s f) = tsch_asn_divisor_init v" "v \<noteq> 0" "lk_timeslot (sc_link s l) < v"
    and big: "alice_sf c s f \<Longrightarrow> 3 * unat v \<le> 65536"
  shows "first_slot (link_slots c s asfn (asn_val asn) (f, l)) (asn_val asn)
    (slotframe_distance c s asfn (of_nat (tsch_asn_mod asn (sf_size (sc_sf s f)))) (sc_sf s f) (sc_link s l))"
proof -
  let ?ts = "of_nat (tsch_asn_mod asn (sf_size (sc_sf s f))) :: u16" and ?x = "sc_link s l"
  let ?n = "asn_val asn" and ?t = "unat (lk_timeslot (sc_link s l))"
  note T = time_value(1-3) [OF f, of asn] time_value(4) [OF f]
  have a: "?n mod unat v < unat v" by (rule T(3))
  have v: "div_val (tsch_asn_divisor_init v) = v" by (simp add: tsch_asn_divisor_init_def)
  have ts: "?ts < lk_timeslot ?x \<longleftrightarrow> ?n mod unat v < ?t" "?ts < v" using T(2,3) by (simp_all add: word_less_nat_alt)
  show ?thesis
  proof (cases "alice_sf c s f")
    case False
    then have "slotframe_distance c s asfn ?ts (sc_sf s f) ?x = Some (link_time s asn (f, l))"
      by (auto simp: slotframe_distance_def link_time_def alice_sf_def Let_def)
    moreover have "link_slots c s asfn ?n (f, l) = {k. ?n < k \<and> k mod unat v = ?t}"
      using False by (simp add: link_slots_def f(1) v)
    moreover have "0 < unat (link_time s asn (f, l))" using T(1) a by (simp split: if_splits)
    moreover have "(?n + unat (link_time s asn (f, l))) mod unat v = ?t"
      using mod_of_distance(1) [OF a T(4)] mod_of_distance(2) [OF a T(4), of 1] T(1) by auto
    ultimately show ?thesis using next_slot_least [OF T(4), of ?n] T(1) by (auto simp: first_slot_def)
  next
    case True
    note d = distance_in_round [OF True, of asfn ?ts ?x, unfolded f(1) v ts(1) [unfolded f(1)]]
    show ?thesis
    proof (cases "installed_round c s asfn f")
      case None
      then show ?thesis unfolding f(1) d using True by (simp add: first_slot_def link_slots_def)
    next
      case (Some j)
      then have j: "j \<le> 2" by (auto simp: installed_round_def split: if_splits)
      have slots: "link_slots c s asfn ?n (f, l) = {k. ?n < k \<and> k mod unat v = ?t \<and> k div unat v = ?n div unat v + j}"
        using True Some by (simp add: link_slots_def f(1) v Let_def)
      show ?thesis
      proof (cases "j = 0 \<and> \<not> ?n mod unat v < ?t")
        case True
        then show ?thesis unfolding f(1) d slots in_round [OF T(4)] using Some by (simp add: first_slot_def)
      next
        case False
        have val: "unat (of_nat j * v + lk_timeslot ?x - ?ts) = j * unat v + ?t - ?n mod unat v"
          using False ts T(2) by (subst round_value [OF ts(2) f(3) j big [OF True]]) auto
        have "0 < j * unat v + ?t - ?n mod unat v"
        proof (cases "j = 0")
          case False
          then have "unat v \<le> j * unat v" by simp
          then show ?thesis using a by linarith
        qed (use False in simp)
        then show ?thesis
          unfolding f(1) d slots in_round [OF T(4)] if_not_P [OF False]
          using Some False val [unfolded f(1)] by (simp add: first_slot_def)
      qed
    qed
  qed
qed

text \<open>The least element, 0 for the empty set: 0 stands for no link so far.\<close>

definition least_or_0 :: "u16 set \<Rightarrow> u16 \<Rightarrow> bool" where
  "least_or_0 A t \<longleftrightarrow> (if A = {} then t = 0 else t \<in> A \<and> (\<forall>y \<in> A. t \<le> y))"

lemma least_or_0_insert:
  assumes "least_or_0 A m" "0 \<notin> A" "0 < t"
  shows "least_or_0 (insert t A) (if m = 0 \<or> t < m then t else m)"
proof (cases "A = {}")
  case True
  then show ?thesis using assms(1) by (simp add: least_or_0_def)
next
  case False
  then have m: "m \<in> A" "m \<noteq> 0" "\<And>y. y \<in> A \<Longrightarrow> m \<le> y" using assms(1,2) by (auto simp: least_or_0_def)
  show ?thesis
  proof (cases "t < m")
    case True
    then have "t \<le> y" if "y \<in> A" for y using m(3) [OF that] by order
    then show ?thesis using True by (simp add: least_or_0_def)
  next
    case False
    then have "(if m = 0 \<or> t < m then t else m) = m" using m(2) by simp
    then show ?thesis using m False by (simp only:) (simp add: least_or_0_def not_less)
  qed
qed

text \<open>The distances that a list of links has.\<close>

definition dists :: "('a \<Rightarrow> u16 option) \<Rightarrow> 'a list \<Rightarrow> u16 set" where
  "dists tt xs = {t. \<exists>x \<in> set xs. tt x = Some t}"

lemma dists_simps [simp]:
  "dists tt [] = {}"
  "dists tt (x # xs) = (case tt x of None \<Rightarrow> dists tt xs | Some t \<Rightarrow> insert t (dists tt xs))"
  "dists tt (xs @ ys) = dists tt xs \<union> dists tt ys"
  by (auto simp: dists_def split: option.splits)

lemma earliest_least:
  assumes "0 \<notin> dists tt xs" "least_or_0 A m" "0 \<notin> A" "1 \<notin> A"
  shows "(case earliest_loop tt xs m of
      Inl t \<Rightarrow> t = 1 \<and> 1 \<in> dists tt xs
    | Inr t \<Rightarrow> 1 \<notin> A \<union> dists tt xs \<and> least_or_0 (A \<union> dists tt xs) t)"
  using assms
proof (induction xs arbitrary: m A)
  case (Cons x xs)
  show ?case
  proof (cases "tt x")
    case None
    then show ?thesis using Cons.IH [of A m] Cons.prems by (cases "earliest_loop tt xs m") simp_all
  next
    case (Some t)
    have t: "0 < t" using Cons.prems(1) Some by (auto simp: word_neq_0_conv)
    let ?m = "if m = 0 \<or> t < m then t else m"
    show ?thesis
    proof (cases "t = 1")
      case True
      have "m = 0 \<or> 1 < m"
      proof (cases "A = {}")
        case False
        then have "m \<in> A" using Cons.prems(2) by (simp add: least_or_0_def)
        then have "m \<noteq> 0" "m \<noteq> 1" using Cons.prems(3,4) by auto
        then show ?thesis by (auto simp: word_less_nat_alt word_unat_eq_iff)
      qed (use Cons.prems(2) in \<open>simp add: least_or_0_def\<close>)
      then show ?thesis using True Some by simp
    next
      case False
      have "least_or_0 (insert t A) ?m" by (rule least_or_0_insert [OF Cons.prems(2,3) t])
      then have "(case earliest_loop tt xs ?m of
          Inl t \<Rightarrow> t = 1 \<and> 1 \<in> dists tt xs
        | Inr t' \<Rightarrow> 1 \<notin> insert t A \<union> dists tt xs \<and> least_or_0 (insert t A \<union> dists tt xs) t')"
        using Cons.prems t Some False by (intro Cons.IH) auto
      moreover have "earliest_loop tt (x # xs) m = earliest_loop tt xs ?m" using Some False by (simp add: Let_def)
      ultimately show ?thesis using Some False by (cases "earliest_loop tt xs ?m") simp_all
    qed
  qed
qed auto

definition link_distance :: "sched_conf \<Rightarrow> sched \<Rightarrow> u64 \<Rightarrow> tsch_asn \<Rightarrow> int \<times> int \<Rightarrow> u16 option" where
  "link_distance c s asfn asn = (\<lambda>(f, l).
     slotframe_distance c s asfn (of_nat (tsch_asn_mod asn (sf_size (sc_sf s f)))) (sc_sf s f) (sc_link s l))"

lemma available_least:
  assumes "0 \<notin> dists (link_distance c s asfn asn) (concat (map (\<lambda>f. map (Pair f) (sf_links (sc_sf s f))) fs))"
    and "least_or_0 A m" "0 \<notin> A" "1 \<notin> A"
  defines "D \<equiv> \<lambda>fs. dists (link_distance c s asfn asn) (concat (map (\<lambda>f. map (Pair f) (sf_links (sc_sf s f))) fs))"
  shows "(case available_loop c s asfn asn fs m of
      Inl t \<Rightarrow> t = 1 \<and> 1 \<in> D fs
    | Inr t \<Rightarrow> 1 \<notin> A \<union> D fs \<and> least_or_0 (A \<union> D fs) t)"
  using assms(1-4) unfolding D_def
proof (induction fs arbitrary: m A)
  case (Cons f fs)
  let ?tt = "slotframe_distance c s asfn (of_nat (tsch_asn_mod asn (sf_size (sc_sf s f)))) (sc_sf s f)"
  let ?xs = "map (sc_link s) (sf_links (sc_sf s f))"
  let ?B = "dists (link_distance c s asfn asn) (map (Pair f) (sf_links (sc_sf s f)))"
  let ?R = "dists (link_distance c s asfn asn) (concat (map (\<lambda>f. map (Pair f) (sf_links (sc_sf s f))) fs))"
  have B: "dists ?tt ?xs = ?B" by (auto simp: dists_def link_distance_def)
  have z: "0 \<notin> ?B" "0 \<notin> ?R" using Cons.prems(1) by simp_all
  note e = earliest_least [where xs = ?xs and tt = ?tt, unfolded B, OF z(1) Cons.prems(2-4)]
  have R: "dists (link_distance c s asfn asn) (concat (map (\<lambda>f. map (Pair f) (sf_links (sc_sf s f))) (f # fs))) = ?B \<union> ?R"
    by simp
  show ?case unfolding R
  proof (cases "earliest_loop ?tt ?xs m")
    case (Inl t)
    then show "case available_loop c s asfn asn (f # fs) m of Inl t \<Rightarrow> t = 1 \<and> 1 \<in> ?B \<union> ?R
        | Inr t \<Rightarrow> 1 \<notin> A \<union> (?B \<union> ?R) \<and> least_or_0 (A \<union> (?B \<union> ?R)) t"
      using e by simp
  next
    case (Inr m1)
    then have m1: "1 \<notin> A \<union> ?B" "0 \<notin> A \<union> ?B" "least_or_0 (A \<union> ?B) m1" using e z(1) Cons.prems(3) by auto
    have "case available_loop c s asfn asn fs m1 of Inl t \<Rightarrow> t = 1 \<and> 1 \<in> ?R
        | Inr t \<Rightarrow> 1 \<notin> (A \<union> ?B) \<union> ?R \<and> least_or_0 ((A \<union> ?B) \<union> ?R) t"
      by (rule Cons.IH [OF z(2) m1(3,2,1)])
    then show "case available_loop c s asfn asn (f # fs) m of Inl t \<Rightarrow> t = 1 \<and> 1 \<in> ?B \<union> ?R
        | Inr t \<Rightarrow> 1 \<notin> A \<union> (?B \<union> ?R) \<and> least_or_0 (A \<union> (?B \<union> ?R)) t"
      using Inr by (cases "available_loop c s asfn asn fs m1") (simp_all add: Un_assoc)
  qed
qed simp

lemma sched_distance_slots:
  assumes wf: "sc_wf s" and x: "x \<in> set (sc_links s)"
    and big: "\<And>f. f \<in> set (sc_list s) \<Longrightarrow> alice_sf c s f \<Longrightarrow> 3 * unat (div_val (sf_size (sc_sf s f))) \<le> 65536"
  shows "first_slot (link_slots c s asfn (asn_val asn) x) (asn_val asn) (link_distance c s asfn asn x)"
proof -
  obtain f l where x': "x = (f, l)" by fastforce
  then have f: "f \<in> set (sc_list s)" "l \<in> set (sf_links (sc_sf s f))" using x by (auto simp: sc_links_def)
  then obtain v where v: "v \<noteq> 0" "sf_size (sc_sf s f) = tsch_asn_divisor_init v" "lk_timeslot (sc_link s l) < v"
    using wf by (auto simp: sc_wf_def sf_ok_def)
  have "3 * unat v \<le> 65536" if "alice_sf c s f"
    using big [OF f(1) that] v(2) by (simp add: tsch_asn_divisor_init_def)
  from distance_slots [OF v(2,1,3) this] show ?thesis by (simp add: x' link_distance_def)
qed

text \<open>The distances of the links and the slots of the schedule.\<close>

lemma dists_slots:
  fixes dist :: "'a \<Rightarrow> u16 option"
  assumes fs: "\<And>x. x \<in> set xs \<Longrightarrow> first_slot (K x) n (dist x)"
  shows "0 \<notin> dists dist xs" "1 \<in> dists dist xs \<longleftrightarrow> n + 1 \<in> (\<Union>x \<in> set xs. K x)"
    "least_or_0 (dists dist xs) t \<Longrightarrow> if (\<Union>x \<in> set xs. K x) = {} then t = 0
       else n + unat t \<in> (\<Union>x \<in> set xs. K x) \<and> (\<forall>k \<in> (\<Union>x \<in> set xs. K x). n + unat t \<le> k)"
proof -
  have first: "\<exists>d. dist x = Some d \<and> 0 < unat d \<and> n + unat d \<le> k" if "x \<in> set xs" "k \<in> K x" for x k
    using fs [OF that(1)] that(2) by (auto simp: first_slot_def split: option.splits)
  have hit: "0 < unat d \<and> (\<exists>x \<in> set xs. n + unat d \<in> K x)" if "d \<in> dists dist xs" for d
    using that fs by (fastforce simp: dists_def first_slot_def)
  show "0 \<notin> dists dist xs" using hit [of 0] by auto
  show "1 \<in> dists dist xs \<longleftrightarrow> n + 1 \<in> (\<Union>x \<in> set xs. K x)"
  proof
    assume "n + 1 \<in> (\<Union>x \<in> set xs. K x)"
    then obtain x where x: "x \<in> set xs" "n + 1 \<in> K x" by blast
    from first [OF x] obtain d where "dist x = Some d" "0 < unat d" "unat d \<le> 1" by auto
    moreover from this have "d = 1" by (simp add: word_unat_eq_iff)
    ultimately show "1 \<in> dists dist xs" using x(1) by (auto simp: dists_def)
  qed (use hit [of 1] in auto)
  assume t: "least_or_0 (dists dist xs) t"
  show "if (\<Union>x \<in> set xs. K x) = {} then t = 0
     else n + unat t \<in> (\<Union>x \<in> set xs. K x) \<and> (\<forall>k \<in> (\<Union>x \<in> set xs. K x). n + unat t \<le> k)"
  proof (cases "(\<Union>x \<in> set xs. K x) = {}")
    case True
    then have "dists dist xs = {}" using hit by blast
    then show ?thesis using True t by (simp add: least_or_0_def)
  next
    case False
    then have ne: "dists dist xs \<noteq> {}" using first by (fastforce simp: dists_def)
    have "n + unat t \<le> k" if x: "x \<in> set xs" "k \<in> K x" for x k
    proof -
      obtain d where d: "dist x = Some d" "n + unat d \<le> k" using first [OF x] by blast
      then have "d \<in> dists dist xs" using x(1) by (auto simp: dists_def)
      then have "t \<le> d" using t ne by (simp add: least_or_0_def)
      then show ?thesis using d(2) by (simp add: word_le_nat_alt)
    qed
    then show ?thesis using False hit [of t] t ne by (auto simp: least_or_0_def)
  qed
qed

lemma available_spec:
  fixes asn :: tsch_asn and asfn :: u64
  assumes wf: "sc_wf s"
    and big: "\<And>f. f \<in> set (sc_list s) \<Longrightarrow> alice_sf c s f \<Longrightarrow> 3 * unat (div_val (sf_size (sc_sf s f))) \<le> 65536"
  defines "U \<equiv> sched_slots c s asfn (asn_val asn)" and "r \<equiv> available_loop c s asfn asn (sc_list s) 0"
  shows "(\<exists>t. r = Inr t) \<longleftrightarrow> asn_val asn + 1 \<notin> U"
    and "r = Inl t \<or> r = Inr t \<Longrightarrow> if U = {} then t = 0
      else asn_val asn + unat t \<in> U \<and> (\<forall>k \<in> U. asn_val asn + unat t \<le> k)"
proof -
  let ?D = "dists (link_distance c s asfn asn) (sc_links s)"
  note D = dists_slots [where dist = "link_distance c s asfn asn" and xs = "sc_links s" and n = "asn_val asn"
    and K = "link_slots c s asfn (asn_val asn)", OF sched_distance_slots [OF wf _ big], folded sched_slots_def U_def]
  have z: "0 \<notin> ?D" by (rule D(1))
  have e: "least_or_0 {} 0" by (simp add: least_or_0_def)
  have r: "case r of Inl t \<Rightarrow> t = 1 \<and> 1 \<in> ?D | Inr t \<Rightarrow> 1 \<notin> ?D \<and> least_or_0 ?D t"
    using available_least [OF z [unfolded sc_links_def] e] unfolding r_def sc_links_def
    by (simp only: Un_empty_left) simp
  have one: "least_or_0 ?D 1" if "1 \<in> ?D"
  proof -
    have "1 \<le> t" if "t \<in> ?D" for t
    proof -
      have "t \<noteq> 0" using that z by auto
      then have "unat t \<noteq> 0" by (simp add: word_unat_eq_iff)
      then show ?thesis by (simp add: word_le_nat_alt)
    qed
    then show ?thesis using that by (auto simp: least_or_0_def)
  qed
  show "(\<exists>t. r = Inr t) \<longleftrightarrow> asn_val asn + 1 \<notin> U" using r D(2) by (cases r) auto
  show "if U = {} then t = 0 else asn_val asn + unat t \<in> U \<and> (\<forall>k \<in> U. asn_val asn + unat t \<le> k)"
    if "r = Inl t \<or> r = Inr t"
    using that r one by (intro D(3)) auto
qed

section \<open>Properties\<close>

text \<open>The example with the second slotframe as the unicast slotframe of ALICE, and a rescheduling that adds a link to it.\<close>

definition conf_alice :: sched_conf where
  "conf_alice = conf_plain\<lparr>sk_alice := True, sk_alice_uc_handle := 1\<rparr>"

definition atvs_demo :: "sched \<Rightarrow> sched" where
  "atvs_demo t = (case find (\<lambda>f. sf_handle (sc_sf t f) = 1) (sc_list t) of
      None \<Rightarrow> t
    | Some f \<Rightarrow> snd (alice_tsch_schedule_add_link None t (Some f) LINK_OPTION_TX LINK_TYPE_NORMAL (Some [9, 9]) 0 3))"

lemma atvs_demo_edits: "alice_edits conf_alice t (atvs_demo t)"
proof (cases "find (\<lambda>f. sf_handle (sc_sf t f) = 1) (sc_list t)")
  case None
  then show ?thesis by (simp add: atvs_demo_def alice_edits.unchanged)
next
  case (Some f)
  then have f: "f \<in> set (sc_list t)" "sf_handle (sc_sf t f) = 1" by (auto dest: find_Some_set)
  obtain r t' where r: "alice_tsch_schedule_add_link None t (Some f) LINK_OPTION_TX LINK_TYPE_NORMAL (Some [9, 9]) 0 3 = (r, t')"
    by fastforce
  have "alice_edited conf_alice t f" using f(2) by (simp add: alice_edited_def conf_alice_def)
  from alice_edits.add [OF alice_edits.unchanged f(1) this r] show ?thesis by (simp add: atvs_demo_def Some r)
qed

lemma sched_demo_lists: "sc_list sched_demo = [0, 1]" "sf_links (sc_sf sched_demo 0) = [0]"
  "sf_links (sc_sf sched_demo 1) = [1]" "sf_handle (sc_sf sched_demo 0) = 0" "sf_handle (sc_sf sched_demo 1) = 1"
  "sf_size (sc_sf sched_demo f) = tsch_asn_divisor_init 1" "div_val (tsch_asn_divisor_init 1) = 1"
  by (simp_all add: sched_demo_def tsch_asn_divisor_init_def)

text \<open>
  (C27) The next active link, for every scheduler. No link that is gone through occurs earlier than the chosen one; among
  those of its slot it is a Tx link if there is one, and has the lowest slotframe handle among those with the same Tx
  option, where OST puts its transmissions of slotframe 2 before those of slotframe 1. The backup has the Rx option and
  lies in the same slot, and there is one whenever another link of the slot has the Rx option. There is no link only when
  there is none to go through (all of the schedule, but with bursts ALICE's slotframe for the links after the next).
  Time offsets are right: the timeslot of a link comes up after its offset, within the length of its
  slotframe, but for the unicast links that ALICE has installed for another slotframe than the current one, whose
  slot lies in the following one. These are read in the state the function leaves, in which ALICE may have exchanged its
  unicast links; every other link and slotframe is as before.
\<close>

theorem next_active_link_is_best:
  assumes "sc_wf s" "\<not> sc_locked s" "ost_order c s" "\<forall>t. alice_edits c t (atvs t)"
    and "sk_alice c \<longrightarrow> (\<exists>u \<in> set (sc_list s). sf_handle (sc_sf s u) = sk_alice_uc_handle c \<and>
      2 * unat (div_val (sf_size (sc_sf s u))) \<le> 65536)"
  shows "\<exists>r s'. tsch_schedule_get_next_active_link c atvs s asn = Some (r, s') \<and>
    alice_keeps c s s' \<and> (\<not> sk_alice c \<longrightarrow> s' = s) \<and>
    (let delay = link_delay c s' (alice_now c s) asn; xs = active_links c s' in
     (case bl_best r of
        None \<Rightarrow> xs = []
      | Some b \<Rightarrow> best_of c s' (set (in_slot c s' (alice_now c s) asn xs (bl_time r))) b \<and>
          backup_of s' (set (in_slot c s' (alice_now c s) asn xs (bl_time r))) b (bl_backup r) \<and>
          (\<forall>x \<in> set xs. bl_time r \<le> delay x)) \<and>
     (\<forall>(f, l) \<in> set xs. let d = unat (delay (f, l)); n = unat (div_val (sf_size (sc_sf s' f))) in
        0 < d \<and> (asn_val asn + d) mod n = unat (lk_timeslot (sc_link s' l)) \<and>
        (if link_waits c s' (alice_now c s) f then (asn_val asn + d) div n = asn_val asn div n + 1 else d \<le> n)))"
proof -
  have at: "alice_edits c t (atvs t)" for t using assms(4) by blast
  have uc: "sk_alice_uc_handle c \<in> (\<lambda>f. sf_handle (sc_sf s f)) ` set (sc_list s)" if "sk_alice c"
    using assms(5) that by (metis imageI)
  from select_spec_all [OF assms(1-3) at uc, of asn] obtain r s' where
    r: "tsch_schedule_get_next_active_link c atvs s asn = Some (r, s')" "alice_keeps c s s'" "\<not> sk_alice c \<longrightarrow> s' = s"
    "best_inv c s' (alice_now c s) asn (active_links c s') r" by blast
  have big: "2 * unat (div_val (sf_size (sc_sf s u))) \<le> 65536" if "u \<in> set (sc_list s)" "alice_uc c s u" for u
    using assms(1,5) that unfolding sc_wf_def by metis
  note m = active_delay_meaning [OF r(2) _ big, of _ _ "alice_now c s" asn]
  have "case bl_best r of None \<Rightarrow> active_links c s' = []
    | Some b \<Rightarrow> best_of c s' (set (in_slot c s' (alice_now c s) asn (active_links c s') (bl_time r))) b \<and>
        backup_of s' (set (in_slot c s' (alice_now c s) asn (active_links c s') (bl_time r))) b (bl_backup r) \<and>
        (\<forall>x \<in> set (active_links c s'). bl_time r \<le> link_delay c s' (alice_now c s) asn x)"
    using r(4) by (simp add: best_inv_def slot_choice_def split: option.splits)
  with r(1-3) m show ?thesis unfolding Let_def by (intro exI [of _ r] exI [of _ s']) blast
qed

theorem next_active_link_is_best_witness:
  "\<exists>r s'. tsch_schedule_get_next_active_link conf_alice atvs_demo sched_demo (tsch_asn_init 0 5) = Some (r, s') \<and>
     bl_best r \<noteq> None"
proof -
  have "sk_alice conf_alice \<longrightarrow> (\<exists>u \<in> set (sc_list sched_demo). sf_handle (sc_sf sched_demo u) = sk_alice_uc_handle conf_alice \<and>
      2 * unat (div_val (sf_size (sc_sf sched_demo u))) \<le> 65536)"
    by (simp add: sched_demo_lists conf_alice_def)
  moreover have "ost_order conf_alice sched_demo" by (simp add: ost_order_def conf_alice_def conf_plain_def)
  ultimately obtain r s' where r: "tsch_schedule_get_next_active_link conf_alice atvs_demo sched_demo (tsch_asn_init 0 5) = Some (r, s')"
    "alice_keeps conf_alice sched_demo s'" "bl_best r = None \<longrightarrow> active_links conf_alice s' = []"
    using next_active_link_is_best [OF sched_demo_wf, of conf_alice atvs_demo "tsch_asn_init 0 5"] atvs_demo_edits
    by (auto simp: Let_def split: option.splits)
  have "(0, 0) \<in> set (active_links conf_alice s')"
    using r(2) by (simp add: active_links_def links_of_def alice_keeps_def sched_demo_lists sf_skipped_def alice_edited_def
        conf_alice_def conf_plain_def)
  then show ?thesis using r by auto
qed

text \<open>
  (C33) The backup, in the variant of the code that is compiled (\<^verbatim>\<open>HCK_APPLY_LATEST_CONTIKI\<close>) and for a slot whose
  links are of different slotframes: it is the link with the lowest slotframe handle among the Rx links of the slot, and
  these include the chosen link itself unless that is the last one visited. So the backup is the chosen link itself,
  and the slot operation has no other link to fall back to, exactly when the chosen link has the Rx option, is not
  the last one, and every other Rx link of the slot has a higher handle.
\<close>

theorem backup_is_lowest_rx_link:
  assumes "sc_wf s" "\<not> sc_locked s" "ost_order c s" "\<forall>t. alice_edits c t (atvs t)"
    and "sk_alice c \<longrightarrow> sk_alice_uc_handle c \<in> (\<lambda>f. sf_handle (sc_sf s f)) ` set (sc_list s)" "sk_latest c"
    and "tsch_schedule_get_next_active_link c atvs s asn = Some (r, s')" "bl_best r = Some b"
    and "ls = in_slot c s' (alice_now c s) asn (active_links c s') (bl_time r)" "distinct (map (lk_sf s') ls)"
  shows "lowest s' {l \<in> set ls. lk_rx s' l \<and> (l \<noteq> b \<or> l \<noteq> last ls)} (bl_backup r) \<and>
    (bl_backup r = Some b \<longleftrightarrow> lk_rx s' b \<and> b \<noteq> last ls \<and>
      (\<forall>l \<in> set ls. l \<noteq> b \<and> lk_rx s' l \<longrightarrow> lk_sf s' b < lk_sf s' l))"
proof -
  have at: "alice_edits c t (atvs t)" for t using assms(4) by blast
  from select_spec_all [OF assms(1-3) at, of asn] assms(5,7)
  have "best_inv c s' (alice_now c s) asn (active_links c s') r" by auto
  then have ch: "slot_choice c s' ls b (bl_backup r)" using assms(8,9) by (simp add: best_inv_def)
  then have low: "lowest s' (backup_candidates s' ls b) (bl_backup r)" and b: "b \<in> set ls"
    using assms(6,10) by (simp_all add: slot_choice_def best_of_def)
  have inj: "lk_sf s' l \<noteq> lk_sf s' b" if "l \<in> set ls" "l \<noteq> b" for l
    using assms(10) that b by (auto simp: distinct_map inj_on_def)
  have "bl_backup r = Some b \<longleftrightarrow> lk_rx s' b \<and> b \<noteq> last ls \<and> (\<forall>l \<in> set ls. l \<noteq> b \<and> lk_rx s' l \<longrightarrow> lk_sf s' b < lk_sf s' l)"
  proof
    assume "bl_backup r = Some b"
    then have c: "b \<in> backup_candidates s' ls b" "\<And>l. l \<in> backup_candidates s' ls b \<Longrightarrow> lk_sf s' b \<le> lk_sf s' l"
      using low by (simp_all add: lowest_def)
    have "lk_sf s' b < lk_sf s' l" if "l \<in> set ls" "l \<noteq> b" "lk_rx s' l" for l
      using c(2) [of l] inj [of l] that by (simp add: backup_candidates_def order.strict_iff_order)
    then show "lk_rx s' b \<and> b \<noteq> last ls \<and> (\<forall>l \<in> set ls. l \<noteq> b \<and> lk_rx s' l \<longrightarrow> lk_sf s' b < lk_sf s' l)"
      using c(1) by (auto simp: backup_candidates_def)
  next
    assume *: "lk_rx s' b \<and> b \<noteq> last ls \<and> (\<forall>l \<in> set ls. l \<noteq> b \<and> lk_rx s' l \<longrightarrow> lk_sf s' b < lk_sf s' l)"
    then have "b \<in> backup_candidates s' ls b" using b by (simp add: backup_candidates_def)
    then obtain j where j: "bl_backup r = Some j" "j \<in> backup_candidates s' ls b" "lk_sf s' j \<le> lk_sf s' b"
      using low by (cases "bl_backup r") (auto simp: lowest_def)
    then have "j = b" using * by (auto simp: backup_candidates_def)
    then show "bl_backup r = Some b" using j(1) by simp
  qed
  then show ?thesis using low by (simp add: backup_candidates_def)
qed

lemma sched_demo_choice:
  "tsch_schedule_get_next_active_link conf_plain id sched_demo (tsch_asn_init 0 5) =
     Some (\<lparr>bl_time = 1, bl_best = Some 0, bl_backup = Some 0\<rparr>, sched_demo)"
  "in_slot conf_plain sched_demo (alice_now conf_plain sched_demo) (tsch_asn_init 0 5) (active_links conf_plain sched_demo) 1 = [0, 1]"
proof -
  have l0: "sc_link sched_demo 0 = link_of 0 0 7" and l1: "sc_link sched_demo 1 = link_of 1 0 2"
    by (simp_all add: sched_demo_def)
  have t: "time_to_timeslot 0 (of_nat (tsch_asn_mod (tsch_asn_init 0 5) (tsch_asn_divisor_init 1)))
      (div_val (tsch_asn_divisor_init 1)) = 1"
    by (simp add: time_to_timeslot_def asn_mod_val sched_demo_lists)
  have opts: "(7 :: u8) AND 1 \<noteq> 0" "(2 :: u8) AND 1 = 0" "(7 :: u8) AND 2 \<noteq> 0" "(2 :: u8) AND 2 \<noteq> 0" by simp_all
  have nb: "better_link conf_plain sched_demo 0 1 = None"
    by (simp add: better_link_def l0 l1 link_of_def LINK_OPTION_TX_def opts conf_plain_def)
  have bk: "backup_link_after conf_plain sched_demo 0 1 None None = Some 0"
    by (simp add: backup_link_after_def l0 l1 link_of_def LINK_OPTION_RX_def opts conf_plain_def)
  have c: "sk_alice conf_plain = False" by (simp add: conf_plain_def)
  show "tsch_schedule_get_next_active_link conf_plain id sched_demo (tsch_asn_init 0 5) =
     Some (\<lparr>bl_time = 1, bl_best = Some 0, bl_backup = Some 0\<rparr>, sched_demo)"
    using sched_demo_wf(2)
    by (simp add: tsch_schedule_get_next_active_link_def tsch_is_locked_def sched_demo_lists(1-6) active_link_step_def nb bk
        l0 l1 link_of_def t c Let_def)
  show "in_slot conf_plain sched_demo (alice_now conf_plain sched_demo) (tsch_asn_init 0 5) (active_links conf_plain sched_demo) 1 = [0, 1]"
    by (simp add: in_slot_def active_links_def links_of_def sf_skipped_def c sched_demo_lists(1-6) link_delay_def link_waits_def
        link_time_def l0 l1 link_of_def t)
qed

theorem backup_is_lowest_rx_link_witness:
  "tsch_schedule_get_next_active_link conf_plain id sched_demo (tsch_asn_init 0 5) =
     Some (\<lparr>bl_time = 1, bl_best = Some 0, bl_backup = Some 0\<rparr>, sched_demo) \<and>
   lk_rx sched_demo 0 \<and> lk_rx sched_demo 1 \<and> lk_sf sched_demo 0 < lk_sf sched_demo 1"
proof -
  have "ost_order conf_plain sched_demo" "\<forall>t. alice_edits conf_plain t (id t)" "\<not> sk_alice conf_plain" "sk_latest conf_plain"
    by (simp_all add: ost_order_def conf_plain_def alice_edits.unchanged)
  moreover have sf: "lk_sf sched_demo 0 = 0" "lk_sf sched_demo 1 = 1" "lk_rx sched_demo 1"
    by (simp_all add: sched_demo_def link_of_def LINK_OPTION_RX_def)
  ultimately show ?thesis
    using backup_is_lowest_rx_link [OF sched_demo_wf, of conf_plain id, OF _ _ _ _ sched_demo_choice(1), of 0 "[0, 1]"]
      sched_demo_choice by simp
qed

text \<open>
  (C30) The distance to the next slot in use: the function reports the number of slots to the first slot after the current
  one in which a link is used (0 when there is none), and that the next slot is free exactly when no link is
  used in it. A link is used whenever its timeslot comes up, but with ALICE those of the unicast slotframe and of the
  slotframe after it only in the round they are installed for.
\<close>

theorem next_timeslot_available_exact:
  assumes "sc_wf s" "\<not> sc_locked s"
    and "sk_alice c \<longrightarrow> sk_alice_uc_handle c \<in> (\<lambda>f. sf_handle (sc_sf s f)) ` set (sc_list s)"
    and "\<forall>f \<in> set (sc_list s). alice_sf c s f \<longrightarrow> 3 * unat (div_val (sf_size (sc_sf s f))) \<le> 65536"
  shows "\<exists>free t. tsch_schedule_get_next_timeslot_available_or_not c s asn = Some (free, t) \<and>
    (let U = sched_slots c s (alice_at c s asn) (asn_val asn) in
     (free = 1 \<longleftrightarrow> asn_val asn + 1 \<notin> U) \<and>
     (if U = {} then t = 0 else asn_val asn + unat t \<in> U \<and> (\<forall>k \<in> U. asn_val asn + unat t \<le> k)))"
proof -
  let ?a = "available_loop c s (alice_at c s asn) asn (sc_list s) 0"
  have "tsch_schedule_get_slotframe_by_handle s (sk_alice_uc_handle c) \<noteq> None" if "sk_alice c"
    using assms(2,3) that by (auto simp: tsch_schedule_get_slotframe_by_handle_def tsch_is_locked_def find_None_set)
  then have run: "tsch_schedule_get_next_timeslot_available_or_not c s asn =
      (case ?a of Inl t \<Rightarrow> Some (0, t) | Inr t \<Rightarrow> Some (1, t))"
    using assms(2)
    by (auto simp: tsch_schedule_get_next_timeslot_available_or_not_def tsch_is_locked_def alice_at_def Let_def)
  note a = available_spec [OF assms(1), where c = c and asn = asn and asfn = "alice_at c s asn"]
  have big: "3 * unat (div_val (sf_size (sc_sf s f))) \<le> 65536" if "f \<in> set (sc_list s)" "alice_sf c s f" for f
    using assms(4) that by blast
  show ?thesis
  proof (cases ?a)
    case (Inl t)
    then show ?thesis using a(1) [OF big] a(2) [OF big, of t] unfolding Let_def
      by (intro exI [of _ 0] exI [of _ t]) (simp add: run)
  next
    case (Inr t)
    then show ?thesis using a(1) [OF big] a(2) [OF big, of t] unfolding Let_def
      by (intro exI [of _ 1] exI [of _ t]) (simp add: run)
  qed
qed

theorem next_timeslot_available_exact_witness:
  "\<exists>free t. tsch_schedule_get_next_timeslot_available_or_not conf_alice sched_demo (tsch_asn_init 0 5) = Some (free, t) \<and> t \<noteq> 0"
proof -
  let ?n = "asn_val (tsch_asn_init 0 5)"
  let ?U = "sched_slots conf_alice sched_demo (alice_at conf_alice sched_demo (tsch_asn_init 0 5)) ?n"
  have "(0, 0) \<in> set (sc_links sched_demo)" by (simp add: sc_links_def sched_demo_lists)
  moreover have "lk_timeslot (sc_link sched_demo 0) = 0" by (simp add: sched_demo_def link_of_def)
  then have "?n + 1 \<in> link_slots conf_alice sched_demo (alice_at conf_alice sched_demo (tsch_asn_init 0 5)) ?n (0, 0)"
    by (simp add: link_slots_def alice_sf_def sched_demo_lists conf_alice_def conf_plain_def)
  ultimately have U: "?n + 1 \<in> ?U" unfolding sched_slots_def by blast
  have "?n \<notin> ?U" by (auto simp: sched_slots_def link_slots_def Let_def)
  moreover have "sk_alice conf_alice \<longrightarrow> sk_alice_uc_handle conf_alice \<in> (\<lambda>f. sf_handle (sc_sf sched_demo f)) ` set (sc_list sched_demo)"
    "\<forall>f \<in> set (sc_list sched_demo). alice_sf conf_alice sched_demo f \<longrightarrow> 3 * unat (div_val (sf_size (sc_sf sched_demo f))) \<le> 65536"
    by (simp_all add: sched_demo_lists conf_alice_def)
  ultimately show ?thesis
    using next_timeslot_available_exact [OF sched_demo_wf, of conf_alice "tsch_asn_init 0 5"] U
    by (auto simp: Let_def split: if_splits)
qed

end
