(* ===== verification/Asap_Upa.thy ===== *)
theory Asap_Upa
  imports Asap_Sla Tsch_Queue_Correct
begin

text \<open>
  Utility-based packet aggregation (\<^verbatim>\<open>WITH_UPA\<close> in \<^verbatim>\<open>tsch-slot-operation.c\<close>). A sender with more than one
  packet for a neighbor announces in the first one how many it could send in a batch and, as a
  bitmap, after which of them the exchange takes one slot more. The receiver chooses how many it
  takes. The batch is acknowledged by one bitmap, and the sender then takes the packets that are done
  out of the middle of the neighbor's ring.

  The radio and the clock are inputs: what the receiver hears is a list of events, the length of a queuebuf and
  the conversion to rtimer ticks are arguments. Logging and the statistics are left out, as is the
  evaluation build \<^verbatim>\<open>HCK_ASAP_EVAL_02_UPA_SINGLE_HOP\<close>.
\<close>

section \<open>Timing\<close>

datatype upa_elem = Upa_tx_offset_1 | Upa_rx_offset_1 | Upa_tx_offset_2 | Upa_rx_offset_2 | Upa_rx_ack_delay
  | Upa_tx_ack_delay | Upa_rx_wait | Upa_ack_wait | Upa_max_ack | Upa_max_tx | Upa_tx_process_b_ack

fun upa_timeslot_timing_us_10000 :: "bool \<Rightarrow> upa_elem \<Rightarrow> u16" where
  "upa_timeslot_timing_us_10000 ost Upa_tx_offset_1 = 1250"
| "upa_timeslot_timing_us_10000 ost Upa_rx_offset_1 = 1250 - 300 div 2"
| "upa_timeslot_timing_us_10000 ost Upa_tx_offset_2 = 1000"
| "upa_timeslot_timing_us_10000 ost Upa_rx_offset_2 = 1000 - 300 div 2"
| "upa_timeslot_timing_us_10000 ost Upa_rx_ack_delay = 1050"
| "upa_timeslot_timing_us_10000 ost Upa_tx_ack_delay = 1250"
| "upa_timeslot_timing_us_10000 ost Upa_rx_wait = 300"
| "upa_timeslot_timing_us_10000 ost Upa_ack_wait = 400"
| "upa_timeslot_timing_us_10000 ost Upa_max_ack = (if ost then 900 else 810)"
| "upa_timeslot_timing_us_10000 ost Upa_max_tx = 4256"
| "upa_timeslot_timing_us_10000 ost Upa_tx_process_b_ack = 360"

text \<open>
  The timing in ticks, \<^verbatim>\<open>US_TO_RTIMERTICKS\<close>, and the length of the data in a queuebuf. The air time of a byte
  is 32 microseconds.
\<close>

record upa_env =
  ue_timing :: "ts_elem \<Rightarrow> u32"
  ue_upa :: "upa_elem \<Rightarrow> u32"
  ue_ticks :: "int \<Rightarrow> u32"
  ue_datalen :: "nat \<Rightarrow> int"

definition TSCH_PACKET_DURATION :: "upa_env \<Rightarrow> int \<Rightarrow> u32" where
  "TSCH_PACKET_DURATION e len = ue_ticks e (32 * (len + RADIO_PHY_OVERHEAD))"

text \<open>A duration in whole slots, rounded up.\<close>

definition upa_timeslots :: "upa_env \<Rightarrow> u32 \<Rightarrow> int" where
  "upa_timeslots e duration =
     sint ((duration + ue_timing e Ts_timeslot_length - 1) div ue_timing e Ts_timeslot_length)"

section \<open>The sender: what to ask for\<close>

definition upa_triggering_duration :: "upa_env \<Rightarrow> int \<Rightarrow> u32" where
  "upa_triggering_duration e triggering_pkt_len =
     ue_timing e Ts_tx_offset + TSCH_PACKET_DURATION e triggering_pkt_len +
     ue_timing e Ts_tx_ack_delay + TSCH_PACKET_DURATION e 21"

text \<open>One round of the loop: the bitmap, the slots and the duration of the batch so far.\<close>

definition upa_utility_step :: "upa_env \<Rightarrow> u32 \<Rightarrow> nat \<Rightarrow> int \<Rightarrow> u8 \<times> int \<times> u32 \<Rightarrow> u8 \<times> int \<times> u32" where
  "upa_utility_step e trig i len acc =
     (case acc of (bitmap, all_slots, tx) \<Rightarrow>
        let tx1 = tx + (ue_upa e (if i = 1 then Upa_tx_offset_1 else Upa_tx_offset_2) + TSCH_PACKET_DURATION e len);
            all_tx = tx1 + ue_upa e Upa_tx_ack_delay + ue_upa e Upa_max_ack + ue_upa e Upa_tx_process_b_ack;
            expected = upa_timeslots e (trig + all_tx)
        in if expected > all_slots then (bitmap OR push_bit i 1, expected, tx1) else (bitmap, all_slots, tx1))"

text \<open>\<open>None\<close>: the packet is read through a null pointer.\<close>

fun upa_utility_loop :: "upa_env \<Rightarrow> tsch_q \<Rightarrow> nat \<Rightarrow> u32 \<Rightarrow> nat list \<Rightarrow> u8 \<times> int \<times> u32 \<Rightarrow> (u8 \<times> int \<times> u32) option" where
  "upa_utility_loop e q n trig [] acc = Some acc"
| "upa_utility_loop e q n trig (i # is) acc =
     (case tsch_queue_upa_get_next_packet_for_nbr q (Some n) (of_nat i) of
        None \<Rightarrow> None
      | Some p \<Rightarrow> upa_utility_loop e q n trig is
          (upa_utility_step e trig i (ue_datalen e (tp_qb (tq_pkt q p))) acc))"

text \<open>The bitmap and the number of slots the exchange is expected to take after the first.\<close>

definition upa_calculate_slot_utility ::
  "upa_env \<Rightarrow> tsch_q \<Rightarrow> nat \<Rightarrow> int \<Rightarrow> nat \<Rightarrow> (u8 \<times> u8) option" where
  "upa_calculate_slot_utility e q n triggering_pkt num_of_pkts_to_request =
     (let trig = upa_triggering_duration e (ue_datalen e (tp_qb (tq_pkt q triggering_pkt)));
          all_slots = upa_timeslots e trig;
          bitmap = (if all_slots > 1 then push_bit 0 1 else 0)
      in map_option (\<lambda>(b, a, _). (b, word_of_int (a - 1)))
           (upa_utility_loop e q n trig [1..<Suc num_of_pkts_to_request] (bitmap, all_slots, 0)))"

record upa_conf =
  uf_dequeued_size :: int
  uf_max_incoming :: int
  uf_queuebuf_num :: int
  uf_policy :: nat

definition upa_pkts_to_request :: "upa_conf \<Rightarrow> tsch_q \<Rightarrow> nat \<Rightarrow> ringbufindex \<Rightarrow> int" where
  "upa_pkts_to_request c q n dequeued =
     (if \<not> tn_is_broadcast (tq_nbr q n) \<and> tsch_queue_nbr_packet_count q (Some n) > 1 then
        let pending = tsch_queue_nbr_packet_count q (Some n) - 1;
            space = (let d = uf_dequeued_size c - 1 - (ringbufindex_elements dequeued + 1) in if d > 0 then d else 0)
        in min (min pending space) (uf_max_incoming c - 1 - 1)
      else 0)"

text \<open>The 16 bits in the header of the frame; nothing is asked for when there is nothing to send.\<close>

definition upa_request :: "upa_env \<Rightarrow> upa_conf \<Rightarrow> tsch_q \<Rightarrow> nat \<Rightarrow> int \<Rightarrow> ringbufindex \<Rightarrow> u16 option" where
  "upa_request e c q n p dequeued =
     (let k = upa_pkts_to_request c q n dequeued in
      if k > 0 then
        map_option (\<lambda>(bitmap, _). push_bit 8 (word_of_int k) + ucast bitmap)
          (upa_calculate_slot_utility e q n p (nat k))
      else None)"

section \<open>The receiver: how many to take\<close>

definition upa_max_acceptable_pkts :: "upa_conf \<Rightarrow> u16 \<Rightarrow> ringbufindex \<Rightarrow> int \<Rightarrow> bool \<Rightarrow> u8" where
  "upa_max_acceptable_pkts c info input_ringbuf global_count root_or_leaf =
     (let requested = ucast (drop_bit 8 info AND 0xFF) :: u8;
          room = (\<lambda>size_v used. let d = size_v - 1 - (used + 1) in if d > 0 then d else (0 :: int));
          input_space = room (uf_max_incoming c) (ringbufindex_elements input_ringbuf);
          queue_space = room (uf_queuebuf_num c) global_count;
          space = (if root_or_leaf then input_space else min input_space queue_space)
      in word_of_int (min (uint requested) space))"

text \<open>The slots needed for each number of packets, as the bitmap says.\<close>

fun upa_slots_loop :: "u8 \<Rightarrow> nat list \<Rightarrow> u8 list \<Rightarrow> u8 list" where
  "upa_slots_loop bitmap [] xs = xs"
| "upa_slots_loop bitmap (i # is) xs =
     upa_slots_loop bitmap is (xs[i := (if bit bitmap i then xs ! (i - 1) + 1 else xs ! (i - 1))])"

definition upa_num_of_slots_required :: "upa_conf \<Rightarrow> u8 \<Rightarrow> u8 \<Rightarrow> u8 list" where
  "upa_num_of_slots_required c bitmap max_pkts =
     upa_slots_loop bitmap [1..<Suc (unat max_pkts)]
       ((replicate (nat (uf_max_incoming c)) 0)[0 := (if bit bitmap 0 then 1 + 1 else 1)])"

definition upa_gain :: "u8 list \<Rightarrow> nat \<Rightarrow> int" where
  "upa_gain xs i = (1 + int i) * 100 div uint (xs ! i)"

fun upa_max_gain_loop :: "u8 list \<Rightarrow> nat list \<Rightarrow> int \<Rightarrow> nat \<Rightarrow> nat" where
  "upa_max_gain_loop xs [] max_gain r = r"
| "upa_max_gain_loop xs (i # is) max_gain r =
     (let curr = upa_gain xs i in
      if curr > 100 \<and> curr \<ge> max_gain then upa_max_gain_loop xs is curr i
      else upa_max_gain_loop xs is max_gain r)"

fun upa_max_pkts_loop :: "u8 list \<Rightarrow> nat list \<Rightarrow> nat \<Rightarrow> nat" where
  "upa_max_pkts_loop xs [] r = r"
| "upa_max_pkts_loop xs (i # is) r =
     (let curr = upa_gain xs i in upa_max_pkts_loop xs is (if curr > 100 then i else r))"

definition upa_pkts_to_receive :: "upa_conf \<Rightarrow> u16 \<Rightarrow> ringbufindex \<Rightarrow> int \<Rightarrow> bool \<Rightarrow> nat" where
  "upa_pkts_to_receive c info input_ringbuf global_count root_or_leaf =
     (let m = upa_max_acceptable_pkts c info input_ringbuf global_count root_or_leaf;
          bitmap = ucast (info AND 0xFF) :: u8;
          xs = upa_num_of_slots_required c bitmap m
      in if uf_policy c = 0 then unat m
         else if uf_policy c = 1 then upa_max_gain_loop xs [1..<Suc (unat m)] 100 0
         else upa_max_pkts_loop xs [1..<Suc (unat m)] 0)"

section \<open>The receiver: the batch\<close>

text \<open>
  One event per round of the loop: nothing heard in time, a frame that is not for us or not valid,
  or a valid frame with its number in the batch; \<open>late\<close> says whether the deadline has passed then.
  A frame numbered 0 is shifted by a negative amount: \<open>None\<close>.
\<close>

datatype 'f upa_event = Ev_timeout | Ev_other bool | Ev_frame u16 'f bool

record 'f upa_rx =
  ur_ringbuf :: ringbufindex
  ur_array :: "'f list"
  ur_bitmap :: u16
  ur_last_seq :: u8

definition upa_rx_frame :: "u16 \<Rightarrow> 'f \<Rightarrow> 'f upa_rx \<Rightarrow> 'f upa_rx" where
  "upa_rx_frame seq f s =
     s\<lparr>ur_bitmap := ur_bitmap s OR push_bit (unat seq - 1) 1, ur_last_seq := ucast seq,
       ur_array := (ur_array s)[nat (ringbufindex_peek_put (ur_ringbuf s)) := f],
       ur_ringbuf := snd (ringbufindex_put (ur_ringbuf s))\<rparr>"

fun upa_rx_loop :: "nat \<Rightarrow> 'f upa_event list \<Rightarrow> 'f upa_rx \<Rightarrow> 'f upa_rx option" where
  "upa_rx_loop k [] s = Some s"
| "upa_rx_loop k (ev # evs) s =
     (if ringbufindex_peek_put (ur_ringbuf s) = -1 then Some s
      else case ev of
          Ev_timeout \<Rightarrow> Some s
        | Ev_other late \<Rightarrow>
            if unat (ur_last_seq s) \<ge> k \<or> late then Some s else upa_rx_loop k evs s
        | Ev_frame seq f late \<Rightarrow>
            if seq = 0 then None
            else let s1 = upa_rx_frame seq f s in
              if unat (ur_last_seq s1) \<ge> k \<or> late then Some s1 else upa_rx_loop k evs s1)"

section \<open>The sender: the batch acknowledgement\<close>

text \<open>The ring of packets that are done, for the process that calls the upper layers.\<close>

record tx_done =
  td_ringbuf :: ringbufindex
  td_array :: "int list"

definition upa_head_indices :: "tsch_neighbor \<Rightarrow> nat \<Rightarrow> nat list" where
  "upa_head_indices x k =
     (let head = ringbufindex_peek_get (tn_tx_ringbuf x) in
      map (\<lambda>i. nat (if head + int i < int TSCH_QUEUE_NUM_PER_NEIGHBOR then head + int i
        else head + int i - int TSCH_QUEUE_NUM_PER_NEIGHBOR)) [0..<k])"

definition upa_batch :: "tsch_neighbor \<Rightarrow> nat \<Rightarrow> int list" where
  "upa_batch x k = map ((!) (tn_tx_array x)) (upa_head_indices x k)"

definition tx_done_put :: "int \<Rightarrow> tx_done \<Rightarrow> tx_done" where
  "tx_done_put p d =
     (let i = ringbufindex_peek_put (td_ringbuf d) in
      if i \<noteq> -1 then d\<lparr>td_array := (td_array d)[nat i := p], td_ringbuf := snd (ringbufindex_put (td_ringbuf d))\<rparr>
      else d)"

text \<open>The results of the packets in order; the list is \<^verbatim>\<open>upa_tx_slot_in_queue_array\<close>.\<close>

fun upa_result_loop :: "nat \<Rightarrow> u16 \<Rightarrow> nat \<Rightarrow> int list \<Rightarrow> tsch_q \<times> tx_done \<Rightarrow> int list \<times> tsch_q \<times> tx_done" where
  "upa_result_loop n info seq [] (q, d) = ([], q, d)"
| "upa_result_loop n info seq (p # ps) (q, d) =
     (let x = tq_pkt q p; r = (if bit info seq then MAC_TX_OK else MAC_TX_NOACK);
          q1 = q\<lparr>tq_pkt := (tq_pkt q)(p := x\<lparr>tp_transmissions := tp_transmissions x + 1, tp_ret := r\<rparr>)\<rparr>;
          (in_queue, q2) = tsch_queue_upa_packet_sent q1 n p r;
          d1 = (if in_queue = 0 then tx_done_put p d else d);
          (rest, q3, d2) = upa_result_loop n info (Suc seq) ps (q2, d1)
      in (in_queue # rest, q3, d2))"

text \<open>
  The packets that stay are moved to the end of the part of the ring that the batch took up, from the last one
  backwards, until all are moved.
\<close>

fun upa_compact_loop :: "nat list \<Rightarrow> int list \<Rightarrow> int list \<Rightarrow> nat \<Rightarrow> nat \<Rightarrow> nat list \<Rightarrow> nat \<Rightarrow> int list \<Rightarrow> int list" where
  "upa_compact_loop idxs ps inq k stay [] cursor arr = arr"
| "upa_compact_loop idxs ps inq k stay (i # is) cursor arr =
     (if inq ! (k - 1 - i) = 1 then
        let arr1 = arr[idxs ! (k - 1 - cursor) := ps ! (k - 1 - i)] in
        if stay = cursor + 1 then arr1
        else upa_compact_loop idxs ps inq k stay is (cursor + 1) arr1
      else upa_compact_loop idxs ps inq k stay is cursor arr)"

definition upa_batch_end :: "nat \<Rightarrow> u16 \<Rightarrow> nat \<Rightarrow> tsch_q \<times> tx_done \<Rightarrow> tsch_q \<times> tx_done" where
  "upa_batch_end n info k st =
     (let x = tq_nbr (fst st) n; idxs = upa_head_indices x k; ps = upa_batch x k;
          (inq, q, d) = upa_result_loop n info 0 ps st;
          stay = length (filter (\<lambda>i. i \<noteq> 0) inq);
          y = tq_nbr q n;
          arr = (if stay > 0 then upa_compact_loop idxs ps inq k stay [0..<k] 0 (tn_tx_array y) else tn_tx_array y);
          rb = snd (ringbufindex_shift_get_ptr (tn_tx_ringbuf y) (int k - int stay))
      in (tq_set_nbr q n (y\<lparr>tn_tx_array := arr, tn_tx_ringbuf := rb\<rparr>), d))"

end
