(* ===== verification/Asap_Upa_Correct.thy ===== *)
theory Asap_Upa_Correct
  imports Asap_Upa
begin

text \<open>
  The batch of UPA as an operation on the abstract queue of the neighbor: the packets that are done leave
  it from anywhere in the batch, the others keep their order. And the choices of the two sides.
\<close>

section \<open>The batch in the ring\<close>

lemma wrap_index:
  "g < 16 \<Longrightarrow> i < 16 \<Longrightarrow>
    nat (if int g + int i < int 16 then int g + int i else int g + int i - int 16) = (g + i) mod 16"
  by (simp add: nat_add_distrib nat_diff_distrib le_mod_geq)

lemma head_indices:
  assumes ok: "tn_ok x" and k: "k \<le> length (nbr_pkts x)"
  shows "upa_head_indices x k = take k (rb_idx (tn_tx_ringbuf x))"
proof (cases "k = 0")
  case True
  then show ?thesis by (simp add: upa_head_indices_def)
next
  case False
  let ?r = "tn_tx_ringbuf x"
  have wf: "rb_wf ?r" "rb_cap ?r = 15" and cnt: "k \<le> rb_count ?r"
    using ok k by (simp_all add: tn_ok_def nbr_pkts_def)
  have g: "unat (rb_get ?r) < 16" using wf by (simp add: rb_wf_def rb_cap_def)
  have "rb_idx ?r \<noteq> []" using cnt False by (metis length_rb_idx list.size(3) le_zero_eq)
  then have head: "ringbufindex_peek_get ?r = int (unat (rb_get ?r))"
    using rb.peek_get_none_iff [OF wf(1)] by (simp add: ringbufindex_peek_get_def split: if_splits)
  have "i < 16" if "i < k" for i using that cnt rb_count_le [of ?r] wf(2) by simp
  with g have "upa_head_indices x k = map (\<lambda>i. (unat (rb_get ?r) + i) mod 16) [0..<k]"
    unfolding upa_head_indices_def head Let_def TSCH_QUEUE_NUM_PER_NEIGHBOR_def
    by (intro map_cong [OF refl] wrap_index) auto
  then show ?thesis using cnt by (simp add: rb_idx_def wf(2) take_map)
qed

lemma upa_batch_take: "tn_ok x \<Longrightarrow> k \<le> length (nbr_pkts x) \<Longrightarrow> upa_batch x k = take k (nbr_pkts x)"
  by (simp add: upa_batch_def head_indices nbr_pkts_def take_map)

section \<open>Moving the packets that stay\<close>

definition put_all :: "'a list \<Rightarrow> (nat \<times> 'a) list \<Rightarrow> 'a list" where
  "put_all arr xs = foldl (\<lambda>a (j, p). a[j := p]) arr xs"

lemma put_all_simps [simp]:
  "put_all arr [] = arr" "put_all arr ((j, p) # xs) = put_all (arr[j := p]) xs"
  by (simp_all add: put_all_def)

lemma put_all_length [simp]: "length (put_all arr xs) = length arr"
  by (induction xs arbitrary: arr) (auto simp: put_all_def)

lemma put_all_other: "j \<notin> fst ` set xs \<Longrightarrow> put_all arr xs ! j = arr ! j"
  by (induction xs arbitrary: arr) auto

lemma put_all_map:
  assumes "distinct js" "length js = length ps" "\<forall>j \<in> set js. j < length arr"
  shows "map ((!) (put_all arr (zip js ps))) js = ps"
  using assms
proof (induction js ps arbitrary: arr rule: list_induct2')
  case (4 j js p ps)
  have "put_all (arr[j := p]) (zip js ps) ! j = arr[j := p] ! j"
    using 4(2) by (intro put_all_other) (auto dest: set_zip_leftD)
  then show ?case using 4 by simp
qed auto

lemma compact_loop:
  assumes "length idxs = k" "cursor \<le> i" "i \<le> k"
    and "cursor + length (filter (\<lambda>j. inq ! (k - 1 - j) = 1) [i..<k]) = stay"
  shows "upa_compact_loop idxs ps inq k stay [i..<k] cursor arr =
    put_all arr (zip (drop cursor (rev idxs))
      (map (\<lambda>j. ps ! (k - 1 - j)) (filter (\<lambda>j. inq ! (k - 1 - j) = 1) [i..<k])))"
  using assms
proof (induction "k - i" arbitrary: i cursor arr)
  case (Suc m)
  let ?f = "\<lambda>i. filter (\<lambda>j. inq ! (k - 1 - j) = 1) [i..<k]"
  have i: "i < k" "[i..<k] = i # [Suc i..<k]" using Suc.hyps(2) by (simp_all add: upt_conv_Cons)
  have m: "m = k - Suc i" using Suc.hyps(2) by simp
  show ?case
  proof (cases "inq ! (k - 1 - i) = 1")
    case True
    let ?arr = "arr[idxs ! (k - 1 - cursor) := ps ! (k - 1 - i)]"
    have f: "?f i = i # ?f (Suc i)" unfolding i(2) using True by simp
    have "drop cursor (rev idxs) = rev idxs ! cursor # drop (Suc cursor) (rev idxs)"
      using Suc.prems(1,2) i(1) by (simp add: Cons_nth_drop_Suc)
    then have d: "drop cursor (rev idxs) = idxs ! (k - 1 - cursor) # drop (Suc cursor) (rev idxs)"
      using Suc.prems(1,2) i(1) by (simp add: rev_nth)
    have IH: "upa_compact_loop idxs ps inq k stay [Suc i..<k] (Suc cursor) ?arr =
        put_all ?arr (zip (drop (Suc cursor) (rev idxs)) (map (\<lambda>j. ps ! (k - 1 - j)) (?f (Suc i))))"
      using Suc.prems i(1) f by (intro Suc.hyps(1) [OF m]) simp_all
    have last: "?f (Suc i) = []" if "stay = cursor + 1" using Suc.prems(4) f that by simp
    have "upa_compact_loop idxs ps inq k stay [i..<k] cursor arr =
        put_all ?arr (zip (drop (Suc cursor) (rev idxs)) (map (\<lambda>j. ps ! (k - 1 - j)) (?f (Suc i))))"
      unfolding i(2) using True IH last by (simp add: Let_def)
    then show ?thesis unfolding f d by simp
  next
    case False
    then have f: "?f i = ?f (Suc i)" unfolding i(2) by simp
    have "upa_compact_loop idxs ps inq k stay [i..<k] cursor arr =
        upa_compact_loop idxs ps inq k stay [Suc i..<k] cursor arr"
      unfolding i(2) using False by simp
    also have "\<dots> = put_all arr (zip (drop cursor (rev idxs)) (map (\<lambda>j. ps ! (k - 1 - j)) (?f (Suc i))))"
      using Suc.prems i(1) f by (intro Suc.hyps(1) [OF m]) simp_all
    finally show ?thesis unfolding f .
  qed
qed simp

lemma filter_down:
  assumes "length xs = k" "length ps = k"
  shows "map (\<lambda>j. ps ! (k - 1 - j)) (filter (\<lambda>j. xs ! (k - 1 - j) = y) [0..<k]) =
    rev (map fst (filter (\<lambda>px. snd px = y) (zip ps xs)))"
proof -
  have "zip ps xs = map (\<lambda>j. (ps ! j, xs ! j)) [0..<k]"
    by (rule nth_equalityI) (simp_all add: assms)
  moreover have "map (\<lambda>j. k - 1 - j) [0..<k] = rev [0..<k]"
    by (rule nth_equalityI) (simp_all add: rev_nth)
  moreover have "map (\<lambda>j. ps ! (k - 1 - j)) (filter (\<lambda>j. xs ! (k - 1 - j) = y) [0..<k]) =
      map ((!) ps) (filter (\<lambda>j. xs ! j = y) (map (\<lambda>j. k - 1 - j) [0..<k]))"
    by (simp add: filter_map comp_def)
  ultimately show ?thesis by (simp add: filter_map comp_def rev_filter rev_map)
qed

lemma zip_same_prefix: "length a = length c \<Longrightarrow> zip (a @ b) c = zip a c"
  by (simp add: zip_append1)

lemma fst_set_zip: "fst ` set (zip a b) \<subseteq> set a"
  by (auto dest: set_zip_leftD)

lemma compacted:
  assumes len: "length ps = k" "length inq = k" "length idxs = k"
    and stay: "stay = length (filter (\<lambda>px. snd px = 1) (zip ps inq))"
    and idxs: "distinct idxs" "\<forall>j \<in> set idxs. j < length arr"
  defines "arr' \<equiv> upa_compact_loop idxs ps inq k stay [0..<k] 0 arr"
  shows "map ((!) arr') (drop (k - stay) idxs) = map fst (filter (\<lambda>px. snd px = 1) (zip ps inq))"
    and "length arr' = length arr" "j \<notin> set idxs \<Longrightarrow> arr' ! j = arr ! j"
proof -
  let ?ks = "map fst (filter (\<lambda>px. snd px = 1) (zip ps inq))"
  have "stay = length (map (\<lambda>j. ps ! (k - 1 - j)) (filter (\<lambda>j. inq ! (k - 1 - j) = 1) [0..<k]))"
    unfolding filter_down [OF len(2,1)] by (simp add: stay)
  then have "arr' = put_all arr (zip (rev idxs) (rev ?ks))"
    using compact_loop [OF len(3), of 0 0 inq stay ps arr] filter_down [OF len(2,1), of 1]
    by (simp add: arr'_def)
  moreover have "stay \<le> k" using length_filter_le [of "\<lambda>px. snd px = 1" "zip ps inq"] by (simp add: stay len)
  then have l: "length (drop (k - stay) idxs) = length ?ks" by (simp add: len stay [symmetric])
  have "rev idxs = rev (drop (k - stay) idxs) @ rev (take (k - stay) idxs)"
    by (simp flip: rev_append)
  then have "zip (rev idxs) (rev ?ks) = zip (rev (drop (k - stay) idxs)) (rev ?ks)"
    using l by (metis length_rev zip_same_prefix)
  ultimately have arr': "arr' = put_all arr (zip (rev (drop (k - stay) idxs)) (rev ?ks))" by simp
  have "map ((!) arr') (rev (drop (k - stay) idxs)) = rev ?ks"
    unfolding arr' using idxs set_drop_subset [of "k - stay" idxs] l by (intro put_all_map) auto
  then show "map ((!) arr') (drop (k - stay) idxs) = ?ks" by (simp flip: rev_map)
  show "length arr' = length arr" by (simp add: arr')
  have "fst ` set (zip (rev (drop (k - stay) idxs)) (rev ?ks)) \<subseteq> set idxs"
    using set_drop_subset [of "k - stay" idxs] fst_set_zip [of "rev (drop (k - stay) idxs)"] by fastforce
  then show "arr' ! j = arr ! j" if "j \<notin> set idxs"
    unfolding arr' using that by (intro put_all_other) auto
qed

section \<open>The results\<close>

definition td_pkts :: "tx_done \<Rightarrow> int list" where
  "td_pkts d = map ((!) (td_array d)) (rb_idx (td_ringbuf d))"

definition td_ok :: "tx_done \<Rightarrow> bool" where
  "td_ok d \<longleftrightarrow> rb_wf (td_ringbuf d) \<and> rb_cap (td_ringbuf d) < length (td_array d)"

lemma tx_done_put_spec:
  assumes "td_ok d" "length (td_pkts d) < rb_cap (td_ringbuf d)"
  shows "td_ok (tx_done_put p d) \<and> td_pkts (tx_done_put p d) = td_pkts d @ [p] \<and>
    rb_cap (td_ringbuf (tx_done_put p d)) = rb_cap (td_ringbuf d)"
proof -
  have "length (rb_idx (td_ringbuf d)) < rb_cap (td_ringbuf d)" using assms(2) by (simp add: td_pkts_def)
  from rb.enqueue [OF _ this, of "td_array d" p] assms(1) obtain i r' where
    "ringbufindex_put (td_ringbuf d) = (1, r')" "ringbufindex_peek_put (td_ringbuf d) = int i" "rb_wf r'"
    "rb_cap r' = rb_cap (td_ringbuf d)" "map ((!) ((td_array d)[i := p])) (rb_idx r') = td_pkts d @ [p]"
    by (auto simp: td_ok_def td_pkts_def)
  then show ?thesis using assms(1) by (simp add: tx_done_put_def td_ok_def td_pkts_def)
qed

text \<open>A packet is done when it was acknowledged or was its last transmission.\<close>

definition upa_sent :: "u16 \<Rightarrow> nat \<Rightarrow> tsch_packet \<Rightarrow> tsch_packet" where
  "upa_sent info i x = x\<lparr>tp_transmissions := tp_transmissions x + 1,
     tp_ret := (if bit info i then MAC_TX_OK else MAC_TX_NOACK)\<rparr>"

definition upa_done :: "u16 \<Rightarrow> nat \<Rightarrow> tsch_packet \<Rightarrow> bool" where
  "upa_done info i x \<longleftrightarrow> bit info i \<or> tp_transmissions x + 1 \<ge> tp_max_transmissions x"

fun upa_mark :: "u16 \<Rightarrow> nat \<Rightarrow> int list \<Rightarrow> (int \<Rightarrow> tsch_packet) \<Rightarrow> int \<Rightarrow> tsch_packet" where
  "upa_mark info seq [] f = f"
| "upa_mark info seq (p # ps) f = upa_mark info (Suc seq) ps (f(p := upa_sent info seq (f p)))"

lemma upa_mark_other: "p \<notin> set ps \<Longrightarrow> upa_mark info seq ps f p = f p"
  by (induction ps arbitrary: seq f) auto

lemma upa_mark_nth:
  "distinct ps \<Longrightarrow> i < length ps \<Longrightarrow> upa_mark info seq ps f (ps ! i) = upa_sent info (seq + i) (f (ps ! i))"
proof (induction ps arbitrary: seq f i)
  case (Cons p ps)
  then show ?case by (cases i) (auto simp: upa_mark_other)
qed simp

definition upa_done_list :: "u16 \<Rightarrow> nat \<Rightarrow> int list \<Rightarrow> (int \<Rightarrow> tsch_packet) \<Rightarrow> bool list" where
  "upa_done_list info seq ps f = map (\<lambda>(i, p). upa_done info i (f p)) (enumerate seq ps)"

lemma upa_done_list_simps [simp]:
  "upa_done_list info seq [] f = []"
  "upa_done_list info seq (p # ps) f = upa_done info seq (f p) # upa_done_list info (Suc seq) ps f"
  by (simp_all add: upa_done_list_def)

lemma upa_done_list_length [simp]: "length (upa_done_list info seq ps f) = length ps"
  by (simp add: upa_done_list_def)

lemma upa_done_list_upd: "p \<notin> set ps \<Longrightarrow> upa_done_list info seq ps (f(p := x)) = upa_done_list info seq ps f"
  by (induction ps arbitrary: seq) auto

lemma mac_tx_different [simp]: "MAC_TX_NOACK \<noteq> MAC_TX_OK"
  by (simp add: MAC_TX_NOACK_def MAC_TX_OK_def)

lemma upa_packet_sent_nonempty:
  "\<not> tsch_queue_is_empty s (Some n) \<Longrightarrow> tsch_queue_upa_packet_sent s n p r =
     (if r = MAC_TX_OK \<or> tp_transmissions (tq_pkt s p) \<ge> tp_max_transmissions (tq_pkt s p) then 0 else 1, s)"
  by (simp add: tsch_queue_upa_packet_sent_def Let_def)

lemma result_loop:
  assumes "distinct ps" "\<not> tsch_queue_is_empty q (Some n)" "td_ok d"
    "length (td_pkts d) + length ps \<le> rb_cap (td_ringbuf d)"
  shows "\<exists>d'. upa_result_loop n info seq ps (q, d) =
      (map (\<lambda>b. if b then 0 else 1) (upa_done_list info seq ps (tq_pkt q)),
       q\<lparr>tq_pkt := upa_mark info seq ps (tq_pkt q)\<rparr>, d') \<and>
    td_ok d' \<and> td_pkts d' = td_pkts d @ map fst (filter snd (zip ps (upa_done_list info seq ps (tq_pkt q))))"
  using assms
proof (induction ps arbitrary: seq q d)
  case (Cons p ps)
  let ?q = "q\<lparr>tq_pkt := (tq_pkt q)(p := upa_sent info seq (tq_pkt q p))\<rparr>"
  let ?b = "upa_done info seq (tq_pkt q p)"
  let ?d = "if ?b then tx_done_put p d else d"
  have e: "\<not> tsch_queue_is_empty ?q (Some n)"
    using Cons.prems(2) by (simp add: tsch_queue_is_empty_def tsch_is_locked_def)
  have step: "tsch_queue_upa_packet_sent ?q n p (if bit info seq then MAC_TX_OK else MAC_TX_NOACK) =
      (if ?b then 0 else 1, ?q)"
    unfolding upa_packet_sent_nonempty [OF e] by (simp add: upa_done_def upa_sent_def)
  have d: "td_ok ?d" "td_pkts ?d = td_pkts d @ (if ?b then [p] else [])"
    "rb_cap (td_ringbuf ?d) = rb_cap (td_ringbuf d)"
    using tx_done_put_spec [of d p] Cons.prems(3,4) by simp_all
  have "length (td_pkts ?d) + length ps \<le> rb_cap (td_ringbuf ?d)" using Cons.prems(4) by (simp add: d(2,3))
  moreover have upd: "upa_done_list info (Suc seq) ps (tq_pkt ?q) = upa_done_list info (Suc seq) ps (tq_pkt q)"
    using Cons.prems(1) by (simp add: upa_done_list_upd)
  moreover have "distinct ps" using Cons.prems(1) by simp
  ultimately obtain d' where
    d': "upa_result_loop n info (Suc seq) ps (?q, ?d) =
      (map (\<lambda>b. if b then 0 else 1) (upa_done_list info (Suc seq) ps (tq_pkt q)),
       ?q\<lparr>tq_pkt := upa_mark info (Suc seq) ps (tq_pkt ?q)\<rparr>, d')" "td_ok d'"
    "td_pkts d' = td_pkts ?d @ map fst (filter snd (zip ps (upa_done_list info (Suc seq) ps (tq_pkt q))))"
    using Cons.IH [of ?q ?d "Suc seq"] e d(1) unfolding upd by blast
  have "upa_result_loop n info seq (p # ps) (q, d) =
      ((if ?b then 0 else 1) # map (\<lambda>b. if b then 0 else 1) (upa_done_list info (Suc seq) ps (tq_pkt q)),
       ?q\<lparr>tq_pkt := upa_mark info (Suc seq) ps (tq_pkt ?q)\<rparr>, d')"
    unfolding upa_result_loop.simps upa_sent_def [symmetric] Let_def step using d'(1) by (cases ?b) simp_all
  then show ?case using d'(2,3) d(2) by simp
qed simp

section \<open>The end of the batch\<close>

lemma filter_zip_map: "filter (\<lambda>px. P (snd px)) (zip ps (map f bs)) = map (\<lambda>(p, b). (p, f b)) (filter (\<lambda>px. P (f (snd px))) (zip ps bs))"
  by (induction ps bs rule: list_induct2') auto

lemma stay_count:
  "length ps = length bs \<Longrightarrow>
    length (filter (\<lambda>i. i \<noteq> 0) (map (\<lambda>b. if b then 0 else 1 :: int) bs)) = length (filter (\<lambda>px. \<not> snd px) (zip ps bs))"
  by (induction ps bs rule: list_induct2') auto

definition upa_rest :: "u16 \<Rightarrow> int list \<Rightarrow> (int \<Rightarrow> tsch_packet) \<Rightarrow> int list" where
  "upa_rest info ps f = map fst (filter (\<lambda>px. \<not> snd px) (zip ps (upa_done_list info 0 ps f)))"

definition upa_gone :: "u16 \<Rightarrow> int list \<Rightarrow> (int \<Rightarrow> tsch_packet) \<Rightarrow> int list" where
  "upa_gone info ps f = map fst (filter snd (zip ps (upa_done_list info 0 ps f)))"

lemma batch_ring:
  assumes ok: "tn_ok x" and k: "k \<le> length (nbr_pkts x)" and bs: "length bs = k"
  defines "ps \<equiv> take k (nbr_pkts x)"
  defines "inq \<equiv> map (\<lambda>b. if b then 0 else 1 :: int) bs"
  defines "stay \<equiv> length (filter (\<lambda>i. i \<noteq> 0) inq)"
  defines "arr \<equiv> upa_compact_loop (upa_head_indices x k) ps inq k stay [0..<k] 0 (tn_tx_array x)"
  defines "x' \<equiv> x\<lparr>tn_tx_array := arr,
    tn_tx_ringbuf := snd (ringbufindex_shift_get_ptr (tn_tx_ringbuf x) (int k - int stay))\<rparr>"
  shows "nbr_pkts x' = map fst (filter (\<lambda>px. \<not> snd px) (zip ps bs)) @ drop k (nbr_pkts x)"
    and "tn_ok x'" "stay = 0 \<Longrightarrow> arr = tn_tx_array x"
proof -
  let ?r = "tn_tx_ringbuf x" and ?I = "upa_head_indices x k"
  have I: "?I = take k (rb_idx ?r)" by (rule head_indices [OF ok k])
  have r: "rb_wf ?r" "rb_cap ?r = 15" "length (tn_tx_array x) = 16" using ok by (simp_all add: tn_ok_def)
  have cnt: "k \<le> rb_count ?r" using k by (simp add: nbr_pkts_def)
  have len: "length ps = k" "length inq = k" "length ?I = k" using k bs cnt by (simp_all add: ps_def inq_def I)
  have kept: "map fst (filter (\<lambda>px. snd px = 1) (zip ps inq)) = map fst (filter (\<lambda>px. \<not> snd px) (zip ps bs))"
  proof -
    have "(if b then 0 else 1 :: int) = 1 \<longleftrightarrow> \<not> b" for b by simp
    then show ?thesis
      unfolding inq_def filter_zip_map [of "\<lambda>i. i = 1"] by (simp only: map_map comp_def case_prod_beta fst_conv)
  qed
  have stay: "stay = length (filter (\<lambda>px. \<not> snd px) (zip ps bs))"
    unfolding stay_def inq_def by (rule stay_count) (simp add: len bs)
  then have stay': "stay = length (filter (\<lambda>px. snd px = 1) (zip ps inq))"
    using kept by (metis length_map)
  have "stay \<le> k" using length_filter_le [of "\<lambda>px. \<not> snd px" "zip ps bs"] by (simp add: stay len bs)
  then have sh: "int k - int stay = int (k - stay)" by simp
  have idx: "\<forall>j \<in> set (rb_idx ?r). j < length (tn_tx_array x)"
    using rb_idx_less [of _ ?r] r by fastforce
  then have inI: "\<forall>j \<in> set ?I. j < length (tn_tx_array x)" unfolding I by (meson in_set_takeD)
  have dI: "distinct ?I" unfolding I by (rule distinct_take) (rule distinct_rb_idx)
  note c = compacted [OF len stay' dI inI, folded arr_def]
  have c1: "map ((!) arr) (drop (k - stay) ?I) = map fst (filter (\<lambda>px. \<not> snd px) (zip ps bs))"
    by (rule trans [OF c(1) kept])
  have "k - stay \<le> rb_count ?r" using cnt by simp
  note shift = rb_shift_step [OF r(1) this, folded sh]
  have rbi: "rb_idx (snd (ringbufindex_shift_get_ptr ?r (int k - int stay))) = drop (k - stay) (rb_idx ?r)"
    and rbw: "rb_wf (snd (ringbufindex_shift_get_ptr ?r (int k - int stay)))"
      "rb_cap (snd (ringbufindex_shift_get_ptr ?r (int k - int stay))) = rb_cap ?r"
    using shift by blast+
  have "drop (k - stay) (rb_idx ?r) = drop (k - stay) (take k (rb_idx ?r) @ drop k (rb_idx ?r))" by simp
  also have "\<dots> = drop (k - stay) ?I @ drop k (rb_idx ?r)"
    unfolding I by (simp only: drop_append) (simp add: cnt)
  finally have d: "drop (k - stay) (rb_idx ?r) = drop (k - stay) ?I @ drop k (rb_idx ?r)" .
  have "set ?I \<inter> set (drop k (rb_idx ?r)) = {}"
    unfolding I by (rule set_take_disj_set_drop_if_distinct [OF distinct_rb_idx]) simp
  then have "map ((!) arr) (drop k (rb_idx ?r)) = map ((!) (tn_tx_array x)) (drop k (rb_idx ?r))"
    using c(3) by (intro map_cong) auto
  then show "nbr_pkts x' = map fst (filter (\<lambda>px. \<not> snd px) (zip ps bs)) @ drop k (nbr_pkts x)"
    using rbi [unfolded d] c1 by (simp add: x'_def nbr_pkts_def drop_map)
  show "tn_ok x'" using ok rbw c(2) by (simp add: x'_def tn_ok_def)
  show "arr = tn_tx_array x" if "stay = 0"
  proof -
    have "filter (\<lambda>j. inq ! (k - 1 - j) = 1) [0..<k] = []"
      using filter_down [OF len(2,1), of 1] that stay' by simp
    then show ?thesis
      unfolding arr_def using compact_loop [OF len(3), of 0 0 inq 0 ps "tn_tx_array x"] that by simp
  qed
qed

lemma upa_mark_simps [simp]:
  "tq_pkts (q\<lparr>tq_pkt := f\<rparr>) = tq_pkts q" "tq_wf (q\<lparr>tq_pkt := f\<rparr>) = tq_wf q"
  by (simp_all add: tq_pkts_def fun_eq_iff tq_wf_def)

lemma batch_end_spec:
  assumes wf: "tq_wf q" and n: "n \<in> ran (tq_map q)" and k: "0 < k" "k \<le> length (tq_pkts q n)"
    and td: "td_ok d" "length (td_pkts d) + k \<le> rb_cap (td_ringbuf d)"
  defines "ps \<equiv> take k (tq_pkts q n)"
  obtains q' d' where "upa_batch_end n info k (q, d) = (q', d')" "tq_wf q'" "td_ok d'"
    "tq_pkts q' = (tq_pkts q)(n := upa_rest info ps (tq_pkt q) @ drop k (tq_pkts q n))"
    "td_pkts d' = td_pkts d @ upa_gone info ps (tq_pkt q)"
    "tq_nt q' = tq_nt q" "tq_mem q' = tq_mem q" "tq_locked q' = tq_locked q"
    "tq_pkt q' = upa_mark info 0 ps (tq_pkt q)"
    "\<And>m. tn_backoff_window (tq_nbr q' m) = tn_backoff_window (tq_nbr q m)"
proof -
  let ?x = "tq_nbr q n"
  have ok: "tn_ok ?x" and dist: "distinct (tq_pkts q n)" and live: "set (tq_pkts q n) \<subseteq> memb_live (tq_mem q)"
    using tq_wfD(2) [OF wf n] by blast+
  have k': "k \<le> length (nbr_pkts ?x)" using k(2) by (simp add: tq_pkts_def)
  have ne: "\<not> tsch_queue_is_empty q (Some n)"
    using k nbr_empty [OF ok] by (auto simp: tsch_queue_is_empty_def tq_pkts_def)
  have batch: "upa_batch ?x k = ps" unfolding ps_def tq_pkts_def by (rule upa_batch_take [OF ok k'])
  have lp: "length ps = k" using k(2) by (simp add: ps_def)
  have dps: "distinct ps" using dist by (simp add: ps_def)
  have room: "length (td_pkts d) + length ps \<le> rb_cap (td_ringbuf d)" using td(2) lp by simp
  let ?bs = "upa_done_list info 0 ps (tq_pkt q)"
  let ?inq = "map (\<lambda>b. if b then 0 else 1 :: int) ?bs"
  let ?stay = "length (filter (\<lambda>i. i \<noteq> 0) ?inq)"
  from result_loop [OF dps ne td(1) room, of info 0] obtain d' where
    res: "upa_result_loop n info 0 ps (q, d) = (?inq, q\<lparr>tq_pkt := upa_mark info 0 ps (tq_pkt q)\<rparr>, d')"
    and d': "td_ok d'" "td_pkts d' = td_pkts d @ map fst (filter snd (zip ps ?bs))" by blast
  define arr where "arr = upa_compact_loop (upa_head_indices ?x k) ps ?inq k ?stay [0..<k] 0 (tn_tx_array ?x)"
  define x' where "x' = ?x\<lparr>tn_tx_array := arr,
    tn_tx_ringbuf := snd (ringbufindex_shift_get_ptr (tn_tx_ringbuf ?x) (int k - int ?stay))\<rparr>"
  have lb: "length ?bs = k" by (simp add: lp)
  note ring = batch_ring [OF ok k' lb, folded tq_pkts_def, folded ps_def, folded arr_def, folded x'_def]
  define q' where "q' = (tq_set_nbr q n x')\<lparr>tq_pkt := upa_mark info 0 ps (tq_pkt q)\<rparr>"
  have "upa_batch_end n info k (q, d) =
      (tq_set_nbr (q\<lparr>tq_pkt := upa_mark info 0 ps (tq_pkt q)\<rparr>) n x', d')"
    using ring(3) unfolding upa_batch_end_def Let_def fst_conv batch res prod.case
    by (cases "?stay = 0") (simp_all add: x'_def arr_def)
  then have 1: "upa_batch_end n info k (q, d) = (q', d')" by (simp add: q'_def)
  have pk: "nbr_pkts x' = upa_rest info ps (tq_pkt q) @ drop k (tq_pkts q n)"
    using ring(1) by (simp add: upa_rest_def)
  have sub: "set (upa_rest info ps (tq_pkt q)) \<subseteq> set ps"
    unfolding upa_rest_def by (auto dest: set_zip_leftD)
  have "distinct (upa_rest info ps (tq_pkt q))"
    unfolding upa_rest_def by (rule distinct_map_filter) (simp add: lp dps)
  moreover have "set ps \<inter> set (drop k (tq_pkts q n)) = {}"
    unfolding ps_def by (rule set_take_disj_set_drop_if_distinct [OF dist]) simp
  ultimately have dx: "distinct (nbr_pkts x')" unfolding pk using sub dist by auto
  have sx: "set (nbr_pkts x') \<subseteq> set (tq_pkts q n)"
    unfolding pk using sub set_take_subset [of k "tq_pkts q n"] set_drop_subset [of k "tq_pkts q n"] ps_def by auto
  have "tq_wf (tq_set_nbr q n x')"
  proof (rule tq_wf_upd [OF wf, of _ n x'])
    show "set (nbr_pkts x') \<subseteq> memb_live (tq_mem (tq_set_nbr q n x'))" using sx live by simp
    fix m assume "m \<in> ran (tq_map q)" "m \<noteq> n"
    then show "set (tq_pkts q m) \<subseteq> memb_live (tq_mem (tq_set_nbr q n x')) \<and> set (tq_pkts q m) \<inter> set (nbr_pkts x') = {}"
      using wf n sx unfolding tq_wf_def by simp blast
  qed (use tq_wfD(1) [OF wf] ring(2) dx in simp_all)
  then have 2: "tq_wf q'" by (simp add: q'_def)
  show thesis
  proof (rule that [OF 1 2 d'(1)])
    show "tq_pkts q' = (tq_pkts q)(n := upa_rest info ps (tq_pkt q) @ drop k (tq_pkts q n))"
      by (simp add: q'_def tq_pkts_set_nbr [OF pk])
  qed (use d'(2) in \<open>simp_all add: q'_def x'_def upa_gone_def\<close>)
qed

lemma batch_end_result:
  assumes "tq_wf q" "n \<in> ran (tq_map q)" "0 < k" "k \<le> length (tq_pkts q n)"
    and "td_ok d" "length (td_pkts d) + k \<le> rb_cap (td_ringbuf d)"
    and "upa_batch_end n info k (q, d) = (q', d')"
  shows "tq_wf q'" "tq_mem q' = tq_mem q" "tq_pkt q' = upa_mark info 0 (take k (tq_pkts q n)) (tq_pkt q)"
    "tq_pkts q' = (tq_pkts q)(n := upa_rest info (take k (tq_pkts q n)) (tq_pkt q) @ drop k (tq_pkts q n))"
    "td_pkts d' = td_pkts d @ upa_gone info (take k (tq_pkts q n)) (tq_pkt q)"
    "tn_backoff_window (tq_nbr q' m) = tn_backoff_window (tq_nbr q m)"
  using batch_end_spec [OF assms(1-6), of info] assms(7) by (metis prod.inject)+

lemma nths_upt: "nths xs A = map ((!) xs) (filter (\<lambda>i. i \<in> A) [0..<length xs])"
proof -
  have "zip xs [0..<length xs] = map (\<lambda>i. (xs ! i, i)) [0..<length xs]" by (intro nth_equalityI) simp_all
  then show ?thesis by (simp add: nths_def filter_map comp_def)
qed

lemma zip_done_nths:
  assumes "length ps = length bs"
  shows "map fst (filter (\<lambda>px. P (snd px)) (zip ps bs)) = nths ps {i. i < length bs \<and> P (bs ! i)}"
proof -
  have "zip ps bs = map (\<lambda>i. (ps ! i, bs ! i)) [0..<length ps]"
    using assms by (intro nth_equalityI) simp_all
  then have "map fst (filter (\<lambda>px. P (snd px)) (zip ps bs)) = map ((!) ps) (filter (\<lambda>i. P (bs ! i)) [0..<length ps])"
    by (simp add: filter_map comp_def)
  moreover have "filter (\<lambda>i. P (bs ! i)) [0..<length ps] =
      filter (\<lambda>i. i \<in> {i. i < length bs \<and> P (bs ! i)}) [0..<length ps]"
    by (rule filter_cong) (use assms in auto)
  ultimately show ?thesis by (simp only: nths_upt)
qed

lemma upa_done_nth: "i < length ps \<Longrightarrow> upa_done_list info 0 ps f ! i = upa_done info i (f (ps ! i))"
  by (simp add: upa_done_list_def nth_enumerate_eq)

lemma rest_gone_nths:
  "upa_rest info ps f = nths ps {i. i < length ps \<and> \<not> upa_done info i (f (ps ! i))}"
  "upa_gone info ps f = nths ps {i. i < length ps \<and> upa_done info i (f (ps ! i))}"
  using zip_done_nths [of ps "upa_done_list info 0 ps f" Not] zip_done_nths [of ps "upa_done_list info 0 ps f" "\<lambda>b. b"]
  by (simp_all add: upa_rest_def upa_gone_def upa_done_nth cong: conj_cong)

lemma nths_restrict: "nths xs {i. i < length xs \<and> P i} = nths xs {i. P i}"
  unfolding nths_def by (rule arg_cong [of _ _ "map fst"], rule filter_cong) (auto dest: set_zip_rightD)

lemma bit_push_bit_1: "bit (push_bit i 1 :: 'a::len word) j \<longleftrightarrow> j < LENGTH('a) \<and> j = i"
  by (simp only: bit_push_bit_iff bit_1_iff possible_bit_word) auto

section \<open>What the receiver hears\<close>

definition ur_pkts :: "'f upa_rx \<Rightarrow> 'f list" where
  "ur_pkts s = map ((!) (ur_array s)) (rb_idx (ur_ringbuf s))"

definition ur_ok :: "'f upa_rx \<Rightarrow> bool" where
  "ur_ok s \<longleftrightarrow> rb_wf (ur_ringbuf s) \<and> rb_cap (ur_ringbuf s) < length (ur_array s)"

fun upa_heard :: "'f upa_event list \<Rightarrow> (u16 \<times> 'f) list" where
  "upa_heard [] = []"
| "upa_heard (Ev_frame seq f late # evs) = (seq, f) # upa_heard evs"
| "upa_heard (_ # evs) = upa_heard evs"

lemma rx_frame_spec:
  assumes "ur_ok s" "ringbufindex_peek_put (ur_ringbuf s) \<noteq> -1"
  shows "ur_ok (upa_rx_frame seq f s) \<and> ur_pkts (upa_rx_frame seq f s) = ur_pkts s @ [f]"
proof -
  have wf: "rb_wf (ur_ringbuf s)" "rb_cap (ur_ringbuf s) < length (ur_array s)" using assms(1) by (simp_all add: ur_ok_def)
  have "length (rb_idx (ur_ringbuf s)) < rb_cap (ur_ringbuf s)"
    using rb.peek_put_none_iff [OF wf(1)] assms(2) rb_count_le [of "ur_ringbuf s"] by (simp add: le_less)
  from rb.enqueue [OF wf(1) this wf(2), of f] obtain i r' where
    "ringbufindex_put (ur_ringbuf s) = (1, r')" "ringbufindex_peek_put (ur_ringbuf s) = int i" "rb_wf r'"
    "rb_cap r' = rb_cap (ur_ringbuf s)" "map ((!) ((ur_array s)[i := f])) (rb_idx r') = ur_pkts s @ [f]"
    by (auto simp: ur_pkts_def)
  then show ?thesis using wf by (simp add: upa_rx_frame_def ur_ok_def ur_pkts_def)
qed

lemma bit_bitmap_frame:
  "seq \<noteq> 0 \<Longrightarrow> bit (ur_bitmap (upa_rx_frame seq f s)) i \<longleftrightarrow> bit (ur_bitmap s) i \<or> i < 16 \<and> unat seq = Suc i"
proof -
  assume "seq \<noteq> 0"
  then have "unat seq \<noteq> 0" by (simp add: unat_eq_0)
  then show ?thesis
    by (cases "unat seq") (auto simp: upa_rx_frame_def bit_or_iff bit_push_bit_iff bit_1_iff bit_exp_iff)
qed

lemma rx_loop_spec:
  assumes "upa_rx_loop k evs s = Some s'" "ur_ok s"
  shows "\<exists>m. ur_ok s' \<and> ur_pkts s' = ur_pkts s @ map snd (upa_heard (take m evs)) \<and>
    (\<forall>i. bit (ur_bitmap s') i \<longleftrightarrow> bit (ur_bitmap s) i \<or> i < 16 \<and> Suc i \<in> unat ` fst ` set (upa_heard (take m evs)))"
  using assms
proof (induction evs arbitrary: s)
  case Nil
  then show ?case by simp
next
  case (Cons ev evs)
  show ?case
  proof (cases "s' = s")
    case True
    then show ?thesis using Cons.prems(2) by (intro exI [of _ 0]) simp
  next
    case False
    note step = Cons.prems(1) [unfolded upa_rx_loop.simps]
    have room: "ringbufindex_peek_put (ur_ringbuf s) \<noteq> -1" using step False by (auto split: if_splits)
    show ?thesis
    proof (cases ev)
      case Ev_timeout
      then show ?thesis using step False by (simp split: if_splits)
    next
      case (Ev_other late)
      then have "upa_rx_loop k evs s = Some s'" using step False by (simp split: if_splits)
      from Cons.IH [OF this Cons.prems(2)] obtain m where "ur_ok s' \<and> ur_pkts s' = ur_pkts s @ map snd (upa_heard (take m evs)) \<and>
        (\<forall>i. bit (ur_bitmap s') i \<longleftrightarrow> bit (ur_bitmap s) i \<or> i < 16 \<and> Suc i \<in> unat ` fst ` set (upa_heard (take m evs)))"
        by blast
      then show ?thesis by (intro exI [of _ "Suc m"]) (simp add: Ev_other)
    next
      case (Ev_frame seq f late)
      let ?s = "upa_rx_frame seq f s"
      have seq: "seq \<noteq> 0" using step Ev_frame room by (auto split: if_splits)
      note fr = rx_frame_spec [OF Cons.prems(2) room, of seq f]
      have "(if unat (ur_last_seq ?s) \<ge> k \<or> late then Some ?s else upa_rx_loop k evs ?s) = Some s'"
        using step unfolding Ev_frame Let_def by (simp only: room seq if_False upa_event.case)
      then consider "?s = s'" | "upa_rx_loop k evs ?s = Some s'" by (meson option.inject)
      then show ?thesis
      proof cases
        case 1
        have heard: "upa_heard (take (Suc 0) (ev # evs)) = [(seq, f)]" by (simp add: Ev_frame)
        show ?thesis
        proof (intro exI [of _ "Suc 0"] conjI allI)
          show "bit (ur_bitmap s') i \<longleftrightarrow> bit (ur_bitmap s) i \<or>
              i < 16 \<and> Suc i \<in> unat ` fst ` set (upa_heard (take (Suc 0) (ev # evs)))" for i
            unfolding 1 [symmetric] bit_bitmap_frame [OF seq] heard by (auto simp del: bit_simps)
        qed (use fr in \<open>simp_all add: 1 [symmetric] heard [simplified]\<close>)
      next
        case 2
        have "ur_ok ?s" using fr by blast
        from Cons.IH [OF 2 this] obtain m where m: "ur_ok s'" "ur_pkts s' = ur_pkts ?s @ map snd (upa_heard (take m evs))"
          "\<And>i. bit (ur_bitmap s') i \<longleftrightarrow> bit (ur_bitmap ?s) i \<or> i < 16 \<and> Suc i \<in> unat ` fst ` set (upa_heard (take m evs))"
          by blast
        have heard: "upa_heard (take (Suc m) (ev # evs)) = (seq, f) # upa_heard (take m evs)" by (simp add: Ev_frame)
        show ?thesis
        proof (intro exI [of _ "Suc m"] conjI allI)
          show "ur_ok s'" by (rule m(1))
          show "ur_pkts s' = ur_pkts s @ map snd (upa_heard (take (Suc m) (ev # evs)))"
            using fr unfolding m(2) heard by simp
          show "bit (ur_bitmap s') i \<longleftrightarrow> bit (ur_bitmap s) i \<or>
              i < 16 \<and> Suc i \<in> unat ` fst ` set (upa_heard (take (Suc m) (ev # evs)))" for i
            unfolding m(3) bit_bitmap_frame [OF seq] heard by (simp only: list.set image_insert fst_conv insert_iff) metis
        qed
      qed
    qed
  qed
qed

section \<open>The receiver's choice\<close>

text \<open>The slots that \<open>i\<close> packets of the batch need according to the bitmap.\<close>

definition upa_bitmap_slots :: "u8 \<Rightarrow> nat \<Rightarrow> nat" where
  "upa_bitmap_slots bitmap i = 1 + card {j. j \<le> i \<and> bit bitmap j}"

lemma upa_bitmap_slots_0: "upa_bitmap_slots b 0 = (if bit b 0 then 2 else 1)"
  by (simp add: upa_bitmap_slots_def cong: conj_cong)

lemma upa_bitmap_slots_Suc: "upa_bitmap_slots b (Suc i) = upa_bitmap_slots b i + (if bit b (Suc i) then 1 else 0)"
proof -
  have "{j. j \<le> Suc i \<and> bit b j} = {j. j \<le> i \<and> bit b j} \<union> (if bit b (Suc i) then {Suc i} else {})"
    by (auto simp: le_Suc_eq)
  then show ?thesis by (simp add: upa_bitmap_slots_def)
qed

lemma upa_bitmap_slots_bounds: "1 \<le> upa_bitmap_slots b i" "upa_bitmap_slots b i \<le> 9"
proof -
  have "{j. j \<le> i \<and> bit b j} \<subseteq> {..<8}" by (auto dest: bit_imp_le_length)
  then have "card {j. j \<le> i \<and> bit b j} \<le> 8" using card_mono [of "{..<8 :: nat}"] by fastforce
  then show "1 \<le> upa_bitmap_slots b i" "upa_bitmap_slots b i \<le> 9" by (simp_all add: upa_bitmap_slots_def)
qed

lemma slots_loop:
  assumes "a \<le> b" "b < length xs" "\<And>i. i < a \<Longrightarrow> unat (xs ! i) = upa_bitmap_slots bm i" "0 < a"
  shows "i \<le> b \<Longrightarrow> unat (upa_slots_loop bm [a..<Suc b] xs ! i) = upa_bitmap_slots bm i"
  using assms
proof (induction "Suc b - a" arbitrary: a xs)
  case (Suc n)
  have c: "[a..<Suc b] = a # [Suc a..<Suc b]" using Suc.prems(2) by (simp add: upt_conv_Cons del: upt_Suc)
  obtain a' where a: "a = Suc a'" using Suc.prems(5) by (cases a) simp_all
  let ?v = "if bit bm a then xs ! (a - 1) + 1 else xs ! (a - 1)"
  have prev: "unat (xs ! a') = upa_bitmap_slots bm a'" using Suc.prems(4) a by simp
  have "unat (xs ! a' + 1) = upa_bitmap_slots bm a' + 1"
    using upa_bitmap_slots_bounds(2) [of bm a'] by (simp add: unat_add_mod prev)
  then have v: "unat ?v = upa_bitmap_slots bm a" by (simp add: a prev upa_bitmap_slots_Suc)
  have new: "unat (xs[a := ?v] ! i) = upa_bitmap_slots bm i" if "i < Suc a" for i
    using that Suc.prems v by (cases "i = a") auto
  show ?case
  proof (cases "a = b")
    case True
    then show ?thesis using new [of i] Suc.prems(1) by (simp only: c upa_slots_loop.simps) simp
  next
    case False
    then have "unat (upa_slots_loop bm [Suc a..<Suc b] (xs[a := ?v]) ! i) = upa_bitmap_slots bm i"
      using Suc.prems Suc.hyps(2) new by (intro Suc.hyps(1)) auto
    then show ?thesis by (simp only: c upa_slots_loop.simps)
  qed
qed simp

lemma slots_required:
  assumes "unat m < nat (uf_max_incoming c)" "i \<le> unat m"
  shows "unat (upa_num_of_slots_required c bm m ! i) = upa_bitmap_slots bm i"
proof -
  let ?xs = "(replicate (nat (uf_max_incoming c)) 0)[0 := (if bit bm 0 then 1 + 1 else 1 :: u8)]"
  have "0 < nat (uf_max_incoming c)" using assms(1) by linarith
  then have z: "unat (?xs ! 0) = upa_bitmap_slots bm 0" by (simp add: upa_bitmap_slots_0)
  show ?thesis
  proof (cases "unat m = 0")
    case True
    then show ?thesis using z assms(2) by (simp add: upa_num_of_slots_required_def)
  next
    case False
    show ?thesis
      unfolding upa_num_of_slots_required_def
      by (rule slots_loop) (use False assms z in \<open>simp_all add: less_Suc0\<close>)
  qed
qed

lemma max_gain_loop:
  fixes xs :: "u8 list" and r a b :: nat and mg :: int
  assumes "a \<le> b" "100 \<le> mg"
  defines "k \<equiv> upa_max_gain_loop xs [a..<b] mg r"
  shows "(k = r \<and> (\<forall>i. a \<le> i \<and> i < b \<longrightarrow> upa_gain xs i \<le> 100 \<or> upa_gain xs i < mg)) \<or>
    (a \<le> k \<and> k < b \<and> upa_gain xs k > 100 \<and> upa_gain xs k \<ge> mg \<and>
      (\<forall>i. a \<le> i \<and> i < b \<longrightarrow> upa_gain xs i \<le> upa_gain xs k \<and> (upa_gain xs i = upa_gain xs k \<longrightarrow> i \<le> k)))"
  using assms(1,2) unfolding k_def
proof (induction "b - a" arbitrary: a mg r)
  case (Suc n)
  let ?g = "upa_gain xs"
  have a: "a < b" "[a..<b] = a # [Suc a..<b]" using Suc.hyps(2) by (simp_all add: upt_conv_Cons)
  have n: "n = b - Suc a" using Suc.hyps(2) by simp
  have range: "P i" if "a \<le> i \<and> i < b" "P a" "Suc a \<le> i \<and> i < b \<Longrightarrow> P i" for P i
    using that by (cases "i = a") auto
  show ?case
  proof (cases "?g a > 100 \<and> ?g a \<ge> mg")
    case True
    have s: "upa_max_gain_loop xs [a..<b] mg r = upa_max_gain_loop xs [Suc a..<b] (?g a) a"
      unfolding a(2) using True by (simp add: Let_def)
    define k where "k = upa_max_gain_loop xs [Suc a..<b] (?g a) a"
    have "(k = a \<and> (\<forall>i. Suc a \<le> i \<and> i < b \<longrightarrow> ?g i \<le> 100 \<or> ?g i < ?g a)) \<or>
      (Suc a \<le> k \<and> k < b \<and> ?g k > 100 \<and> ?g k \<ge> ?g a \<and>
        (\<forall>i. Suc a \<le> i \<and> i < b \<longrightarrow> ?g i \<le> ?g k \<and> (?g i = ?g k \<longrightarrow> i \<le> k)))"
      unfolding k_def using Suc.prems a(1) True by (intro Suc.hyps(1) [OF n]) auto
    then have "a \<le> k \<and> k < b \<and> ?g k > 100 \<and> ?g k \<ge> mg \<and>
      (\<forall>i. a \<le> i \<and> i < b \<longrightarrow> ?g i \<le> ?g k \<and> (?g i = ?g k \<longrightarrow> i \<le> k))"
    proof
      assume k: "k = a \<and> (\<forall>i. Suc a \<le> i \<and> i < b \<longrightarrow> ?g i \<le> 100 \<or> ?g i < ?g a)"
      have "?g i \<le> ?g a \<and> (?g i = ?g a \<longrightarrow> i \<le> a)" if "a \<le> i \<and> i < b" for i
        using that by (rule range) (use k True in force)+
      then show ?thesis using k True a(1) by simp
    next
      assume k: "Suc a \<le> k \<and> k < b \<and> ?g k > 100 \<and> ?g k \<ge> ?g a \<and>
        (\<forall>i. Suc a \<le> i \<and> i < b \<longrightarrow> ?g i \<le> ?g k \<and> (?g i = ?g k \<longrightarrow> i \<le> k))"
      have "?g i \<le> ?g k \<and> (?g i = ?g k \<longrightarrow> i \<le> k)" if "a \<le> i \<and> i < b" for i
        using that by (rule range) (use k in auto)
      then show ?thesis using k True by simp
    qed
    then show ?thesis unfolding s k_def by blast
  next
    case False
    have s: "upa_max_gain_loop xs [a..<b] mg r = upa_max_gain_loop xs [Suc a..<b] mg r"
      unfolding a(2) by (simp only: upa_max_gain_loop.simps Let_def if_not_P [OF False])
    define k where "k = upa_max_gain_loop xs [Suc a..<b] mg r"
    have "(k = r \<and> (\<forall>i. Suc a \<le> i \<and> i < b \<longrightarrow> ?g i \<le> 100 \<or> ?g i < mg)) \<or>
      (Suc a \<le> k \<and> k < b \<and> ?g k > 100 \<and> ?g k \<ge> mg \<and>
        (\<forall>i. Suc a \<le> i \<and> i < b \<longrightarrow> ?g i \<le> ?g k \<and> (?g i = ?g k \<longrightarrow> i \<le> k)))"
      unfolding k_def using Suc.prems a(1) by (intro Suc.hyps(1) [OF n]) auto
    then show ?thesis
    proof
      assume k: "k = r \<and> (\<forall>i. Suc a \<le> i \<and> i < b \<longrightarrow> ?g i \<le> 100 \<or> ?g i < mg)"
      have "?g i \<le> 100 \<or> ?g i < mg" if "a \<le> i \<and> i < b" for i
        using that by (rule range) (use k False in auto)
      then show ?thesis unfolding s k_def [symmetric] using k by blast
    next
      assume k: "Suc a \<le> k \<and> k < b \<and> ?g k > 100 \<and> ?g k \<ge> mg \<and>
        (\<forall>i. Suc a \<le> i \<and> i < b \<longrightarrow> ?g i \<le> ?g k \<and> (?g i = ?g k \<longrightarrow> i \<le> k))"
      have "?g i \<le> ?g k \<and> (?g i = ?g k \<longrightarrow> i \<le> k)" if "a \<le> i \<and> i < b" for i
        using that by (rule range) (use k False in force)+
      moreover have "a \<le> k" using k by simp
      ultimately show ?thesis unfolding s k_def [symmetric] using k by blast
    qed
  qed
qed simp

lemma max_pkts_loop:
  fixes xs :: "u8 list" and r a b :: nat
  assumes "a \<le> b"
  defines "k \<equiv> upa_max_pkts_loop xs [a..<b] r"
  shows "(k = r \<and> (\<forall>i. a \<le> i \<and> i < b \<longrightarrow> upa_gain xs i \<le> 100)) \<or>
    (a \<le> k \<and> k < b \<and> upa_gain xs k > 100 \<and> (\<forall>i. k < i \<and> i < b \<longrightarrow> upa_gain xs i \<le> 100))"
  using assms(1) unfolding k_def
proof (induction "b - a" arbitrary: a r)
  case (Suc n)
  have a: "a < b" "[a..<b] = a # [Suc a..<b]" using Suc.hyps(2) by (simp_all add: upt_conv_Cons)
  let ?r = "if upa_gain xs a > 100 then a else r"
  have s: "upa_max_pkts_loop xs [a..<b] r = upa_max_pkts_loop xs [Suc a..<b] ?r"
    unfolding a(2) by (simp add: Let_def)
  have "n = b - Suc a" "Suc a \<le> b" using Suc.hyps(2) a by simp_all
  note IH = Suc.hyps(1) [OF this, of ?r]
  define k where "k = upa_max_pkts_loop xs [Suc a..<b] ?r"
  from IH [folded k_def] show ?case
  proof
    assume k: "k = ?r \<and> (\<forall>i. Suc a \<le> i \<and> i < b \<longrightarrow> upa_gain xs i \<le> 100)"
    show ?thesis
    proof (cases "upa_gain xs a > 100")
      case True
      then show ?thesis unfolding s k_def [symmetric] using k a(1) by (intro disjI2) simp
    next
      case False
      then have "upa_gain xs i \<le> 100" if "a \<le> i \<and> i < b" for i using that k by (cases "i = a") auto
      then show ?thesis unfolding s k_def [symmetric] using k False by (intro disjI1) simp
    qed
  next
    assume "Suc a \<le> k \<and> k < b \<and> upa_gain xs k > 100 \<and> (\<forall>i. k < i \<and> i < b \<longrightarrow> upa_gain xs i \<le> 100)"
    then show ?thesis unfolding s k_def [symmetric] by (intro disjI2) simp
  qed
qed simp

section \<open>The sender's estimate\<close>

text \<open>
  What the sender expects: the time from the start of the first packet of the batch to the end of the \<open>i\<close>-th,
  and the number of slots of the whole exchange with the batch acknowledgement.
\<close>

definition upa_len :: "upa_env \<Rightarrow> tsch_q \<Rightarrow> nat \<Rightarrow> nat \<Rightarrow> int" where
  "upa_len e q n i = ue_datalen e (tp_qb (tq_pkt q (tq_pkts q n ! i)))"

fun upa_tx_sum :: "upa_env \<Rightarrow> (nat \<Rightarrow> int) \<Rightarrow> nat \<Rightarrow> u32" where
  "upa_tx_sum e len 0 = 0"
| "upa_tx_sum e len (Suc i) = upa_tx_sum e len i +
     (ue_upa e (if i = 0 then Upa_tx_offset_1 else Upa_tx_offset_2) + TSCH_PACKET_DURATION e (len (Suc i)))"

definition upa_slots_with :: "upa_env \<Rightarrow> (nat \<Rightarrow> int) \<Rightarrow> u32 \<Rightarrow> nat \<Rightarrow> int" where
  "upa_slots_with e len trig i =
     (if i = 0 then upa_timeslots e trig
      else upa_timeslots e (trig + (upa_tx_sum e len i + ue_upa e Upa_tx_ack_delay + ue_upa e Upa_max_ack +
        ue_upa e Upa_tx_process_b_ack)))"

definition upa_expected_slots :: "upa_env \<Rightarrow> (nat \<Rightarrow> int) \<Rightarrow> u32 \<Rightarrow> nat \<Rightarrow> int" where
  "upa_expected_slots e len trig i = Max (upa_slots_with e len trig ` {..i})"

lemma upa_expected_simps:
  "upa_expected_slots e len trig 0 = upa_timeslots e trig"
  "upa_expected_slots e len trig (Suc i) = max (upa_expected_slots e len trig i) (upa_slots_with e len trig (Suc i))"
  by (simp_all add: upa_expected_slots_def upa_slots_with_def [of _ _ _ 0] atMost_Suc max.commute)

definition upa_slot_bit :: "upa_env \<Rightarrow> (nat \<Rightarrow> int) \<Rightarrow> u32 \<Rightarrow> nat \<Rightarrow> bool" where
  "upa_slot_bit e len trig j \<longleftrightarrow>
     (if j = 0 then upa_expected_slots e len trig 0 > 1
      else upa_expected_slots e len trig j > upa_expected_slots e len trig (j - 1))"

lemma upa_step_state:
  fixes e len trig
  defines "T \<equiv> upa_expected_slots e len trig"
  shows "\<exists>b'. upa_utility_step e trig (Suc i) (len (Suc i)) (b, T i, upa_tx_sum e len i) =
      (b', T (Suc i), upa_tx_sum e len (Suc i)) \<and>
    (\<forall>j. bit b' j \<longleftrightarrow> bit b j \<or> j < 8 \<and> j = Suc i \<and> T (Suc i) > T i)"
proof -
  have E: "T (Suc i) = max (T i) (upa_slots_with e len trig (Suc i))" by (simp add: T_def upa_expected_simps)
  define m where "m = push_bit (Suc i) (1 :: u8)"
  have bits: "bit (b OR m) j \<longleftrightarrow> bit b j \<or> j < 8 \<and> j = Suc i" for j
    unfolding m_def by (simp only: bit_or_iff bit_push_bit_1) simp
  show ?thesis
    unfolding upa_utility_step_def prod.case Let_def m_def [symmetric]
    by (cases "upa_slots_with e len trig (Suc i) > T i") (simp_all add: E upa_slots_with_def bits add.assoc)
qed

lemma upa_next_packet:
  assumes wf: "tq_wf q" and un: "\<not> tq_locked q" and n: "n \<in> ran (tq_map q)" and i: "i < length (tq_pkts q n)"
  shows "tsch_queue_upa_get_next_packet_for_nbr q (Some n) (of_nat i) = Some (tq_pkts q n ! i)"
proof -
  let ?x = "tq_nbr q n" and ?r = "tn_tx_ringbuf (tq_nbr q n)"
  have ok: "tn_ok ?x" using tq_wfD(2) [OF wf n] by blast
  have i': "Suc i \<le> length (nbr_pkts ?x)" using i by (simp add: tq_pkts_def)
  have "i < 16" using i' nbr_pkts_length [OF ok] by simp
  then have u: "uint (of_nat i :: u8) = int i" by (simp add: uint_eq_int_iff unat_of_nat_u8)
  have "rb_idx ?r \<noteq> []" using i' unfolding nbr_pkts_def by (metis length_map list.size(3) not_less_eq_eq zero_le)
  moreover have "rb_wf ?r" using ok by (simp add: tn_ok_def)
  ultimately have ne: "ringbufindex_peek_get ?r \<noteq> -1" using rb.peek_get_none_iff by blast
  have "upa_batch ?x (Suc i) ! i = nbr_pkts ?x ! i" using i' by (simp add: upa_batch_take [OF ok])
  moreover have "upa_batch ?x (Suc i) ! i = tn_tx_array ?x ! nat
      (if ringbufindex_peek_get ?r + int i < int TSCH_QUEUE_NUM_PER_NEIGHBOR then ringbufindex_peek_get ?r + int i
       else ringbufindex_peek_get ?r + int i - int TSCH_QUEUE_NUM_PER_NEIGHBOR)"
    by (simp add: upa_batch_def upa_head_indices_def Let_def del: upt_Suc)
  ultimately show ?thesis
    using un ne u
    by (simp add: tsch_queue_upa_get_next_packet_for_nbr_def tsch_is_locked_def Let_def tq_pkts_def split: if_splits)
qed

lemma upa_loop_state:
  fixes e :: upa_env and trig :: u32
  assumes wf: "tq_wf q" and un: "\<not> tq_locked q" and n: "n \<in> ran (tq_map q)" and k: "k < length (tq_pkts q n)"
  defines "T \<equiv> upa_expected_slots e (upa_len e q n) trig"
  shows "i \<le> k \<Longrightarrow> (\<forall>j. bit b j \<longleftrightarrow> j < 8 \<and> j \<le> i \<and> upa_slot_bit e (upa_len e q n) trig j) \<Longrightarrow>
    \<exists>b'. upa_utility_loop e q n trig [Suc i..<Suc k] (b, T i, upa_tx_sum e (upa_len e q n) i) =
      Some (b', T k, upa_tx_sum e (upa_len e q n) k) \<and>
    (\<forall>j. bit b' j \<longleftrightarrow> j < 8 \<and> j \<le> k \<and> upa_slot_bit e (upa_len e q n) trig j)"
proof (induction "k - i" arbitrary: i b)
  case 0
  then have "i = k" by simp
  then show ?case using 0 by simp
next
  case (Suc m)
  let ?l = "upa_len e q n"
  have c: "[Suc i..<Suc k] = Suc i # [Suc (Suc i)..<Suc k]" using Suc.hyps(2) by (simp add: upt_conv_Cons del: upt_Suc)
  have si: "Suc i \<le> k" "m = k - Suc i" using Suc.hyps(2) by simp_all
  have nxt: "tsch_queue_upa_get_next_packet_for_nbr q (Some n) (of_nat (Suc i)) = Some (tq_pkts q n ! Suc i)"
    by (rule upa_next_packet [OF wf un n]) (use si k in simp)
  from upa_step_state [of e trig i ?l b] obtain b1 where
    b1: "upa_utility_step e trig (Suc i) (?l (Suc i)) (b, T i, upa_tx_sum e ?l i) = (b1, T (Suc i), upa_tx_sum e ?l (Suc i))"
    "\<And>j. bit b1 j \<longleftrightarrow> bit b j \<or> j < 8 \<and> j = Suc i \<and> T (Suc i) > T i"
    by (auto simp: T_def)
  have "bit b1 j \<longleftrightarrow> j < 8 \<and> j \<le> Suc i \<and> upa_slot_bit e ?l trig j" for j
  proof (cases "j = Suc i")
    case True
    have "\<not> bit b (Suc i)" using Suc.prems(2) by simp
    then show ?thesis using b1(2) [of j] by (simp add: True upa_slot_bit_def T_def)
  next
    case False
    then have "bit b1 j \<longleftrightarrow> bit b j" "j \<le> Suc i \<longleftrightarrow> j \<le> i" using b1(2) [of j] by auto
    then show ?thesis using Suc.prems(2) by simp
  qed
  then have "\<forall>j. bit b1 j \<longleftrightarrow> j < 8 \<and> j \<le> Suc i \<and> upa_slot_bit e ?l trig j" by blast
  from Suc.hyps(1) [OF si(2,1) this] show ?case
    unfolding c upa_utility_loop.simps nxt option.case using b1(1) by (simp add: upa_len_def)
qed

lemma slot_utility:
  fixes e :: upa_env and p :: int
  assumes wf: "tq_wf q" and un: "\<not> tq_locked q" and n: "n \<in> ran (tq_map q)" and k: "k < length (tq_pkts q n)"
  defines "trig \<equiv> upa_triggering_duration e (ue_datalen e (tp_qb (tq_pkt q p)))"
  shows "\<exists>b a. upa_calculate_slot_utility e q n p k = Some (b, a) \<and>
    (\<forall>j. bit b j \<longleftrightarrow> j < 8 \<and> j \<le> k \<and> upa_slot_bit e (upa_len e q n) trig j)"
proof -
  let ?l = "upa_len e q n"
  define b0 where "b0 = (if upa_timeslots e trig > 1 then push_bit 0 1 else 0 :: u8)"
  have b0: "\<forall>j. bit b0 j \<longleftrightarrow> j < 8 \<and> j \<le> 0 \<and> upa_slot_bit e ?l trig j"
    by (auto simp: b0_def upa_slot_bit_def upa_expected_simps bit_1_iff)
  from upa_loop_state [OF wf un n k _ b0] obtain b' where
    "upa_utility_loop e q n trig [Suc 0..<Suc k] (b0, upa_expected_slots e ?l trig 0, upa_tx_sum e ?l 0) =
      Some (b', upa_expected_slots e ?l trig k, upa_tx_sum e ?l k)"
    "\<forall>j. bit b' j \<longleftrightarrow> j < 8 \<and> j \<le> k \<and> upa_slot_bit e ?l trig j" by blast
  then show ?thesis
    by (simp add: upa_calculate_slot_utility_def trig_def [symmetric] Let_def b0_def [symmetric] upa_expected_simps
        del: upt_Suc)
qed

lemma info_fields:
  fixes b :: u8
  assumes "k < 256"
  defines "info \<equiv> push_bit 8 (word_of_int (int k)) + ucast b :: u16"
  shows "unat (drop_bit 8 info AND 0xFF) = k" "ucast (info AND 0xFF) = b"
proof -
  have m: "(0xFF :: u16) = mask 8" by (simp add: mask_eq_exp_minus_1)
  have b: "unat (ucast b :: u16) = unat b" using u8_less [of b] by (simp add: unsigned_ucast_eq take_bit_nat_eq_self del: u8_less)
  have "unat (word_of_int (int k) :: u16) = k" using assms(1) by (simp add: unat_of_nat_u16)
  then have "unat (push_bit 8 (word_of_int (int k)) :: u16) = k * 256"
    using assms(1) by (simp add: push_bit_eq_mult unat_word_ariths(2))
  then have info: "unat info = k * 256 + unat b"
    using assms(1) u8_less [of b] by (simp add: info_def unat_add_mod b del: u8_less)
  have "take_bit 16 (unat info) = unat info" using u16_less [of info] by (simp add: take_bit_nat_eq_self del: u16_less)
  then have "unat (drop_bit 8 info) = unat info div 256" by (simp only: unsigned_drop_bit_eq) (simp add: drop_bit_eq_div)
  then have "unat (drop_bit 8 info) = k" using u8_less [of b] by (simp add: info del: u8_less)
  then show "unat (drop_bit 8 info AND 0xFF) = k" using assms(1) unfolding m by (simp add: unat_and_mask)
  have "unat (info AND 0xFF) = unat b" unfolding m by (simp add: unat_and_mask info)
  then show "ucast (info AND 0xFF) = b"
    by (simp only: word_unat_eq_iff unsigned_ucast_eq) (simp add: take_bit_nat_eq_self)
qed

lemma pkts_to_request_bounds:
  assumes "tq_wf q" "n \<in> ran (tq_map q)" "0 < upa_pkts_to_request c q n dq"
  shows "upa_pkts_to_request c q n dq < int (length (tq_pkts q n))" "length (tq_pkts q n) \<le> 15"
    "upa_pkts_to_request c q n dq + ringbufindex_elements dq \<le> uf_dequeued_size c - 2"
    "upa_pkts_to_request c q n dq \<le> uf_max_incoming c - 2"
proof -
  have ok: "tn_ok (tq_nbr q n)" using tq_wfD(2) [OF assms(1,2)] by blast
  then have cnt: "tsch_queue_nbr_packet_count q (Some n) = int (length (tq_pkts q n))"
    using rb.elements_idx [of "tn_tx_ringbuf (tq_nbr q n)"]
    by (simp add: tsch_queue_nbr_packet_count_def tn_ok_def tq_pkts_def nbr_pkts_def)
  show "upa_pkts_to_request c q n dq < int (length (tq_pkts q n))"
    "upa_pkts_to_request c q n dq + ringbufindex_elements dq \<le> uf_dequeued_size c - 2"
    "upa_pkts_to_request c q n dq \<le> uf_max_incoming c - 2"
    using assms(3) unfolding upa_pkts_to_request_def Let_def cnt by (auto split: if_splits)
  show "length (tq_pkts q n) \<le> 15" using nbr_pkts_length [OF ok] by (simp add: tq_pkts_def)
qed

lemma request_spec:
  assumes wf: "tq_wf q" and un: "\<not> tq_locked q" and n: "n \<in> ran (tq_map q)"
    and req: "upa_request e c q n p dq = Some info"
  defines "trig \<equiv> upa_triggering_duration e (ue_datalen e (tp_qb (tq_pkt q p)))"
  defines "k \<equiv> unat (drop_bit 8 info AND 0xFF)"
  shows "0 < k" "int k = upa_pkts_to_request c q n dq" "k < length (tq_pkts q n)"
    "bit (ucast (info AND 0xFF) :: u8) j \<longleftrightarrow> j < 8 \<and> j \<le> k \<and> upa_slot_bit e (upa_len e q n) trig j"
proof -
  let ?k = "upa_pkts_to_request c q n dq"
  have pos: "0 < ?k" using req by (simp add: upa_request_def Let_def split: if_splits)
  note bounds = pkts_to_request_bounds [OF wf n pos]
  define k' where "k' = nat ?k"
  have k': "int k' = ?k" "k' < length (tq_pkts q n)" "k' < 256" "0 < k'"
    using pos bounds(1,2) by (simp_all add: k'_def)
  from slot_utility [OF wf un n k'(2), of e p] obtain b a where
    u: "upa_calculate_slot_utility e q n p k' = Some (b, a)"
    "\<forall>j. bit b j \<longleftrightarrow> j < 8 \<and> j \<le> k' \<and> upa_slot_bit e (upa_len e q n) trig j" unfolding trig_def by blast
  have "info = push_bit 8 (word_of_int (int k')) + ucast b"
    using req pos u(1) by (simp add: upa_request_def Let_def k'_def)
  note f = info_fields [OF k'(3), of b, folded this]
  show "0 < k" "int k = ?k" "k < length (tq_pkts q n)" using k' by (simp_all add: k_def f(1))
  show "bit (ucast (info AND 0xFF) :: u8) j \<longleftrightarrow> j < 8 \<and> j \<le> k \<and> upa_slot_bit e (upa_len e q n) trig j"
    unfolding f(2) k_def f(1) using u(2) by simp
qed

lemma slot_counts:
  fixes T :: "nat \<Rightarrow> int"
  assumes bits: "\<And>j. j \<le> k \<Longrightarrow> j < 8 \<Longrightarrow> bit bm j \<longleftrightarrow> (if j = 0 then T 0 > 1 else T j > T (j - 1))"
    and mono: "\<And>j. T j \<le> T (Suc j)" and one: "1 \<le> T 0"
  shows "i \<le> k \<Longrightarrow> i < 8 \<Longrightarrow> int (upa_bitmap_slots bm i) \<le> T i \<and>
    (int (upa_bitmap_slots bm i) = T i \<longleftrightarrow> T 0 \<le> 2 \<and> (\<forall>j < i. T (Suc j) \<le> T j + 1))"
proof (induction i)
  case 0
  then show ?case using bits [of 0] one by (auto simp: upa_bitmap_slots_0)
next
  case (Suc i)
  have "bit bm (Suc i) \<longleftrightarrow> T (Suc i) > T i" using bits [of "Suc i"] Suc.prems by simp
  then have s: "int (upa_bitmap_slots bm (Suc i)) = int (upa_bitmap_slots bm i) + (if T (Suc i) > T i then 1 else 0)"
    by (simp add: upa_bitmap_slots_Suc)
  have IH: "int (upa_bitmap_slots bm i) \<le> T i"
    "int (upa_bitmap_slots bm i) = T i \<longleftrightarrow> T 0 \<le> 2 \<and> (\<forall>j < i. T (Suc j) \<le> T j + 1)"
    using Suc by simp_all
  have "(\<forall>j < Suc i. T (Suc j) \<le> T j + 1) \<longleftrightarrow> (\<forall>j < i. T (Suc j) \<le> T j + 1) \<and> T (Suc i) \<le> T i + 1"
    by (auto simp: less_Suc_eq)
  moreover have "int (upa_bitmap_slots bm (Suc i)) = T (Suc i) \<longleftrightarrow>
      int (upa_bitmap_slots bm i) = T i \<and> T (Suc i) \<le> T i + 1"
    using s IH(1) mono [of i] by auto
  ultimately show ?case using IH s mono [of i] by auto
qed

lemma if_some: "k \<in> G \<Longrightarrow> \<forall>i \<in> G. P i \<Longrightarrow> if G = {} then Q else k \<in> G \<and> (\<forall>i \<in> G. P i)"
  by auto

section \<open>Properties\<close>

text \<open>
  (C34) After a batch the queue of the neighbor holds the packets of the batch that are not done, in their
  order, before the packets that were not in the batch; the packets that are done (acknowledged, or at their last
  transmission) are appended to the ring of finished packets in order. Each packet of the batch
  counts one transmission more and carries its result, no other packet, queue or backoff window
  changes: the queue is never empty while the results are processed, so the reset of the backoff for an
  emptied queue does not happen.
\<close>

theorem upa_batch_removes_done:
  assumes "tq_wf q" "n \<in> ran (tq_map q)" "0 < k" "k \<le> length (tq_pkts q n)"
    and "td_ok d" "length (td_pkts d) + k \<le> rb_cap (td_ringbuf d)"
    and "upa_batch_end n info k (q, d) = (q', d')"
  shows "tq_wf q' \<and> tq_mem q' = tq_mem q \<and>
    (let ps = tq_pkts q n;
         ended = {i. bit info i \<or> tp_transmissions (tq_pkt q (ps ! i)) + 1 \<ge> tp_max_transmissions (tq_pkt q (ps ! i))}
     in tq_pkts q' = (tq_pkts q)(n := nths (take k ps) (- ended) @ drop k ps) \<and>
        td_pkts d' = td_pkts d @ nths (take k ps) ended \<and>
        (\<forall>i < k. tq_pkt q' (ps ! i) = (tq_pkt q (ps ! i))
           \<lparr>tp_transmissions := tp_transmissions (tq_pkt q (ps ! i)) + 1,
            tp_ret := (if bit info i then MAC_TX_OK else MAC_TX_NOACK)\<rparr>) \<and>
        (\<forall>p. p \<notin> set (take k ps) \<longrightarrow> tq_pkt q' p = tq_pkt q p)) \<and>
    (\<forall>m. tn_backoff_window (tq_nbr q' m) = tn_backoff_window (tq_nbr q m))"
proof -
  let ?ps = "tq_pkts q n"
  let ?ended = "{i. bit info i \<or> tp_transmissions (tq_pkt q (?ps ! i)) + 1 \<ge> tp_max_transmissions (tq_pkt q (?ps ! i))}"
  have dist: "distinct (take k ?ps)" using tq_wfD(2) [OF assms(1,2)] by simp
  have ended: "nths (take k ?ps) {i. i < length (take k ?ps) \<and> upa_done info i (tq_pkt q (take k ?ps ! i))} = nths (take k ?ps) ?ended"
    "nths (take k ?ps) {i. i < length (take k ?ps) \<and> \<not> upa_done info i (tq_pkt q (take k ?ps ! i))} = nths (take k ?ps) (- ?ended)"
    unfolding nths_upt by (rule arg_cong [OF filter_cong]; simp add: upa_done_def)+
  note * = batch_end_result [OF assms]
  have "tq_pkt q' (?ps ! i) = upa_sent info i (tq_pkt q (?ps ! i))" if "i < k" for i
    using upa_mark_nth [OF dist, of i info 0 "tq_pkt q"] that assms(4) by (simp add: *(3))
  moreover have "\<forall>p. p \<notin> set (take k ?ps) \<longrightarrow> tq_pkt q' p = tq_pkt q p" by (simp add: *(3) upa_mark_other)
  ultimately show ?thesis
    using *(1,2,6) unfolding Let_def *(4,5) rest_gone_nths ended upa_sent_def by blast
qed

text \<open>
  (C35) An exchange loses no packet: whatever part of the batch the receiver hears, in whatever order, and
  whether or not its acknowledgement arrives, each packet of the batch is still queued, or in the
  receiver's input ring, or had its last transmission. When the acknowledgement arrives, no packet
  that the receiver took is queued any more.
\<close>

theorem upa_exchange_loses_nothing:
  assumes "tq_wf q" "n \<in> ran (tq_map q)" "0 < k" "k \<le> length (tq_pkts q n)"
    and "td_ok d" "length (td_pkts d) + k \<le> rb_cap (td_ringbuf d)"
    and rx: "ur_ok r" "ur_bitmap r = 0" "upa_rx_loop k evs r = Some r'"
    and heard: "\<And>seq f. (seq, f) \<in> set (upa_heard evs) \<Longrightarrow>
      1 \<le> unat seq \<and> unat seq \<le> k \<and> f = tq_pkts q n ! (unat seq - 1)"
    and ack: "info = ur_bitmap r' \<or> info = 0"
    and "upa_batch_end n info k (q, d) = (q', d')"
  shows "\<exists>got. ur_pkts r' = ur_pkts r @ got \<and>
    (\<forall>i < k. let p = tq_pkts q n ! i in
       p \<in> set (tq_pkts q' n) \<or> p \<in> set got \<or> tp_transmissions (tq_pkt q p) + 1 \<ge> tp_max_transmissions (tq_pkt q p)) \<and>
    (info = ur_bitmap r' \<longrightarrow> (\<forall>p \<in> set got. p \<notin> set (tq_pkts q' n) \<and> p \<in> set (td_pkts d')))"
proof -
  let ?ps = "take k (tq_pkts q n)"
  from rx_loop_spec [OF rx(3,1)] obtain m where m: "ur_pkts r' = ur_pkts r @ map snd (upa_heard (take m evs))"
    "\<And>i. bit (ur_bitmap r') i \<longleftrightarrow> i < 16 \<and> Suc i \<in> unat ` fst ` set (upa_heard (take m evs))"
    by (auto simp: rx(2))
  have "set (upa_heard (take m evs)) \<subseteq> set (upa_heard evs)" for m
    by (induction evs arbitrary: m rule: upa_heard.induct) (auto simp: take_Cons' split: if_splits)
  then have sub: "1 \<le> unat seq \<and> unat seq \<le> k \<and> f = tq_pkts q n ! (unat seq - 1)"
    if "(seq, f) \<in> set (upa_heard (take m evs))" for seq f using heard that by blast
  have dist: "distinct (tq_pkts q n)" and len: "length (tq_pkts q n) \<le> 15"
    using tq_wfD(2) [OF assms(1,2)] nbr_pkts_length [of "tq_nbr q n"] by (auto simp: tq_pkts_def)
  note result = batch_end_result [OF assms(1-6) assms(12)]
  have queue: "tq_pkts q' n = upa_rest info ?ps (tq_pkt q) @ drop k (tq_pkts q n)" by (simp add: result(4))
  have gone: "td_pkts d' = td_pkts d @ upa_gone info ?ps (tq_pkt q)" by (rule result(5))
  have rest: "tq_pkts q n ! i \<in> set (upa_rest info ?ps (tq_pkt q)) \<longleftrightarrow> \<not> upa_done info i (tq_pkt q (tq_pkts q n ! i))"
    "tq_pkts q n ! i \<in> set (upa_gone info ?ps (tq_pkt q)) \<longleftrightarrow> upa_done info i (tq_pkt q (tq_pkts q n ! i))"
    if "i < k" for i
    using that assms(4) dist unfolding rest_gone_nths set_nths
    by (auto simp: nth_eq_iff_index_eq intro!: exI [of _ i])
  have got: "p \<in> set (map snd (upa_heard (take m evs))) \<longleftrightarrow> (\<exists>i < k. bit (ur_bitmap r') i \<and> p = tq_pkts q n ! i)" for p
  proof
    assume "p \<in> set (map snd (upa_heard (take m evs)))"
    then obtain seq where seq: "(seq, p) \<in> set (upa_heard (take m evs))" by auto
    from sub [OF seq] obtain i where i: "unat seq = Suc i" "i < k" "p = tq_pkts q n ! i" by (cases "unat seq") auto
    have "Suc i \<in> unat ` fst ` set (upa_heard (take m evs))" using seq i(1) by (force simp: image_iff)
    then have "bit (ur_bitmap r') i" unfolding m(2) using i(2) assms(4) len by simp
    then show "\<exists>i < k. bit (ur_bitmap r') i \<and> p = tq_pkts q n ! i" using i(2,3) by blast
  next
    assume "\<exists>i < k. bit (ur_bitmap r') i \<and> p = tq_pkts q n ! i"
    then obtain i seq f where i: "p = tq_pkts q n ! i" "unat seq = Suc i" "(seq, f) \<in> set (upa_heard (take m evs))"
      by (auto simp: m(2))
    then show "p \<in> set (map snd (upa_heard (take m evs)))" using sub [OF i(3)] by force
  qed
  show ?thesis
  proof (intro exI conjI allI impI ballI)
    show "ur_pkts r' = ur_pkts r @ map snd (upa_heard (take m evs))" by (rule m(1))
  next
    fix i assume i: "i < k"
    have "bit info i \<Longrightarrow> bit (ur_bitmap r') i" using ack by auto
    then have "\<not> upa_done info i (tq_pkt q (tq_pkts q n ! i)) \<or> bit (ur_bitmap r') i \<or>
        tp_transmissions (tq_pkt q (tq_pkts q n ! i)) + 1 \<ge> tp_max_transmissions (tq_pkt q (tq_pkts q n ! i))"
      unfolding upa_done_def by blast
    then show "let p = tq_pkts q n ! i in p \<in> set (tq_pkts q' n) \<or> p \<in> set (map snd (upa_heard (take m evs))) \<or>
        tp_transmissions (tq_pkt q p) + 1 \<ge> tp_max_transmissions (tq_pkt q p)"
      unfolding Let_def got queue set_append using rest(1) [OF i] i by blast
  next
    fix p assume "info = ur_bitmap r'" and p: "p \<in> set (map snd (upa_heard (take m evs)))"
    then obtain i where i: "i < k" "bit info i" "p = tq_pkts q n ! i" unfolding got by blast
    then have d: "upa_done info i (tq_pkt q p)" by (simp add: upa_done_def)
    have "p \<in> set ?ps" using nth_mem [of i ?ps] i(1,3) assms(4) by simp
    then have "p \<notin> set (drop k (tq_pkts q n))"
      using set_take_disj_set_drop_if_distinct [OF dist order_refl, of k] by blast
    then show "p \<notin> set (tq_pkts q' n)" unfolding queue using rest(1) [OF i(1)] d i(3) by simp
    show "p \<in> set (td_pkts d')" unfolding gone using rest(2) [OF i(1)] d i(3) by simp
  qed
qed

text \<open>
  (C36) The receiver takes at most what was asked for and what its input ring and (unless it is the root or has no
  children) its queues can hold. Policy 0 takes all of that; policy 1 the number of packets with the
  best ratio of packets to slots, the largest of several; policy 2 the largest number whose
  ratio is better than one packet per slot. With policies 1 and 2 nothing is taken if no number gains.
\<close>

theorem upa_receiver_choice:
  fixes c :: upa_conf and info :: u16 and inb :: ringbufindex and root :: bool
  assumes "rb_wf inb" "0 < uf_max_incoming c"
  shows "let m = unat (upa_max_acceptable_pkts c info inb g root); k = upa_pkts_to_receive c info inb g root;
      gain = (\<lambda>i. (1 + int i) * 100 div int (upa_bitmap_slots (ucast (info AND 0xFF)) i));
      gains = {i. 1 \<le> i \<and> i \<le> m \<and> gain i > 100}
    in int m = min (int (unat (drop_bit 8 info AND 0xFF)))
         (min (max 0 (uf_max_incoming c - 2 - ringbufindex_elements inb))
           (if root then uf_max_incoming c else max 0 (uf_queuebuf_num c - 2 - g))) \<and>
       (uf_policy c = 0 \<longrightarrow> k = m) \<and>
       (uf_policy c = 1 \<longrightarrow> (if gains = {} then k = 0
          else k \<in> gains \<and> (\<forall>i \<in> gains. gain i \<le> gain k \<and> (gain i = gain k \<longrightarrow> i \<le> k)))) \<and>
       (uf_policy c > 1 \<longrightarrow> (if gains = {} then k = 0 else k \<in> gains \<and> (\<forall>i \<in> gains. i \<le> k)))"
proof -
  let ?m = "upa_max_acceptable_pkts c info inb g root"
  let ?bm = "ucast (info AND 0xFF) :: u8"
  let ?xs = "upa_num_of_slots_required c ?bm ?m"
  let ?gain = "\<lambda>i. (1 + int i) * 100 div int (upa_bitmap_slots ?bm i)"
  let ?k = "upa_pkts_to_receive c info inb g root"
  define req where "req = unat (drop_bit 8 info AND 0xFF)"
  have e: "0 \<le> ringbufindex_elements inb" by (simp add: ringbufindex_elements_def)
  have ff: "(0xFF :: u16) = mask 8" by (simp add: mask_eq_exp_minus_1)
  have r: "req < 256" unfolding req_def ff by (simp add: unat_and_mask)
  have ur: "uint (ucast (drop_bit 8 info AND 0xFF) :: u8) = int req"
  proof -
    have "unat (ucast (drop_bit 8 info AND 0xFF) :: u8) = take_bit 8 req"
      by (simp only: unsigned_ucast_eq) (simp add: req_def)
    then show ?thesis using r by (simp add: uint_eq_int_iff take_bit_nat_eq_self)
  qed
  define space where "space = (if root then max 0 (uf_max_incoming c - 2 - ringbufindex_elements inb)
    else min (max 0 (uf_max_incoming c - 2 - ringbufindex_elements inb)) (max 0 (uf_queuebuf_num c - 2 - g)))"
  have room: "(if a - 1 - (b + 1) > 0 then a - 1 - (b + 1) else 0) = max 0 (a - 2 - b)" for a b :: int by simp
  have m': "?m = word_of_int (min (int req) space)"
    unfolding upa_max_acceptable_pkts_def Let_def ur room space_def by simp
  have "0 \<le> space" by (simp add: space_def)
  then have m: "int (unat ?m) = min (int req) space"
    using r unfolding m' by (subst unat_word_of_int_u8) auto
  have "space < uf_max_incoming c" unfolding space_def using e assms(2) by auto
  then have "int (unat ?m) < uf_max_incoming c" using m min.cobounded2 [of "int req" space] by linarith
  then have mi: "unat ?m < nat (uf_max_incoming c)" by (simp only: zless_nat_eq_int_zless)
  have gain: "upa_gain ?xs i = ?gain i" if "i \<le> unat ?m" for i
  proof -
    have "uint (?xs ! i) = int (upa_bitmap_slots ?bm i)"
      using slots_required [OF mi that, of ?bm] by (simp add: uint_eq_int_iff)
    then show ?thesis by (simp add: upa_gain_def)
  qed
  let ?G = "{i. 1 \<le> i \<and> i \<le> unat ?m \<and> ?gain i > 100}"
  have 0: "int (unat ?m) = min (int req) (min (max 0 (uf_max_incoming c - 2 - ringbufindex_elements inb))
      (if root then uf_max_incoming c else max 0 (uf_queuebuf_num c - 2 - g)))"
    unfolding m space_def using e assms(2) by auto
  have 1: "if ?G = {} then ?k = 0
      else ?k \<in> ?G \<and> (\<forall>i \<in> ?G. ?gain i \<le> ?gain ?k \<and> (?gain i = ?gain ?k \<longrightarrow> i \<le> ?k))" if "uf_policy c = 1"
  proof -
    have k: "?k = upa_max_gain_loop ?xs [1..<Suc (unat ?m)] 100 0"
      using that by (simp add: upa_pkts_to_receive_def Let_def del: upt_Suc)
    from max_gain_loop [of 1 "Suc (unat ?m)" 100 ?xs 0, folded k] show ?thesis
    proof
      show "1 \<le> Suc (unat ?m)" "(100 :: int) \<le> 100" by simp_all
    next
      assume *: "?k = 0 \<and> (\<forall>i. 1 \<le> i \<and> i < Suc (unat ?m) \<longrightarrow> upa_gain ?xs i \<le> 100 \<or> upa_gain ?xs i < 100)"
      then have "?G = {}" using gain by (auto simp: not_less [symmetric] less_Suc_eq_le)
      then show ?thesis using * by simp
    next
      assume *: "1 \<le> ?k \<and> ?k < Suc (unat ?m) \<and> upa_gain ?xs ?k > 100 \<and> upa_gain ?xs ?k \<ge> 100 \<and>
        (\<forall>i. 1 \<le> i \<and> i < Suc (unat ?m) \<longrightarrow> upa_gain ?xs i \<le> upa_gain ?xs ?k \<and>
          (upa_gain ?xs i = upa_gain ?xs ?k \<longrightarrow> i \<le> ?k))"
      then have "?k \<in> ?G" using gain [of ?k] by simp
      moreover have "?gain i \<le> ?gain ?k \<and> (?gain i = ?gain ?k \<longrightarrow> i \<le> ?k)" if "i \<in> ?G" for i
      proof -
        have "1 \<le> i" "i < Suc (unat ?m)" using that by simp_all
        then have "upa_gain ?xs i \<le> upa_gain ?xs ?k \<and> (upa_gain ?xs i = upa_gain ?xs ?k \<longrightarrow> i \<le> ?k)" using * by blast
        moreover have "i \<le> unat ?m" "?k \<le> unat ?m" using that * by simp_all
        ultimately show ?thesis by (simp only: gain) blast
      qed
      ultimately show ?thesis by (intro if_some ballI)
    qed
  qed
  have 2: "if ?G = {} then ?k = 0 else ?k \<in> ?G \<and> (\<forall>i \<in> ?G. i \<le> ?k)" if "uf_policy c > 1"
  proof -
    have k: "?k = upa_max_pkts_loop ?xs [1..<Suc (unat ?m)] 0"
      using that by (simp add: upa_pkts_to_receive_def Let_def del: upt_Suc)
    from max_pkts_loop [of 1 "Suc (unat ?m)" ?xs 0, folded k] show ?thesis
    proof
      show "1 \<le> Suc (unat ?m)" by simp
    next
      assume *: "?k = 0 \<and> (\<forall>i. 1 \<le> i \<and> i < Suc (unat ?m) \<longrightarrow> upa_gain ?xs i \<le> 100)"
      then have "?G = {}" using gain by (auto simp: not_less [symmetric] less_Suc_eq_le)
      then show ?thesis using * by simp
    next
      assume *: "1 \<le> ?k \<and> ?k < Suc (unat ?m) \<and> upa_gain ?xs ?k > 100 \<and>
        (\<forall>i. ?k < i \<and> i < Suc (unat ?m) \<longrightarrow> upa_gain ?xs i \<le> 100)"
      then have "?k \<in> ?G" using gain [of ?k] by simp
      moreover have "i \<le> ?k" if "i \<in> ?G" for i
        using * gain [of i] that by (metis (no_types, lifting) less_Suc_eq_le linorder_not_le mem_Collect_eq)
      ultimately show ?thesis by (intro if_some ballI)
    qed
  qed
  have "uf_policy c = 0 \<Longrightarrow> ?k = unat ?m" by (simp add: upa_pkts_to_receive_def Let_def)
  then show ?thesis using 0 1 2 unfolding Let_def req_def by blast
qed

text \<open>
  (C37) The request says how many packets there are to send, fewer than are queued and no more than the ring of
  finished packets and an input ring can hold. The receiver reads from its bitmap the number of
  slots that the sender expects, or less; it reads the right number for up to seven packets exactly when the first exchange
  takes at most two slots and no further packet adds more than one slot.
\<close>

theorem upa_request_and_slots:
  assumes "tq_wf q" "\<not> tq_locked q" "n \<in> ran (tq_map q)" and "upa_request e c q n p dq = Some info"
    and "unat m < nat (uf_max_incoming c)" "1 \<le> upa_timeslots e (upa_triggering_duration e (ue_datalen e (tp_qb (tq_pkt q p))))"
  shows "let k = unat (drop_bit 8 info AND 0xFF);
      T = upa_expected_slots e (upa_len e q n) (upa_triggering_duration e (ue_datalen e (tp_qb (tq_pkt q p))));
      slots = (\<lambda>i. int (unat (upa_num_of_slots_required c (ucast (info AND 0xFF)) m ! i)))
    in 0 < k \<and> k < length (tq_pkts q n) \<and> int k \<le> uf_max_incoming c - 2 \<and>
       int k + ringbufindex_elements dq \<le> uf_dequeued_size c - 2 \<and>
       (\<forall>i \<le> min (min k 7) (unat m). slots i \<le> T i \<and>
          (slots i = T i \<longleftrightarrow> T 0 \<le> 2 \<and> (\<forall>j < i. T (Suc j) \<le> T j + 1)))"
proof -
  let ?trig = "upa_triggering_duration e (ue_datalen e (tp_qb (tq_pkt q p)))"
  let ?T = "upa_expected_slots e (upa_len e q n) ?trig"
  let ?bm = "ucast (info AND 0xFF) :: u8"
  let ?k = "unat (drop_bit 8 info AND 0xFF)"
  note r = request_spec [OF assms(1-4)]
  have pos: "0 < upa_pkts_to_request c q n dq" using r(1,2) by linarith
  note b = pkts_to_request_bounds [OF assms(1,3) pos, folded r(2)]
  have bits: "bit ?bm j \<longleftrightarrow> (if j = 0 then ?T 0 > 1 else ?T j > ?T (j - 1))" if "j \<le> ?k" "j < 8" for j
    using r(4) [of j] that by (simp add: upa_slot_bit_def)
  have mono: "?T j \<le> ?T (Suc j)" for j by (simp add: upa_expected_simps)
  have one: "1 \<le> ?T 0" using assms(6) by (simp add: upa_expected_simps)
  have "int (unat (upa_num_of_slots_required c ?bm m ! i)) \<le> ?T i \<and>
      (int (unat (upa_num_of_slots_required c ?bm m ! i)) = ?T i \<longleftrightarrow> ?T 0 \<le> 2 \<and> (\<forall>j < i. ?T (Suc j) \<le> ?T j + 1))"
    if "i \<le> min (min ?k 7) (unat m)" for i
  proof -
    have "i \<le> ?k" "i < 8" "i \<le> unat m" using that by simp_all
    then show ?thesis
      unfolding slots_required [OF assms(5) \<open>i \<le> unat m\<close>]
      using slot_counts [where T = ?T and k = ?k and bm = ?bm and i = i, OF bits mono one] by blast
  qed
  then show ?thesis using r(1,3) b(3,4) unfolding Let_def by blast
qed

section \<open>Witnesses\<close>

text \<open>The demonstration queue with four packets, the second at its last transmission; a slot of 10 ms and a tick per microsecond.\<close>

definition upa_demo :: tsch_q where
  "upa_demo = tq_demo\<lparr>
     tq_nbr := (\<lambda>_. (tsch_neighbor_init [1, 2])\<lparr>tn_tx_array := [0, 8, 16, 24] @ replicate 12 0,
       tn_tx_ringbuf := \<lparr>rb_mask = 15, rb_put = 4, rb_get = 0\<rparr>\<rparr>),
     tq_mem := \<lparr>memb_size = 8, memb_num = 4, memb_used = [True, True, True, True], memb_mem = 0, memb_data = []\<rparr>,
     tq_pkt := (tq_pkt tq_demo)(8 := (tq_pkt tq_demo 8)\<lparr>tp_max_transmissions := 2\<rparr>)\<rparr>"

lemma upa_demo_pkts: "tq_pkts upa_demo 0 = [0, 8, 16, 24]"
  by (simp add: upa_demo_def tq_pkts_def nbr_pkts_def rb_idx_def rb_count_def rb_cap_def upt_rec)

lemma mask_15: "\<exists>k \<le> 8. (15 :: u8) = mask k"
  by (intro exI [of _ 4]) (simp add: mask_eq_exp_minus_1)

lemma upa_demo_wf: "tq_wf upa_demo" "\<not> tq_locked upa_demo" "0 \<in> ran (tq_map upa_demo)"
proof -
  have map: "ran (tq_map upa_demo) = {0}" using tq_demo_map by (simp add: upa_demo_def)
  then show "0 \<in> ran (tq_map upa_demo)" by simp
  have "tn_ok (tq_nbr upa_demo 0)"
    using mask_15 by (simp add: tn_ok_def upa_demo_def rb_wf_def rb_cap_def tsch_neighbor_init_def
        tsch_queue_backoff_reset_def Let_def TSCH_MAC_MIN_BE_def TSCH_MAC_MAX_BE_def)
  moreover have "i < 4 \<longleftrightarrow> i \<in> {0, 1, 2, 3}" for i :: nat by auto
  then have "{i. i < 4} = {0, 1, 2, 3 :: nat}" by blast
  then have "{0, 8, 16, 24} \<subseteq> memb_live (tq_mem upa_demo)"
    by (auto simp: upa_demo_def memb_live_def memb_addr_def)
  moreover have "memb_wf (tq_mem upa_demo)" by (simp add: upa_demo_def memb_wf_def)
  moreover have "nbr_wf (tq_nt upa_demo)" "nbr_registered (tq_nt upa_demo) TSCH_NBRS"
    using tq_demo_wf by (simp_all add: upa_demo_def tq_wf_def)
  ultimately show "tq_wf upa_demo" by (simp add: tq_wf_def map upa_demo_pkts)
  show "\<not> tq_locked upa_demo" by (simp add: upa_demo_def tq_demo_def)
qed

definition td_demo :: tx_done where
  "td_demo = \<lparr>td_ringbuf = \<lparr>rb_mask = 15, rb_put = 0, rb_get = 0\<rparr>, td_array = replicate 16 0\<rparr>"

lemma td_demo_ok: "td_ok td_demo" "td_pkts td_demo = []" "rb_cap (td_ringbuf td_demo) = 15"
  using mask_15 by (simp_all add: td_demo_def td_ok_def td_pkts_def rb_wf_def rb_cap_def rb_idx_def rb_count_def)

theorem upa_batch_removes_done_witness:
  "tq_pkts (fst (upa_batch_end 0 1 3 (upa_demo, td_demo))) 0 = [16, 24] \<and>
   td_pkts (snd (upa_batch_end 0 1 3 (upa_demo, td_demo))) = [0, 8]"
proof -
  have *: "{i :: nat. bit (1 :: u16) i} = {0}" by (auto simp: bit_1_iff)
  obtain q' d' where r: "upa_batch_end 0 1 3 (upa_demo, td_demo) = (q', d')" by fastforce
  have le: "(0 :: nat) < 3" "3 \<le> length (tq_pkts upa_demo 0)" "length (td_pkts td_demo) + 3 \<le> rb_cap (td_ringbuf td_demo)"
    by (simp_all add: upa_demo_pkts td_demo_ok)
  show ?thesis
    using upa_batch_removes_done [OF upa_demo_wf(1,3) le(1,2) td_demo_ok(1) le(3) r] r
    by (simp add: Let_def upa_demo_pkts td_demo_ok nths_upt upt_rec bit_1_iff)
      (simp add: upa_demo_def tq_demo_def)
qed

definition ur_demo :: "int upa_rx" where
  "ur_demo = \<lparr>ur_ringbuf = \<lparr>rb_mask = 7, rb_put = 0, rb_get = 0\<rparr>, ur_array = replicate 8 0, ur_bitmap = 0, ur_last_seq = 0\<rparr>"

lemma ur_demo_ok: "ur_ok ur_demo" "ur_pkts ur_demo = []" "ur_bitmap ur_demo = 0"
proof -
  have "\<exists>k \<le> 8. (7 :: u8) = mask k" by (intro exI [of _ 3]) (simp add: mask_eq_exp_minus_1)
  then show "ur_ok ur_demo" "ur_pkts ur_demo = []" "ur_bitmap ur_demo = 0"
    by (simp_all add: ur_demo_def ur_ok_def ur_pkts_def rb_wf_def rb_cap_def rb_idx_def rb_count_def)
qed

text \<open>The receiver misses the second packet of three, and the acknowledgement arrives.\<close>

definition upa_events_demo :: "int upa_event list" where
  "upa_events_demo = [Ev_frame 1 0 False, Ev_other False, Ev_frame 3 16 False, Ev_timeout]"

theorem upa_exchange_loses_nothing_witness:
  "\<exists>r'. upa_rx_loop 3 upa_events_demo ur_demo = Some r' \<and>
     16 \<notin> set (tq_pkts (fst (upa_batch_end 0 (ur_bitmap r') 3 (upa_demo, td_demo))) 0)"
proof -
  define r' where "r' = upa_rx_frame 3 16 (upa_rx_frame 1 0 ur_demo)"
  have run: "upa_rx_loop 3 upa_events_demo ur_demo = Some r'"
    by (simp add: upa_events_demo_def ur_demo_def r'_def upa_rx_frame_def Let_def ringbufindex_peek_put_def ringbufindex_put_def)
  have got: "ur_pkts r' = [0, 16]"
    using rx_frame_spec [OF ur_demo_ok(1), of 1 0] rx_frame_spec [of "upa_rx_frame 1 0 ur_demo" 3 16] ur_demo_ok
    by (simp add: r'_def upa_rx_frame_def ur_demo_def ringbufindex_peek_put_def ringbufindex_put_def)
  have le: "(0 :: nat) < 3" "3 \<le> length (tq_pkts upa_demo 0)" "length (td_pkts td_demo) + 3 \<le> rb_cap (td_ringbuf td_demo)"
    by (simp_all add: upa_demo_pkts td_demo_ok)
  have heard: "1 \<le> unat seq \<and> unat seq \<le> 3 \<and> f = tq_pkts upa_demo 0 ! (unat seq - 1)"
    if "(seq, f) \<in> set (upa_heard upa_events_demo)" for seq f
    using that by (auto simp: upa_events_demo_def upa_demo_pkts)
  obtain q' d' where r: "upa_batch_end 0 (ur_bitmap r') 3 (upa_demo, td_demo) = (q', d')" by fastforce
  from upa_exchange_loses_nothing [OF upa_demo_wf(1,3) le(1,2) td_demo_ok(1) le(3) ur_demo_ok(1,3) run heard disjI1 [OF refl] r]
  show ?thesis using run r got ur_demo_ok(2) by auto
qed

definition upa_conf_demo :: upa_conf where
  "upa_conf_demo = \<lparr>uf_dequeued_size = 16, uf_max_incoming = 8, uf_queuebuf_num = 16, uf_policy = 1\<rparr>"

definition upa_env_demo :: upa_env where
  "upa_env_demo = \<lparr>ue_timing = (\<lambda>t. case t of Ts_tx_offset \<Rightarrow> 2120 | Ts_tx_ack_delay \<Rightarrow> 1300 | _ \<Rightarrow> 10000),
     ue_upa = (\<lambda>t. ucast (upa_timeslot_timing_us_10000 False t)), ue_ticks = word_of_int, ue_datalen = (\<lambda>_. 100)\<rparr>"

lemma slots_third_bit:
  assumes "\<And>j. bit bm j \<longleftrightarrow> j = 2"
  shows "upa_bitmap_slots bm 1 = 1" "upa_bitmap_slots bm 2 = 2" "upa_bitmap_slots bm 3 = 2"
proof -
  have 0: "upa_bitmap_slots bm 0 = 1" by (simp add: upa_bitmap_slots_0 assms)
  have 1: "upa_bitmap_slots bm (Suc 0) = 1" unfolding upa_bitmap_slots_Suc 0 by (simp add: assms)
  have 2: "upa_bitmap_slots bm (Suc (Suc 0)) = 2" unfolding upa_bitmap_slots_Suc [of _ "Suc 0"] 1 by (simp add: assms)
  have 3: "upa_bitmap_slots bm (Suc (Suc (Suc 0))) = 2" unfolding upa_bitmap_slots_Suc [of _ "Suc (Suc 0)"] 2 by (simp add: assms)
  show "upa_bitmap_slots bm 1 = 1" "upa_bitmap_slots bm 2 = 2" "upa_bitmap_slots bm 3 = 2"
    using 1 2 3 by (simp_all only: One_nat_def numeral_2_eq_2 numeral_3_eq_3)
qed

text \<open>Three packets, the third of which takes a second slot: one or three packets are best, three are taken.\<close>

theorem upa_receiver_choice_witness:
  "upa_pkts_to_receive upa_conf_demo 0x304 (ur_ringbuf ur_demo) 0 True = 3"
proof -
  let ?bm = "ucast (0x304 AND 0xFF :: u16) :: u8"
  let ?k = "upa_pkts_to_receive upa_conf_demo 0x304 (ur_ringbuf ur_demo) 0 True"
  have e: "?bm = push_bit 2 1" by simp
  have bit: "bit ?bm j \<longleftrightarrow> j = 2" for j
    by (subst e) (auto simp only: bit_push_bit_1 len_of_numeral_defs)
  note s = slots_third_bit [OF bit]
  have w: "rb_wf (ur_ringbuf ur_demo)" "0 < uf_max_incoming upa_conf_demo"
    using ur_demo_ok(1) by (simp_all add: ur_ok_def upa_conf_demo_def)
  note * = upa_receiver_choice [OF w, where info = "0x304" and g = 0 and root = True, unfolded Let_def]
  have m: "unat (upa_max_acceptable_pkts upa_conf_demo 0x304 (ur_ringbuf ur_demo) 0 True) = 3"
    by (simp add: upa_max_acceptable_pkts_def upa_conf_demo_def ur_demo_def ringbufindex_elements_def)
  let ?gain = "\<lambda>i. (1 + int i) * 100 div int (upa_bitmap_slots ?bm i)"
  let ?G = "{i. 1 \<le> i \<and> i \<le> 3 \<and> ?gain i > 100}"
  have choice: "if ?G = {} then ?k = 0 else ?k \<in> ?G \<and> (\<forall>i \<in> ?G. ?gain i \<le> ?gain ?k \<and> (?gain i = ?gain ?k \<longrightarrow> i \<le> ?k))"
    by (rule * [unfolded m, THEN conjunct2, THEN conjunct2, THEN conjunct1, THEN mp]) (simp add: upa_conf_demo_def)
  have g: "3 \<in> ?G" using s(3) by simp
  then have ne: "?G \<noteq> {}" by blast
  note chosen = choice [unfolded if_not_P [OF ne]]
  note k = chosen [THEN conjunct1] chosen [THEN conjunct2, THEN bspec, OF g]
  have "?gain 1 = 200" "?gain 2 = 150" "?gain 3 = 200" using s by simp_all
  moreover have "?k = 1 \<or> ?k = 2 \<or> ?k = 3" using k(1) by auto
  ultimately show ?thesis using k(2) by auto
qed

lemma upa_demo_request: "upa_request upa_env_demo upa_conf_demo upa_demo 0 0 \<lparr>rb_mask = 15, rb_put = 0, rb_get = 0\<rparr> = Some 778"
proof -
  have n: "tsch_queue_upa_get_next_packet_for_nbr upa_demo (Some 0) (of_nat i) = Some (tq_pkts upa_demo 0 ! i)" if "i < 4" for i
    using upa_next_packet [OF upa_demo_wf] that by (simp add: upa_demo_pkts)
  have "length [1, 2 :: u8] \<noteq> length (replicate 8 a)" for a :: u8 by simp
  then have "[1, 2] \<noteq> replicate 8 (a :: u8)" for a by metis
  then have b: "tn_is_broadcast (tq_nbr upa_demo 0) = False"
    by (simp add: upa_demo_def tsch_neighbor_init_def Let_def tsch_queue_backoff_reset_def tsch_neighbor_zero_def
        tsch_eb_address_def tsch_broadcast_address_def)
  have c: "tsch_queue_nbr_packet_count upa_demo (Some 0) = 4"
    by (simp add: upa_demo_def tsch_queue_nbr_packet_count_def ringbufindex_elements_def)
  have k: "upa_pkts_to_request upa_conf_demo upa_demo 0 \<lparr>rb_mask = 15, rb_put = 0, rb_get = 0\<rparr> = 3"
    by (simp add: upa_pkts_to_request_def Let_def b c upa_conf_demo_def ringbufindex_elements_def)
  have d: "TSCH_PACKET_DURATION upa_env_demo 100 = 3296" "TSCH_PACKET_DURATION upa_env_demo 21 = 768"
    by (simp_all add: TSCH_PACKET_DURATION_def upa_env_demo_def RADIO_PHY_OVERHEAD_def)
  have t: "upa_triggering_duration upa_env_demo 100 = 7484"
    by (simp add: upa_triggering_duration_def d) (simp add: upa_env_demo_def)
  have f: "ue_upa upa_env_demo Upa_tx_offset_1 = 1250" "ue_upa upa_env_demo Upa_tx_offset_2 = 1000"
    "ue_upa upa_env_demo Upa_tx_ack_delay = 1250" "ue_upa upa_env_demo Upa_max_ack = 810"
    "ue_upa upa_env_demo Upa_tx_process_b_ack = 360" "ue_timing upa_env_demo Ts_timeslot_length = 10000"
    by (simp_all add: upa_env_demo_def)
  have st: "upa_utility_step upa_env_demo 7484 1 100 (0, 1, 0) = (2, 2, 4546)"
    "upa_utility_step upa_env_demo 7484 2 100 (2, 2, 4546) = (2, 2, 8842)"
    "upa_utility_step upa_env_demo 7484 3 100 (2, 2, 8842) = (10, 3, 13138)"
    by (simp_all add: upa_utility_step_def Let_def d upa_timeslots_def f)
  have "upa_timeslots upa_env_demo 7484 = 1" by (simp add: upa_timeslots_def upa_env_demo_def)
  moreover have "ue_datalen upa_env_demo = (\<lambda>_. 100)" by (simp add: upa_env_demo_def)
  moreover have "[1..<Suc 3] = [1, 2, 3]" by (simp add: upt_rec)
  ultimately have "upa_calculate_slot_utility upa_env_demo upa_demo 0 0 3 = Some (10, 2)"
    using n [of 1] n [of 2] n [of 3] by (simp add: upa_calculate_slot_utility_def t st del: upt_Suc One_nat_def)
  then show ?thesis unfolding upa_request_def k by simp
qed

theorem upa_request_and_slots_witness:
  "upa_request upa_env_demo upa_conf_demo upa_demo 0 0 \<lparr>rb_mask = 15, rb_put = 0, rb_get = 0\<rparr> = Some 778 \<and>
   int (unat (upa_num_of_slots_required upa_conf_demo (ucast (778 AND 0xFF :: u16)) 3 ! 1))
     \<le> upa_expected_slots upa_env_demo (upa_len upa_env_demo upa_demo 0) 7484 1"
proof -
  let ?trig = "upa_triggering_duration upa_env_demo (ue_datalen upa_env_demo (tp_qb (tq_pkt upa_demo 0)))"
  have t: "?trig = 7484"
    by (simp add: upa_triggering_duration_def TSCH_PACKET_DURATION_def RADIO_PHY_OVERHEAD_def upa_env_demo_def)
  have m: "unat (3 :: u8) < nat (uf_max_incoming upa_conf_demo)" by (simp add: upa_conf_demo_def)
  have one: "1 \<le> upa_timeslots upa_env_demo ?trig" unfolding t by (simp add: upa_timeslots_def upa_env_demo_def)
  have k: "unat (drop_bit 8 (778 :: u16) AND 0xFF) = 3" by simp
  note * = upa_request_and_slots [OF upa_demo_wf upa_demo_request m one, unfolded Let_def t k]
  have "1 \<le> min (min 3 7) (unat (3 :: u8))" by simp
  then show ?thesis using * upa_demo_request by blast
qed

end
