(* ===== verification/Spec2Isabelle.thy ===== *)
theory Spec2Isabelle
  imports Prelude Lib_List Lib_Ringbuf Lib_Memb Tsch_Asn Asap_Sla Asap_Sla_Network Nbr_Table Tsch_Types Tsch_Queue
    Tsch_Queue_Correct Tsch_Schedule Tsch_Schedule_Correct Tsch_Schedule_Select Asap_Upa Asap_Upa_Correct
begin

text \<open>
  The verification library of ASAP, a Contiki-NG tree whose TSCH link layer
  (\<^verbatim>\<open>os/net/mac/tsch\<close>) is extended by an adaptive timeslot length (SLA) and by utility-based
  packet aggregation (UPA), beside the schedulers Orchestra, ALICE and OST.

  \<^bold>\<open>How the parts interact.\<close> The upper layers queue packets with \<^verbatim>\<open>tsch_queue_add_packet\<close>: a
  packet is a block of a \<^verbatim>\<open>memb\<close> pool, its address is put into the index ring of the
  neighbor, and the neighbor is an item of a neighbor table. Each slot, the slot operation asks the schedule for the
  next active link and the queues for the packet that may be sent in it; with UPA the exchange may continue with a batch. After
  the transmission the packet leaves the ring of the neighbor for the ring of finished packets. The coordinator
  observes frame lengths, computes a shorter timeslot length and announces it in beacons, and
  every node switches at the announced absolute slot number. Frames and their information elements are
  built and parsed by the framer.

  \<^bold>\<open>Theories.\<close>
  \<^item> \<open>Prelude\<close>: machine integers of the C sources, abstract sequences (the contract of linked lists), lemmas shared by all.
  \<^item> \<open>Lib_List\<close> (\<^verbatim>\<open>os/lib/list.c\<close>): the linked lists on an explicit heap of next pointers; the locale
    \<open>linked_seq\<close> states that they implement sequences without duplicates, and is
    interpreted on the model. The other theories use these sequences.
  \<^item> \<open>Lib_Ringbuf\<close> (\<^verbatim>\<open>ringbufindex.c\<close>, \<^verbatim>\<open>ringbuf.c\<close>): the locale \<open>index_fifo\<close>
    is what the queues rely on.
  \<^item> \<open>Lib_Memb\<close> (\<^verbatim>\<open>memb.c\<close>): the locale \<open>block_pool\<close> is what every owner of a pool relies on.
  \<^item> \<open>Tsch_Asn\<close> (\<^verbatim>\<open>tsch-asn.h\<close>): the 40-bit slot number.
  \<^item> \<open>Nbr_Table\<close> (\<^verbatim>\<open>nbr-table.c\<close>): the locale \<open>addr_table\<close> presents a table as a finite map
    from addresses with eviction.
  \<^item> \<open>Asap_Sla\<close>: SLA in \<^verbatim>\<open>tsch.c\<close>, \<^verbatim>\<open>tsch-slot-operation.c\<close> and the SLA
    elements of beacons.
  \<^item> \<open>Asap_Sla_Network\<close>: the nodes of a network as a step relation, in which any node may miss any slot, beacons are
    processed late or never and the coordinator decides at any time; the agreement of the nodes is an invariant by rule
    induction. Two sets of the state only record: the nodes that missed an announced slot, and the announced slots.
  \<^item> \<open>Tsch_Types\<close>, \<open>Tsch_Queue\<close>, \<open>Tsch_Queue_Correct\<close>: packets, neighbors and
    \<^verbatim>\<open>tsch-queue.c\<close>; the abstraction maps each address to a sequence of packets.
  \<^item> \<open>Tsch_Schedule\<close>, \<open>Tsch_Schedule_Correct\<close>: \<^verbatim>\<open>tsch-schedule.c\<close>, with the reachable schedules
    as an inductive predicate.
  \<^item> \<open>Tsch_Schedule_Select\<close>: what the selection of the next active link and the distance to the next slot in use compute, for
    Orchestra, ALICE and OST. The rescheduling of ALICE is an argument; what is assumed of it is \<open>alice_edits\<close>: it only removes
    and adds links of the ALICE slotframes, as \<^verbatim>\<open>alice_schedule_unicast_slotframe\<close> does.
  \<^item> \<open>Asap_Upa\<close>, \<open>Asap_Upa_Correct\<close>: UPA in \<^verbatim>\<open>tsch-slot-operation.c\<close>: the request, the
    receiver's choice, the reception of a batch and its end in the sender's rings.

  \<^bold>\<open>Correspondence.\<close> A definition has the name of the function it models (a suffix \<open>_loop\<close> or
  \<open>_step\<close> for the body of a loop, or for a part that is large). A struct is a record and the static variables of a module are a
  record too, passed and returned. Widths are kept: \<^verbatim>\<open>uint16_t\<close> is a 16-bit word, arithmetic that C does in
  \<^verbatim>\<open>int\<close> is done in \<open>int\<close> and stored back. Pointers to pool blocks are addresses, pointers into
  tables are indices, a null pointer is \<open>None\<close>. Build options that change the code are arguments (\<open>sla_conf\<close>,
  \<open>q_conf\<close>, \<open>sched_conf\<close>, \<open>upa_conf\<close>).

  \<^bold>\<open>Loops.\<close> Loops over lists and arrays are structural recursion. Loops that end only under an invariant
  (walking a heap of pointers, flushing a queue, emptying the schedule) are \<^theory_text>\<open>partial_function (option)\<close>, so that
  \<open>None\<close> is divergence or a null dereference, and their termination is proved as \<open>\<exists>s'. f s = Some s'\<close>. No
  fuel is used.

  \<^bold>\<open>What is proved\<close>: for each component an invariant that its operations keep, the functional behaviour of its
  operations against an abstract object (sequence, map, pool, least element), the termination of its
  loops, and where the code departs from its comments, the exact condition under which it does.

  \<^bold>\<open>Not modelled.\<close> The radio state machine itself (protothreads over the radio driver and rtimer), association and
  time synchronisation, logging and statistics; the IPv6, RPL, UDP and application layers, whose effect on TSCH is the sequence of
  calls; queuebufs (an allocation is an argument); drivers, platforms and CPUs, the FAT file
  system, CoAP, MQTT and LWM2M, which the ASAP extensions do not touch; floating-point code
  (\<^verbatim>\<open>WITH_A3\<close>), the OST bookkeeping of subsequent schedules, and the override of the selected link by OST's on-demand
  schedules (\<^verbatim>\<open>OST_ON_DEMAND_PROVISION\<close>, off as shipped).
\<close>

end
